theory Spec2Isabelle
  imports Complex_Main "HOL-Library.Product_Lexorder" "HOL-Library.List_Lexorder" "HOL-Library.Char_ord"
begin

section \<open>Deferred results and the timer service\<close>

text \<open>
  \<^verbatim>\<open>tornado.concurrent.Future\<close> and \<^verbatim>\<open>tornado.ioloop.IOLoop\<close> are collaborators of
  \<^verbatim>\<open>locks.py\<close> and \<^verbatim>\<open>queues.py\<close>. Objects are shared by reference (a waiter sits in a
  deque and in the closure of its timeout callback at once), so futures live in an explicit
  store and are named by their index in it.
\<close>

datatype exn =
    TimeoutError
  | ValueError string
  | RuntimeError string
  | TypeError string
  | AssertionError string
  | IndexError
  | QueueEmpty
  | QueueFull

type_synonym fid = nat

text \<open>The argument of \<^verbatim>\<open>timeout=\<close>: an absolute time stamp or a \<^verbatim>\<open>datetime.timedelta\<close>.\<close>

datatype timeout = Timestamp real | Timedelta real

text \<open>Python's truth value of \<^verbatim>\<open>timeout\<close> in \<^verbatim>\<open>if timeout:\<close>; \<^verbatim>\<open>None\<close> is false,
  a number is false when it is zero, a \<^verbatim>\<open>timedelta\<close> is false when it is \<^verbatim>\<open>timedelta(0)\<close>.\<close>

fun truthy :: "timeout option \<Rightarrow> bool" where
  "truthy None = False"
| "truthy (Some (Timestamp t)) = (t \<noteq> 0)"
| "truthy (Some (Timedelta d)) = (d \<noteq> 0)"

text \<open>The closures handed to \<^verbatim>\<open>add_timeout\<close>, by the function that builds them and the
  waiter they close over.\<close>

datatype on_timeout =
    ConditionOnTimeout fid
  | SemaphoreOnTimeout fid
  | QueueOnTimeout fid
  | WithTimeoutCallback fid

text \<open>The closures handed to \<^verbatim>\<open>add_done_callback\<close>:
  \<^verbatim>\<open>lambda _: io_loop.remove_timeout(timeout_handle)\<close>, and the copy of the outcome that
  \<^verbatim>\<open>gen.with_timeout\<close> chains to its result.\<close>

datatype callback = RemoveTimeout nat | ChainFuture fid

datatype 'v fstate = Pending | Resolved 'v | Failed exn

record 'v future =
  fstate :: "'v fstate"
  callbacks :: "callback list"

record 'v world =
  futures :: "'v future list"
  scheduled :: "(nat \<times> timeout \<times> on_timeout) list"
  next_handle :: nat

definition world0 :: "'v world" where
  "world0 = \<lparr>futures = [], scheduled = [], next_handle = 0\<rparr>"

text \<open>Modelled from the spec: the deferred-result contract of section 6 (create unresolved,
  resolve with a value or a failure once, register a completion callback, query
  resolved/unresolved); \<^verbatim>\<open>tornado/concurrent.py\<close> is not among the sources.\<close>

definition Future :: "'v world \<Rightarrow> fid \<times> 'v world" where
  "Future w =
     (length (futures w),
      w\<lparr>futures := futures w @ [\<lparr>fstate = Pending, callbacks = []\<rparr>]\<rparr>)"

definition fstate_of :: "'v world \<Rightarrow> fid \<Rightarrow> 'v fstate" where
  "fstate_of w f = fstate (futures w ! f)"

definition future_done :: "'v world \<Rightarrow> fid \<Rightarrow> bool" where
  "future_done w f = (fstate_of w f \<noteq> Pending)"

text \<open>Modelled from the spec: the timer contract of section 6 (schedule a callback returning
  a cancellation handle; cancel a scheduled callback, a no-op if it already fired);
  \<^verbatim>\<open>tornado/ioloop.py\<close> is not among the sources.\<close>

definition add_timeout :: "timeout \<Rightarrow> on_timeout \<Rightarrow> 'v world \<Rightarrow> nat \<times> 'v world" where
  "add_timeout deadline cb w =
     (next_handle w,
      w\<lparr>scheduled := scheduled w @ [(next_handle w, deadline, cb)],
        next_handle := next_handle w + 1\<rparr>)"

definition remove_timeout :: "nat \<Rightarrow> 'v world \<Rightarrow> 'v world" where
  "remove_timeout h w = w\<lparr>scheduled := filter (\<lambda>e. fst e \<noteq> h) (scheduled w)\<rparr>"

text \<open>One completion callback. The chained copy of \<^verbatim>\<open>gen.with_timeout\<close> resolves the
  wrapper with the same outcome unless the wrapper has timed out already.\<close>

fun run_callback :: "'v fstate \<Rightarrow> 'v world \<Rightarrow> callback \<Rightarrow> 'v world" where
  "run_callback out w (RemoveTimeout h) = remove_timeout h w"
| "run_callback out w (ChainFuture r) =
     (if fstate_of w r = Pending
      then w\<lparr>futures := (futures w)[r := (futures w ! r)\<lparr>fstate := out\<rparr>]\<rparr>
      else w)"

text \<open>Resolving: single assignment (a resolved future keeps its first outcome), then the
  registered callbacks run in registration order.\<close>

definition set_outcome :: "fid \<Rightarrow> 'v fstate \<Rightarrow> 'v world \<Rightarrow> 'v world" where
  "set_outcome f out w =
     (if future_done w f then w
      else foldl (run_callback out)
             (w\<lparr>futures := (futures w)[f := \<lparr>fstate = out, callbacks = []\<rparr>]\<rparr>)
             (callbacks (futures w ! f)))"

definition set_result :: "fid \<Rightarrow> 'v \<Rightarrow> 'v world \<Rightarrow> 'v world" where
  "set_result f v w = set_outcome f (Resolved v) w"

definition set_exception :: "fid \<Rightarrow> exn \<Rightarrow> 'v world \<Rightarrow> 'v world" where
  "set_exception f e w = set_outcome f (Failed e) w"

text \<open>A callback added to a resolved future runs at once.\<close>

definition add_done_callback :: "fid \<Rightarrow> callback \<Rightarrow> 'v world \<Rightarrow> 'v world" where
  "add_done_callback f cb w =
     (if future_done w f then run_callback (fstate_of w f) w cb
      else w\<lparr>futures := (futures w)[f := (futures w ! f)\<lparr>callbacks := callbacks (futures w ! f) @ [cb]\<rparr>]\<rparr>)"

text \<open>The timer service takes a due timeout off its schedule and hands back its closure;
  \<^verbatim>\<open>None\<close> when the handle is not scheduled (cancelled, or fired before).\<close>

definition pop_timeout :: "nat \<Rightarrow> 'v world \<Rightarrow> (on_timeout \<times> 'v world) option" where
  "pop_timeout h w =
     (case find (\<lambda>e. fst e = h) (scheduled w) of
        None \<Rightarrow> None
      | Some e \<Rightarrow> Some (snd (snd e), remove_timeout h w))"

section \<open>locks.py\<close>

subsection \<open>\<^verbatim>\<open>_TimeoutGarbageCollector\<close>\<close>

record TimeoutGarbageCollector =
  waiters :: "fid list"
  timeouts :: int

definition TimeoutGarbageCollector_init :: TimeoutGarbageCollector where
  "TimeoutGarbageCollector_init = \<lparr>waiters = [], timeouts = 0\<rparr>"

definition garbage_collect ::
  "'v world \<Rightarrow> 'z TimeoutGarbageCollector_scheme \<Rightarrow> 'z TimeoutGarbageCollector_scheme" where
  "garbage_collect w self =
     (let self1 = self\<lparr>timeouts := timeouts self + 1\<rparr> in
      if timeouts self1 > 100
      then self1\<lparr>timeouts := 0,
                 waiters := filter (\<lambda>f. \<not> future_done w f) (waiters self1)\<rparr>
      else self1)"

subsection \<open>\<^verbatim>\<open>Condition\<close>\<close>

type_synonym Condition = TimeoutGarbageCollector

definition Condition_init :: Condition where
  "Condition_init = TimeoutGarbageCollector_init"

definition Condition_wait ::
  "timeout option \<Rightarrow> Condition \<times> bool world \<Rightarrow> fid \<times> Condition \<times> bool world" where
  "Condition_wait tmo cw =
     (let (self, w) = cw;
          (waiter, w1) = Future w;
          self1 = self\<lparr>waiters := waiters self @ [waiter]\<rparr>
      in case tmo of
           Some t \<Rightarrow>
             if truthy tmo
             then (let (timeout_handle, w2) = add_timeout t (ConditionOnTimeout waiter) w1;
                       w3 = add_done_callback waiter (RemoveTimeout timeout_handle) w2
                   in (waiter, self1, w3))
             else (waiter, self1, w1)
         | None \<Rightarrow> (waiter, self1, w1))"

text \<open>The closure \<^verbatim>\<open>on_timeout\<close> of \<^verbatim>\<open>Condition.wait\<close>.\<close>

definition Condition_on_timeout :: "fid \<Rightarrow> Condition \<times> bool world \<Rightarrow> Condition \<times> bool world" where
  "Condition_on_timeout waiter cw =
     (let (self, w) = cw;
          w1 = set_result waiter False w
      in (garbage_collect w1 self, w1))"

text \<open>The \<^verbatim>\<open>while n and self._waiters\<close> loop of \<^verbatim>\<open>notify\<close>: the deque that is left and
  the waiters collected.\<close>

fun notify_loop :: "'v world \<Rightarrow> int \<Rightarrow> fid list \<Rightarrow> fid list \<Rightarrow> fid list \<times> fid list" where
  "notify_loop w n [] acc = ([], acc)"
| "notify_loop w n (waiter # rest) acc =
     (if n = 0 then (waiter # rest, acc)
      else if \<not> future_done w waiter then notify_loop w (n - 1) rest (acc @ [waiter])
      else notify_loop w n rest acc)"

definition Condition_notify :: "int \<Rightarrow> Condition \<times> bool world \<Rightarrow> Condition \<times> bool world" where
  "Condition_notify n cw =
     (let (self, w) = cw;
          (rest, ws) = notify_loop w n (waiters self) []
      in (self\<lparr>waiters := rest\<rparr>, foldl (\<lambda>w' waiter. set_result waiter True w') w ws))"

definition Condition_notify_all :: "Condition \<times> bool world \<Rightarrow> Condition \<times> bool world" where
  "Condition_notify_all cw = Condition_notify (int (length (waiters (fst cw)))) cw"

text \<open>The timer service firing the timeout with handle \<open>h\<close>.\<close>

definition Condition_fire :: "nat \<Rightarrow> Condition \<times> bool world \<Rightarrow> Condition \<times> bool world" where
  "Condition_fire h cw =
     (case pop_timeout h (snd cw) of
        Some (ConditionOnTimeout waiter, w1) \<Rightarrow> Condition_on_timeout waiter (fst cw, w1)
      | _ \<Rightarrow> cw)"

subsection \<open>\<^verbatim>\<open>Event\<close>\<close>

text \<open>The gate is the completion state of one future; it is resolved with \<^verbatim>\<open>None\<close>,
  so the futures of a store that holds an event carry optional values.\<close>

record Event =
  ev_future :: fid

definition Event_init :: "'v option world \<Rightarrow> Event \<times> 'v option world" where
  "Event_init w = (let (f, w1) = Future w in (\<lparr>ev_future = f\<rparr>, w1))"

definition Event_is_set :: "Event \<times> 'v option world \<Rightarrow> bool" where
  "Event_is_set ew = future_done (snd ew) (ev_future (fst ew))"

definition Event_set :: "Event \<times> 'v option world \<Rightarrow> Event \<times> 'v option world" where
  "Event_set ew =
     (let (self, w) = ew in
      if \<not> future_done w (ev_future self) then (self, set_result (ev_future self) None w)
      else (self, w))"

definition Event_clear :: "Event \<times> 'v option world \<Rightarrow> Event \<times> 'v option world" where
  "Event_clear ew =
     (let (self, w) = ew in
      if future_done w (ev_future self)
      then (let (f, w1) = Future w in (self\<lparr>ev_future := f\<rparr>, w1))
      else (self, w))"

text \<open>Modelled from the spec: \<^verbatim>\<open>gen.with_timeout\<close>, "a wrapping operation that fails with a
  timeout-kind error if not resolved by an absolute deadline or a relative duration"
  (section 6); \<^verbatim>\<open>tornado/gen.py\<close> is not among the sources. The wrapper is a fresh future
  that copies the outcome of the wrapped one, with a timeout scheduled on the timer whose
  callback fails the wrapper with \<^verbatim>\<open>TimeoutError\<close> and which is cancelled when the
  wrapped future resolves.\<close>

definition with_timeout :: "timeout \<Rightarrow> fid \<Rightarrow> 'v world \<Rightarrow> fid \<times> 'v world" where
  "with_timeout t f w =
     (let (result, w1) = Future w;
          w2 = add_done_callback f (ChainFuture result) w1;
          (timeout_handle, w3) = add_timeout t (WithTimeoutCallback result) w2;
          w4 = add_done_callback f (RemoveTimeout timeout_handle) w3
      in (result, w4))"

definition with_timeout_callback :: "fid \<Rightarrow> 'v world \<Rightarrow> 'v world" where
  "with_timeout_callback result w = set_exception result TimeoutError w"

definition Event_wait :: "timeout option \<Rightarrow> Event \<times> 'v option world \<Rightarrow> fid \<times> 'v option world" where
  "Event_wait tmo ew =
     (let (self, w) = ew in
      case tmo of
        None \<Rightarrow> (ev_future self, w)
      | Some t \<Rightarrow> with_timeout t (ev_future self) w)"

text \<open>The timer service firing the timeout with handle \<open>h\<close> in a store that holds an
  event.\<close>

definition Event_fire :: "nat \<Rightarrow> 'v world \<Rightarrow> 'v world" where
  "Event_fire h w =
     (case pop_timeout h w of
        Some (WithTimeoutCallback result, w1) \<Rightarrow> with_timeout_callback result w1
      | _ \<Rightarrow> w)"

subsection \<open>\<^verbatim>\<open>Semaphore\<close>, \<^verbatim>\<open>BoundedSemaphore\<close>\<close>

text \<open>The value an acquirer's future resolves to: \<^verbatim>\<open>_ReleasingContextManager(self)\<close>.\<close>

datatype release_handle = ReleasingContextManager

record Semaphore = TimeoutGarbageCollector +
  sem_value :: int

definition Semaphore_init :: "int \<Rightarrow> exn + Semaphore" where
  "Semaphore_init v =
     (if v < 0 then Inl (ValueError ''semaphore initial value must be >= 0'')
      else Inr \<lparr>waiters = [], timeouts = 0, sem_value = v\<rparr>)"

text \<open>The \<^verbatim>\<open>while self._waiters\<close> loop of \<^verbatim>\<open>release\<close>: the deque that is left and the
  live waiter found, if any.\<close>

fun release_loop :: "'v world \<Rightarrow> fid list \<Rightarrow> fid list \<times> fid option" where
  "release_loop w [] = ([], None)"
| "release_loop w (waiter # rest) =
     (if \<not> future_done w waiter then (rest, Some waiter) else release_loop w rest)"

definition Semaphore_release ::
  "'z Semaphore_scheme \<times> release_handle world \<Rightarrow> 'z Semaphore_scheme \<times> release_handle world" where
  "Semaphore_release sw =
     (let (self, w) = sw;
          self1 = self\<lparr>sem_value := sem_value self + 1\<rparr>
      in case release_loop w (waiters self1) of
           (rest, None) \<Rightarrow> (self1\<lparr>waiters := rest\<rparr>, w)
         | (rest, Some waiter) \<Rightarrow>
             (self1\<lparr>waiters := rest, sem_value := sem_value self1 - 1\<rparr>,
              set_result waiter ReleasingContextManager w))"

definition Semaphore_acquire ::
  "timeout option \<Rightarrow> 'z Semaphore_scheme \<times> release_handle world
     \<Rightarrow> fid \<times> 'z Semaphore_scheme \<times> release_handle world" where
  "Semaphore_acquire tmo sw =
     (let (self, w) = sw;
          (waiter, w1) = Future w
      in if sem_value self > 0
         then (waiter, self\<lparr>sem_value := sem_value self - 1\<rparr>,
               set_result waiter ReleasingContextManager w1)
         else (let self1 = self\<lparr>waiters := waiters self @ [waiter]\<rparr> in
               case tmo of
                 Some t \<Rightarrow>
                   if truthy tmo
                   then (let (timeout_handle, w2) = add_timeout t (SemaphoreOnTimeout waiter) w1;
                             w3 = add_done_callback waiter (RemoveTimeout timeout_handle) w2
                         in (waiter, self1, w3))
                   else (waiter, self1, w1)
               | None \<Rightarrow> (waiter, self1, w1)))"

text \<open>The closure \<^verbatim>\<open>on_timeout\<close> of \<^verbatim>\<open>Semaphore.acquire\<close>.\<close>

definition Semaphore_on_timeout ::
  "fid \<Rightarrow> 'z Semaphore_scheme \<times> release_handle world \<Rightarrow> 'z Semaphore_scheme \<times> release_handle world" where
  "Semaphore_on_timeout waiter sw =
     (let (self, w) = sw;
          w1 = set_exception waiter TimeoutError w
      in (garbage_collect w1 self, w1))"

definition Semaphore_fire ::
  "nat \<Rightarrow> 'z Semaphore_scheme \<times> release_handle world \<Rightarrow> 'z Semaphore_scheme \<times> release_handle world" where
  "Semaphore_fire h sw =
     (case pop_timeout h (snd sw) of
        Some (SemaphoreOnTimeout waiter, w1) \<Rightarrow> Semaphore_on_timeout waiter (fst sw, w1)
      | _ \<Rightarrow> sw)"

record BoundedSemaphore = Semaphore +
  initial_value :: int

definition BoundedSemaphore_init :: "int \<Rightarrow> exn + BoundedSemaphore" where
  "BoundedSemaphore_init v =
     (case Semaphore_init v of
        Inl e \<Rightarrow> Inl e
      | Inr s \<Rightarrow> Inr \<lparr>waiters = waiters s, timeouts = timeouts s, sem_value = sem_value s,
                    initial_value = v\<rparr>)"

text \<open>A method that can raise returns the exception or its value, beside the state it
  leaves.\<close>

definition BoundedSemaphore_release ::
  "BoundedSemaphore \<times> release_handle world
     \<Rightarrow> (exn + unit) \<times> BoundedSemaphore \<times> release_handle world" where
  "BoundedSemaphore_release sw =
     (if sem_value (fst sw) \<ge> initial_value (fst sw)
      then (Inl (ValueError ''Semaphore released too many times''), sw)
      else (Inr (), Semaphore_release sw))"

subsection \<open>\<^verbatim>\<open>Lock\<close>\<close>

record Lock =
  block :: BoundedSemaphore

definition Lock_init :: "exn + Lock" where
  "Lock_init =
     (case BoundedSemaphore_init 1 of
        Inl e \<Rightarrow> Inl e
      | Inr b \<Rightarrow> Inr \<lparr>block = b\<rparr>)"

definition Lock_acquire ::
  "timeout option \<Rightarrow> Lock \<times> release_handle world \<Rightarrow> fid \<times> Lock \<times> release_handle world" where
  "Lock_acquire tmo lw =
     (let (self, w) = lw;
          (waiter, b, w1) = Semaphore_acquire tmo (block self, w)
      in (waiter, self\<lparr>block := b\<rparr>, w1))"

definition Lock_release ::
  "Lock \<times> release_handle world \<Rightarrow> (exn + unit) \<times> Lock \<times> release_handle world" where
  "Lock_release lw =
     (let (self, w) = lw in
      case BoundedSemaphore_release (block self, w) of
        (Inl (ValueError msg), b, w1) \<Rightarrow>
          (Inl (RuntimeError ''release unlocked lock''), self\<lparr>block := b\<rparr>, w1)
      | (r, b, w1) \<Rightarrow> (r, self\<lparr>block := b\<rparr>, w1))"

section \<open>queues.py\<close>

subsection \<open>\<^verbatim>\<open>heapq\<close>\<close>

text \<open>
  \<^verbatim>\<open>PriorityQueue\<close> stores its items with \<^verbatim>\<open>heapq.heappush\<close> and \<^verbatim>\<open>heapq.heappop\<close> of
  Python's standard library: a binary min-heap in a list, the children of index \<open>k\<close> at
  \<open>2 * k + 1\<close> and \<open>2 * k + 2\<close>, compared with the items' own \<^verbatim>\<open><\<close>. The functions below
  follow \<^verbatim>\<open>Lib/heapq.py\<close>. Every index read or written is in range: \<^verbatim>\<open>_siftdown\<close> starts
  at the last index and moves to parents, \<^verbatim>\<open>_siftup\<close> reads children below \<^verbatim>\<open>endpos\<close>.
\<close>

function siftdown_loop :: "'a::linorder list \<Rightarrow> 'a \<Rightarrow> nat \<Rightarrow> nat \<Rightarrow> 'a list" where
  "siftdown_loop heap newitem startpos pos =
     (if pos > startpos
      then (let parentpos = (pos - 1) div 2;
                parent = heap ! parentpos
            in if newitem < parent
               then siftdown_loop (heap[pos := parent]) newitem startpos parentpos
               else heap[pos := newitem])
      else heap[pos := newitem])"
  by pat_completeness auto
termination
  by (relation "measure (\<lambda>(heap, newitem, startpos, pos). pos)") auto

declare siftdown_loop.simps [simp del]

definition siftdown :: "'a::linorder list \<Rightarrow> nat \<Rightarrow> nat \<Rightarrow> 'a list" where
  "siftdown heap startpos pos = siftdown_loop heap (heap ! pos) startpos pos"

function siftup_loop :: "'a::linorder list \<Rightarrow> nat \<Rightarrow> nat \<Rightarrow> 'a list \<times> nat" where
  "siftup_loop heap endpos pos =
     (let childpos = 2 * pos + 1 in
      if childpos < endpos
      then (let rightpos = childpos + 1;
                childpos1 = (if rightpos < endpos \<and> \<not> heap ! childpos < heap ! rightpos
                             then rightpos else childpos)
            in siftup_loop (heap[pos := heap ! childpos1]) endpos childpos1)
      else (heap, pos))"
  by pat_completeness auto
termination
  by (relation "measure (\<lambda>(heap, endpos, pos). endpos - pos)") auto

declare siftup_loop.simps [simp del]

definition siftup :: "'a::linorder list \<Rightarrow> nat \<Rightarrow> 'a list" where
  "siftup heap pos =
     (let endpos = length heap;
          startpos = pos;
          newitem = heap ! pos;
          (heap1, pos1) = siftup_loop heap endpos pos
      in siftdown (heap1[pos1 := newitem]) startpos pos1)"

definition heappush :: "'a::linorder list \<Rightarrow> 'a \<Rightarrow> 'a list" where
  "heappush heap item = siftdown (heap @ [item]) 0 (length (heap @ [item]) - 1)"

definition heappop :: "'a::linorder list \<Rightarrow> exn + ('a \<times> 'a list)" where
  "heappop heap =
     (if heap = [] then Inl IndexError
      else (let lastelt = last heap;
                heap1 = butlast heap
            in if heap1 \<noteq> []
               then (let returnitem = heap1 ! 0;
                         heap2 = heap1[0 := lastelt]
                     in Inr (returnitem, siftup heap2 0))
               else Inr (lastelt, heap1)))"

subsection \<open>\<^verbatim>\<open>Queue\<close>, \<^verbatim>\<open>PriorityQueue\<close>, \<^verbatim>\<open>LifoQueue\<close>\<close>

text \<open>The class of the object decides which \<^verbatim>\<open>_init\<close>, \<^verbatim>\<open>_get\<close> and \<^verbatim>\<open>_put\<close> run.\<close>

datatype queue_class = FifoQueue | PriorityQueue | LifoQueue

text \<open>A getter's future resolves to the item (\<open>Some item\<close>); a putter's future and the
  completion event resolve to \<^verbatim>\<open>None\<close>.\<close>

record 'a Queue =
  cls :: queue_class
  maxsize :: int
  queue :: "'a list"
  getters :: "fid list"
  putters :: "('a \<times> fid) list"
  unfinished_tasks :: int
  finished :: Event

text \<open>What \<^verbatim>\<open>put\<close> returns: the shared, resolved \<^verbatim>\<open>gen._null_future\<close>, or the putter's
  own future.\<close>

datatype future_ref = NullFuture | FutureRef fid

definition Queue_init ::
  "queue_class \<Rightarrow> int option \<Rightarrow> 'a option world \<Rightarrow> exn + ('a Queue \<times> 'a option world)" where
  "Queue_init c maxsize_arg w =
     (case maxsize_arg of
        None \<Rightarrow> Inl (TypeError ''maxsize can't be None'')
      | Some m \<Rightarrow>
          if m < 0 then Inl (ValueError ''maxsize can't be negative'')
          else (let (ev, w1) = Event_init w;
                    (ev1, w2) = Event_set (ev, w1)
                in Inr (\<lparr>cls = c, maxsize = m, queue = [], getters = [], putters = [],
                         unfinished_tasks = 0, finished = ev1\<rparr>, w2)))"

definition qsize :: "'a Queue \<Rightarrow> int" where
  "qsize self = int (length (queue self))"

definition empty :: "'a Queue \<Rightarrow> bool" where
  "empty self = (queue self = [])"

definition full :: "'a Queue \<Rightarrow> bool" where
  "full self = (if maxsize self = 0 then False else qsize self \<ge> maxsize self)"

text \<open>\<^verbatim>\<open>_get\<close>: \<^verbatim>\<open>deque.popleft\<close>, \<^verbatim>\<open>heapq.heappop\<close> or \<^verbatim>\<open>list.pop\<close>; each raises
  \<^verbatim>\<open>IndexError\<close> on empty storage.\<close>

definition get_item :: "'a::linorder Queue \<Rightarrow> exn + ('a \<times> 'a Queue)" where
  "get_item self =
     (case cls self of
        FifoQueue \<Rightarrow>
          (case queue self of
             [] \<Rightarrow> Inl IndexError
           | x # rest \<Rightarrow> Inr (x, self\<lparr>queue := rest\<rparr>))
      | PriorityQueue \<Rightarrow>
          (case heappop (queue self) of
             Inl e \<Rightarrow> Inl e
           | Inr (x, heap) \<Rightarrow> Inr (x, self\<lparr>queue := heap\<rparr>))
      | LifoQueue \<Rightarrow>
          (if queue self = [] then Inl IndexError
           else Inr (last (queue self), self\<lparr>queue := butlast (queue self)\<rparr>)))"

text \<open>\<^verbatim>\<open>_put\<close>: \<^verbatim>\<open>deque.append\<close>, \<^verbatim>\<open>heapq.heappush\<close> or \<^verbatim>\<open>list.append\<close>.\<close>

definition put_item :: "'a \<Rightarrow> 'a::linorder Queue \<Rightarrow> 'a Queue" where
  "put_item item self =
     (case cls self of
        FifoQueue \<Rightarrow> self\<lparr>queue := queue self @ [item]\<rparr>
      | PriorityQueue \<Rightarrow> self\<lparr>queue := heappush (queue self) item\<rparr>
      | LifoQueue \<Rightarrow> self\<lparr>queue := queue self @ [item]\<rparr>)"

text \<open>\<^verbatim>\<open>__put_internal\<close>.\<close>

definition put_internal ::
  "'a \<Rightarrow> 'a::linorder Queue \<times> 'a option world \<Rightarrow> 'a Queue \<times> 'a option world" where
  "put_internal item qw =
     (let (self, w) = qw;
          self1 = self\<lparr>unfinished_tasks := unfinished_tasks self + 1\<rparr>;
          (ev, w1) = Event_clear (finished self1, w);
          self2 = self1\<lparr>finished := ev\<rparr>
      in (put_item item self2, w1))"

definition consume_expired :: "'a Queue \<times> 'a option world \<Rightarrow> 'a Queue \<times> 'a option world" where
  "consume_expired qw =
     (let (self, w) = qw;
          self1 = self\<lparr>putters := dropWhile (\<lambda>p. future_done w (snd p)) (putters self)\<rparr>;
          self2 = self1\<lparr>getters := dropWhile (\<lambda>g. future_done w g) (getters self1)\<rparr>
      in (self2, w))"

definition put_nowait ::
  "'a \<Rightarrow> 'a::linorder Queue \<times> 'a option world \<Rightarrow> (exn + unit) \<times> 'a Queue \<times> 'a option world" where
  "put_nowait item qw =
     (let (self, w) = consume_expired qw in
      case getters self of
        getter # rest \<Rightarrow>
          if \<not> empty self
          then (Inl (AssertionError ''queue non-empty, why are getters waiting?''), self, w)
          else (let self1 = self\<lparr>getters := rest\<rparr>;
                    (self2, w2) = put_internal item (self1, w)
                in case get_item self2 of
                     Inl e \<Rightarrow> (Inl e, self2, w2)
                   | Inr (x, self3) \<Rightarrow> (Inr (), self3, set_result getter (Some x) w2))
      | [] \<Rightarrow>
          if full self then (Inl QueueFull, self, w)
          else (let (self1, w1) = put_internal item (self, w) in (Inr (), self1, w1)))"

text \<open>\<^verbatim>\<open>_set_timeout\<close> and its closure \<^verbatim>\<open>on_timeout\<close>.\<close>

definition set_timeout :: "fid \<Rightarrow> timeout option \<Rightarrow> 'v world \<Rightarrow> 'v world" where
  "set_timeout future tmo w =
     (case tmo of
        Some t \<Rightarrow>
          if truthy tmo
          then (let (timeout_handle, w1) = add_timeout t (QueueOnTimeout future) w
                in add_done_callback future (RemoveTimeout timeout_handle) w1)
          else w
      | None \<Rightarrow> w)"

definition Queue_on_timeout :: "fid \<Rightarrow> 'v world \<Rightarrow> 'v world" where
  "Queue_on_timeout future w = set_exception future TimeoutError w"

definition put ::
  "'a \<Rightarrow> timeout option \<Rightarrow> 'a::linorder Queue \<times> 'a option world
     \<Rightarrow> (exn + future_ref) \<times> 'a Queue \<times> 'a option world" where
  "put item tmo qw =
     (case put_nowait item qw of
        (Inl QueueFull, self, w) \<Rightarrow>
          (let (future, w1) = Future w;
               self1 = self\<lparr>putters := putters self @ [(item, future)]\<rparr>;
               w2 = set_timeout future tmo w1
           in (Inr (FutureRef future), self1, w2))
      | (Inl e, self, w) \<Rightarrow> (Inl e, self, w)
      | (Inr u, self, w) \<Rightarrow> (Inr NullFuture, self, w))"

definition get_nowait ::
  "'a::linorder Queue \<times> 'a option world \<Rightarrow> (exn + 'a) \<times> 'a Queue \<times> 'a option world" where
  "get_nowait qw =
     (let (self, w) = consume_expired qw in
      case putters self of
        (item, putter) # rest \<Rightarrow>
          if \<not> full self
          then (Inl (AssertionError ''queue not full, why are putters waiting?''), self, w)
          else (let self1 = self\<lparr>putters := rest\<rparr>;
                    (self2, w2) = put_internal item (self1, w);
                    w3 = set_result putter None w2
                in case get_item self2 of
                     Inl e \<Rightarrow> (Inl e, self2, w3)
                   | Inr (x, self3) \<Rightarrow> (Inr x, self3, w3))
      | [] \<Rightarrow>
          if qsize self \<noteq> 0
          then (case get_item self of
                  Inl e \<Rightarrow> (Inl e, self, w)
                | Inr (x, self1) \<Rightarrow> (Inr x, self1, w))
          else (Inl QueueEmpty, self, w))"

definition get ::
  "timeout option \<Rightarrow> 'a::linorder Queue \<times> 'a option world
     \<Rightarrow> (exn + fid) \<times> 'a Queue \<times> 'a option world" where
  "get tmo qw =
     (let (future, w0) = Future (snd qw) in
      case get_nowait (fst qw, w0) of
        (Inl QueueEmpty, self, w) \<Rightarrow>
          (let self1 = self\<lparr>getters := getters self @ [future]\<rparr>;
               w1 = set_timeout future tmo w
           in (Inr future, self1, w1))
      | (Inl e, self, w) \<Rightarrow> (Inl e, self, w)
      | (Inr x, self, w) \<Rightarrow> (Inr future, self, set_result future (Some x) w))"

definition task_done ::
  "'a Queue \<times> 'a option world \<Rightarrow> (exn + unit) \<times> 'a Queue \<times> 'a option world" where
  "task_done qw =
     (let (self, w) = qw in
      if unfinished_tasks self \<le> 0
      then (Inl (ValueError ''task_done() called too many times''), self, w)
      else (let self1 = self\<lparr>unfinished_tasks := unfinished_tasks self - 1\<rparr> in
            if unfinished_tasks self1 = 0
            then (let (ev, w1) = Event_set (finished self1, w)
                  in (Inr (), self1\<lparr>finished := ev\<rparr>, w1))
            else (Inr (), self1, w)))"

definition join :: "timeout option \<Rightarrow> 'a Queue \<times> 'a option world \<Rightarrow> fid \<times> 'a option world" where
  "join tmo qw = Event_wait tmo (finished (fst qw), snd qw)"

text \<open>The timer service firing the timeout with handle \<open>h\<close> in a store that holds a queue.\<close>

definition Queue_fire :: "nat \<Rightarrow> 'v world \<Rightarrow> 'v world" where
  "Queue_fire h w =
     (case pop_timeout h w of
        Some (QueueOnTimeout future, w1) \<Rightarrow> Queue_on_timeout future w1
      | Some (WithTimeoutCallback result, w1) \<Rightarrow> with_timeout_callback result w1
      | _ \<Rightarrow> w)"

section \<open>Sequences of calls\<close>

text \<open>
  A primitive is used by a sequence of calls of its methods, interleaved with the timer
  service firing timeouts that are due. A call that raises leaves the state it had reached
  and the caller goes on.
\<close>

datatype cond_op = Wait "timeout option" | Notify int | NotifyAll | ConditionTimeout nat

fun Condition_step :: "Condition \<times> bool world \<Rightarrow> cond_op \<Rightarrow> Condition \<times> bool world" where
  "Condition_step cw (Wait tmo) = snd (Condition_wait tmo cw)"
| "Condition_step cw (Notify n) = Condition_notify n cw"
| "Condition_step cw NotifyAll = Condition_notify_all cw"
| "Condition_step cw (ConditionTimeout h) = Condition_fire h cw"

definition Condition_run :: "cond_op list \<Rightarrow> Condition \<times> bool world \<Rightarrow> Condition \<times> bool world" where
  "Condition_run ops cw = foldl Condition_step cw ops"

datatype sem_op = Acquire "timeout option" | Release | SemaphoreTimeout nat

fun Semaphore_step ::
  "'z Semaphore_scheme \<times> release_handle world \<Rightarrow> sem_op
     \<Rightarrow> 'z Semaphore_scheme \<times> release_handle world" where
  "Semaphore_step sw (Acquire tmo) = snd (Semaphore_acquire tmo sw)"
| "Semaphore_step sw Release = Semaphore_release sw"
| "Semaphore_step sw (SemaphoreTimeout h) = Semaphore_fire h sw"

definition Semaphore_run ::
  "sem_op list \<Rightarrow> 'z Semaphore_scheme \<times> release_handle world
     \<Rightarrow> 'z Semaphore_scheme \<times> release_handle world" where
  "Semaphore_run ops sw = foldl Semaphore_step sw ops"

fun BoundedSemaphore_step ::
  "BoundedSemaphore \<times> release_handle world \<Rightarrow> sem_op
     \<Rightarrow> BoundedSemaphore \<times> release_handle world" where
  "BoundedSemaphore_step sw (Acquire tmo) = snd (Semaphore_acquire tmo sw)"
| "BoundedSemaphore_step sw Release = snd (BoundedSemaphore_release sw)"
| "BoundedSemaphore_step sw (SemaphoreTimeout h) = Semaphore_fire h sw"

definition BoundedSemaphore_run ::
  "sem_op list \<Rightarrow> BoundedSemaphore \<times> release_handle world
     \<Rightarrow> BoundedSemaphore \<times> release_handle world" where
  "BoundedSemaphore_run ops sw = foldl BoundedSemaphore_step sw ops"

fun Lock_step :: "Lock \<times> release_handle world \<Rightarrow> sem_op \<Rightarrow> Lock \<times> release_handle world" where
  "Lock_step lw (Acquire tmo) = snd (Lock_acquire tmo lw)"
| "Lock_step lw Release = snd (Lock_release lw)"
| "Lock_step lw (SemaphoreTimeout h) =
     (let (b, w) = Semaphore_fire h (block (fst lw), snd lw) in ((fst lw)\<lparr>block := b\<rparr>, w))"

definition Lock_run :: "sem_op list \<Rightarrow> Lock \<times> release_handle world \<Rightarrow> Lock \<times> release_handle world" where
  "Lock_run ops lw = foldl Lock_step lw ops"

text \<open>A run of \<^verbatim>\<open>acquire\<close> calls, one per timeout argument, and the futures they return.\<close>

fun acquire_all ::
  "timeout option list \<Rightarrow> 'z Semaphore_scheme \<times> release_handle world
     \<Rightarrow> fid list \<times> 'z Semaphore_scheme \<times> release_handle world" where
  "acquire_all [] sw = ([], sw)"
| "acquire_all (tmo # tmos) sw =
     (let (waiter, sw1) = Semaphore_acquire tmo sw;
          (rest, sw2) = acquire_all tmos sw1
      in (waiter # rest, sw2))"

datatype 'a queue_op =
    Put 'a "timeout option"
  | PutNowait 'a
  | Get "timeout option"
  | GetNowait
  | TaskDone
  | Join "timeout option"
  | QueueTimeout nat

fun Queue_step ::
  "'a::linorder Queue \<times> 'a option world \<Rightarrow> 'a queue_op \<Rightarrow> 'a Queue \<times> 'a option world" where
  "Queue_step qw (Put item tmo) = snd (put item tmo qw)"
| "Queue_step qw (PutNowait item) = snd (put_nowait item qw)"
| "Queue_step qw (Get tmo) = snd (get tmo qw)"
| "Queue_step qw GetNowait = snd (get_nowait qw)"
| "Queue_step qw TaskDone = snd (task_done qw)"
| "Queue_step qw (Join tmo) = (fst qw, snd (join tmo qw))"
| "Queue_step qw (QueueTimeout h) = (fst qw, Queue_fire h (snd qw))"

definition Queue_run ::
  "'a queue_op list \<Rightarrow> 'a::linorder Queue \<times> 'a option world \<Rightarrow> 'a Queue \<times> 'a option world" where
  "Queue_run ops qw = foldl Queue_step qw ops"

section \<open>Well-formed states\<close>

text \<open>The completion callbacks that \<^verbatim>\<open>locks.py\<close> and \<^verbatim>\<open>queues.py\<close> register themselves
  cancel a timeout.\<close>

fun removes_timeout :: "callback \<Rightarrow> bool" where
  "removes_timeout (RemoveTimeout h) = True"
| "removes_timeout (ChainFuture r) = False"

text \<open>A waiter of a queue is a future of the store, is not the future of the completion
  event, and carries only callbacks that cancel its own timeout.\<close>

definition waiter_ok :: "'v world \<Rightarrow> fid \<Rightarrow> fid \<Rightarrow> bool" where
  "waiter_ok w ev f =
     (f < length (futures w) \<and> f \<noteq> ev \<and> list_all removes_timeout (callbacks (futures w ! f)))"

text \<open>The waiter a timeout closure closes over.\<close>

fun waiter_of :: "on_timeout \<Rightarrow> fid" where
  "waiter_of (ConditionOnTimeout f) = f"
| "waiter_of (SemaphoreOnTimeout f) = f"
| "waiter_of (QueueOnTimeout f) = f"
| "waiter_of (WithTimeoutCallback f) = f"

text \<open>A condition or semaphore and its store fit together: the waiters in the deque are
  different futures of the store, every timeout scheduled closes over a future of the
  store, and the futures carry only callbacks that cancel a timeout.\<close>

definition cbs_ok :: "'v world \<Rightarrow> bool" where
  "cbs_ok w = list_all (\<lambda>fu. list_all removes_timeout (callbacks fu)) (futures w)"

definition scheduled_ok :: "'v world \<Rightarrow> bool" where
  "scheduled_ok w = list_all (\<lambda>e. waiter_of (snd (snd e)) < length (futures w)) (scheduled w)"

definition locks_wf :: "'z TimeoutGarbageCollector_scheme \<times> 'v world \<Rightarrow> bool" where
  "locks_wf sw =
     (distinct (waiters (fst sw))
      \<and> list_all (\<lambda>f. f < length (futures (snd sw))) (waiters (fst sw))
      \<and> scheduled_ok (snd sw)
      \<and> cbs_ok (snd sw))"

text \<open>No scheduled timeout closes over the future \<open>f\<close>.\<close>

definition untimed :: "'v world \<Rightarrow> fid \<Rightarrow> bool" where
  "untimed w f = list_all (\<lambda>e. waiter_of (snd (snd e)) \<noteq> f) (scheduled w)"

text \<open>A store that holds a queue: every scheduled timeout closes over a future of the
  store, and that future carries only callbacks that cancel a timeout (the chained copies
  of \<^verbatim>\<open>gen.with_timeout\<close> hang on the future of the completion event, which no timeout
  closes over).\<close>

definition timeouts_ok :: "'v world \<Rightarrow> bool" where
  "timeouts_ok w =
     (scheduled_ok w
      \<and> list_all (\<lambda>e. list_all removes_timeout (callbacks (futures w ! waiter_of (snd (snd e)))))
           (scheduled w))"

text \<open>A waiter of a semaphore or a queue that no timeout closes over and that has not
  failed with \<^verbatim>\<open>TimeoutError\<close>:\<close>

definition never_timed_out :: "'v world \<Rightarrow> fid \<Rightarrow> bool" where
  "never_timed_out w f =
     (f < length (futures w) \<and> untimed w f \<and> fstate_of w f \<noteq> Failed TimeoutError)"

text \<open>The future of the completion event of a queue is such a future.\<close>

definition queue_wf :: "'a Queue \<times> 'v world \<Rightarrow> bool" where
  "queue_wf qw = (timeouts_ok (snd qw) \<and> never_timed_out (snd qw) (ev_future (finished (fst qw))))"

text \<open>What every call on a queue does to the store: the store stays well-formed, no future
  is dropped, and a future that no timeout closes over stays so and does not time out.\<close>

definition evolves :: "'v world \<Rightarrow> 'v world \<Rightarrow> bool" where
  "evolves w w1 =
     (timeouts_ok w1 \<and> length (futures w) \<le> length (futures w1)
      \<and> (\<forall>f. never_timed_out w f \<longrightarrow> never_timed_out w1 f))"

text \<open>A waiter of a condition is resolved with \<^verbatim>\<open>True\<close> by \<^verbatim>\<open>notify\<close> and with
  \<^verbatim>\<open>False\<close> by its timeout. A waiter that no timeout closes over and that is pending or
  resolved with \<^verbatim>\<open>True\<close>:\<close>

definition notified_only :: "bool world \<Rightarrow> fid \<Rightarrow> bool" where
  "notified_only w f =
     (f < length (futures w) \<and> untimed w f
      \<and> (fstate_of w f = Pending \<or> fstate_of w f = Resolved True))"

text \<open>A queue and its store fit together: the task counter is not negative, the future of
  the completion event is a future of the store, and the getters and putters are waiters
  in the sense above.\<close>

definition waiters_ok :: "'v world \<Rightarrow> fid \<Rightarrow> fid list \<Rightarrow> bool" where
  "waiters_ok w ev ws = (ev < length (futures w) \<and> list_all (waiter_ok w ev) ws)"

definition queue_state_ok :: "'a Queue \<times> 'v world \<Rightarrow> bool" where
  "queue_state_ok qw =
     (0 \<le> unfinished_tasks (fst qw)
      \<and> waiters_ok (snd qw) (ev_future (finished (fst qw)))
            (getters (fst qw) @ map snd (putters (fst qw))))"

section \<open>Properties\<close>

subsection \<open>The waiter garbage collector\<close>

lemma garbage_collect_step:
  "garbage_collect w self =
     (if timeouts self \<ge> 100
      then self\<lparr>timeouts := 0, waiters := filter (\<lambda>f. \<not> future_done w f) (waiters self)\<rparr>
      else self\<lparr>timeouts := timeouts self + 1\<rparr>)"
  by (simp add: garbage_collect_def Let_def)

lemma garbage_collect_timeouts_funpow:
  "timeouts ((garbage_collect w ^^ n) (self\<lparr>timeouts := 0\<rparr>)) = int (n mod 101)"
proof (induction n)
  case 0
  show ?case by simp
next
  case (Suc n)
  have "n mod 101 < 101" by simp
  show ?case
  proof (cases "n mod 101 = 100")
    case True
    then have "Suc n mod 101 = 0" by (simp add: mod_Suc)
    with True Suc show ?thesis by (simp add: garbage_collect_step)
  next
    case False
    then have "Suc n mod 101 = Suc (n mod 101)" by (simp add: mod_Suc)
    moreover have "n mod 101 < 100" using False \<open>n mod 101 < 101\<close> by linarith
    ultimately show ?thesis using Suc by (simp add: garbage_collect_step)
  qed
qed

text \<open>
  Claim C3, as the code has it. \<^verbatim>\<open>_garbage_collect\<close> counts its calls in \<^verbatim>\<open>_timeouts\<close>. A
  call that finds the counter at 100 or more (its own increment makes it exceed 100) rebuilds
  the waiter list, keeping the waiters that are not yet resolved, and resets the counter to
  0; every other call only adds one to the counter and leaves the list as it is. Counted
  from a counter of 0, the counter after \<open>n\<close> calls is \<open>n mod 101\<close>, and call number
  \<open>n + 1\<close> rebuilds the list exactly when \<open>n mod 101 = 100\<close>: every 101st call.
\<close>

theorem garbage_collect_every_101st:
  "garbage_collect w self =
     (if timeouts self \<ge> 100
      then self\<lparr>timeouts := 0, waiters := filter (\<lambda>f. \<not> future_done w f) (waiters self)\<rparr>
      else self\<lparr>timeouts := timeouts self + 1\<rparr>)
   \<and> timeouts ((garbage_collect w ^^ n) (self\<lparr>timeouts := 0\<rparr>)) = int (n mod 101)
   \<and> waiters ((garbage_collect w ^^ Suc n) (self\<lparr>timeouts := 0\<rparr>)) =
       (if n mod 101 = 100
        then filter (\<lambda>f. \<not> future_done w f) (waiters ((garbage_collect w ^^ n) (self\<lparr>timeouts := 0\<rparr>)))
        else waiters ((garbage_collect w ^^ n) (self\<lparr>timeouts := 0\<rparr>)))"
proof -
  have t: "timeouts ((garbage_collect w ^^ n) (self\<lparr>timeouts := 0\<rparr>)) = int (n mod 101)"
    by (rule garbage_collect_timeouts_funpow)
  have "n mod 101 < 101" by simp
  then have "(int (n mod 101) \<ge> 100) = (n mod 101 = 100)" by linarith
  then show ?thesis using t
    by (simp add: garbage_collect_step)
qed

lemma garbage_collect_funpow_small:
  "n \<le> 100 \<Longrightarrow> (garbage_collect w ^^ n) (self\<lparr>timeouts := 0\<rparr>) = self\<lparr>timeouts := int n\<rparr>"
proof (induction n)
  case 0 show ?case by simp
next
  case (Suc n)
  then show ?case by (simp add: garbage_collect_step)
qed

text \<open>
  Claim C3 as stated ("on every 100th trigger") fails: with one resolved waiter in the list
  and the counter at 0, the list still holds that waiter after the 100th call; the 101st
  call removes it.
\<close>

theorem garbage_collect_100th_counterexample:
  "waiters ((garbage_collect \<lparr>futures = [\<lparr>fstate = Resolved False, callbacks = []\<rparr>], scheduled = [], next_handle = 1\<rparr> ^^ 100)
      \<lparr>waiters = [0], timeouts = 0\<rparr>) = [0]
   \<and> future_done \<lparr>futures = [\<lparr>fstate = Resolved False, callbacks = []\<rparr>], scheduled = [], next_handle = 1\<rparr> 0
   \<and> waiters ((garbage_collect \<lparr>futures = [\<lparr>fstate = Resolved False, callbacks = []\<rparr>], scheduled = [], next_handle = 1\<rparr> ^^ 101)
      \<lparr>waiters = [0], timeouts = 0\<rparr>) = []"
proof -
  let ?w = "\<lparr>futures = [\<lparr>fstate = Resolved False, callbacks = []\<rparr>], scheduled = [], next_handle = 1\<rparr> :: bool world"
  let ?c = "\<lparr>waiters = [0], timeouts = 0\<rparr>"
  have a: "(garbage_collect ?w ^^ 100) ?c = ?c\<lparr>timeouts := 100\<rparr>"
    using garbage_collect_funpow_small [of 100 ?w ?c] by simp
  have d: "future_done ?w 0" by (simp add: future_done_def fstate_of_def)
  have "(101::nat) = Suc 100" by simp
  then have "(garbage_collect ?w ^^ 101) ?c = garbage_collect ?w ((garbage_collect ?w ^^ 100) ?c)"
    by (simp only: funpow.simps o_apply)
  then have b: "waiters ((garbage_collect ?w ^^ 101) ?c) = []"
    using a d by (simp add: garbage_collect_step)
  show ?thesis using a b d by simp
qed

subsection \<open>The queue: helper facts\<close>

lemma put_nowait_cases:
  "put_nowait item (self, w) =
     (let self1 = fst (consume_expired (self, w)) in
      case getters self1 of
        getter # rest \<Rightarrow>
          if \<not> empty self1
          then (Inl (AssertionError ''queue non-empty, why are getters waiting?''), self1, w)
          else (let self2 = self1\<lparr>getters := rest\<rparr>;
                    (self3, w2) = put_internal item (self2, w)
                in case get_item self3 of
                     Inl e \<Rightarrow> (Inl e, self3, w2)
                   | Inr (x, self4) \<Rightarrow> (Inr (), self4, set_result getter (Some x) w2))
      | [] \<Rightarrow>
          if full self1 then (Inl QueueFull, self1, w)
          else (let (self2, w1) = put_internal item (self1, w) in (Inr (), self2, w1)))"
  by (simp add: put_nowait_def consume_expired_def Let_def)

lemma siftdown_loop_length: "length (siftdown_loop heap newitem startpos pos) = length heap"
  by (induction heap newitem startpos pos rule: siftdown_loop.induct)
     (subst siftdown_loop.simps, simp add: Let_def)

lemma heappush_length: "length (heappush heap item) = Suc (length heap)"
  by (simp add: heappush_def siftdown_def siftdown_loop_length del: siftdown_loop.simps)

lemma put_item_nonempty: "queue (put_item item self) \<noteq> []"
proof (cases "cls self")
  case PriorityQueue
  have "length (heappush (queue self) item) \<noteq> 0" by (simp add: heappush_length)
  then show ?thesis using PriorityQueue by (simp add: put_item_def)
qed (simp_all add: put_item_def)

lemma put_internal_queue_nonempty: "queue (fst (put_internal item (self, w))) \<noteq> []"
  by (simp add: put_internal_def Let_def split: prod.splits) (simp add: put_item_nonempty)

lemma get_item_nonempty: "queue self \<noteq> [] \<Longrightarrow> \<exists>x self1. get_item self = Inr (x, self1)"
  by (cases "cls self") (auto simp: get_item_def heappop_def Let_def split: list.splits)

text \<open>
  Claim C9. A queue whose \<^verbatim>\<open>maxsize\<close> is 0 never raises \<^verbatim>\<open>QueueFull\<close> from
  \<^verbatim>\<open>put_nowait\<close>, whatever its state, the store and the item.
\<close>

theorem put_nowait_unbounded_never_full:
  "maxsize self = 0 \<Longrightarrow> fst (put_nowait item (self, w)) \<noteq> Inl QueueFull"
proof -
  assume m: "maxsize self = 0"
  define self1 where "self1 = fst (consume_expired (self, w))"
  have m1: "maxsize self1 = 0" using m by (simp add: self1_def consume_expired_def Let_def)
  then have nf: "\<not> full self1" by (simp add: full_def)
  show ?thesis
  proof (cases "getters self1")
    case Nil
    then show ?thesis using nf
      by (simp add: put_nowait_cases Let_def self1_def [symmetric] split: prod.splits)
  next
    case (Cons getter rest)
    obtain self3 w2 where pi: "put_internal item (self1\<lparr>getters := rest\<rparr>, w) = (self3, w2)"
      by (cases "put_internal item (self1\<lparr>getters := rest\<rparr>, w)")
    have "queue self3 \<noteq> []" using put_internal_queue_nonempty [of item "self1\<lparr>getters := rest\<rparr>" w] pi by simp
    then obtain x self4 where "get_item self3 = Inr (x, self4)" using get_item_nonempty by blast
    then show ?thesis using Cons pi
      by (simp add: put_nowait_cases Let_def self1_def [symmetric])
  qed
qed


theorem put_nowait_unbounded_never_full_witness:
  "maxsize \<lparr>cls = FifoQueue, maxsize = 0, queue = [1, 2], getters = [], putters = [],
            unfinished_tasks = 2, finished = \<lparr>ev_future = 0\<rparr>\<rparr> = 0
   \<and> fst (put_nowait (3::int)
         (\<lparr>cls = FifoQueue, maxsize = 0, queue = [1, 2], getters = [], putters = [],
            unfinished_tasks = 2, finished = \<lparr>ev_future = 0\<rparr>\<rparr>,
          \<lparr>futures = [\<lparr>fstate = Pending, callbacks = []\<rparr>], scheduled = [], next_handle = 0\<rparr>))
       \<noteq> Inl QueueFull"
  using put_nowait_unbounded_never_full
    [of "\<lparr>cls = FifoQueue, maxsize = 0, queue = [1, 2], getters = [], putters = [],
            unfinished_tasks = 2, finished = \<lparr>ev_future = 0\<rparr>\<rparr>" "3::int"
        "\<lparr>futures = [\<lparr>fstate = Pending, callbacks = []\<rparr>], scheduled = [], next_handle = 0\<rparr>"]
  by simp

subsection \<open>Over-release\<close>

lemma Lock_init_eq:
  "Lock_init = Inr \<lparr>block = \<lparr>waiters = [], timeouts = 0, sem_value = 1, initial_value = 1\<rparr>\<rparr>"
  by (simp add: Lock_init_def BoundedSemaphore_init_def Semaphore_init_def)

lemma Lock_release_unlocked:
  "sem_value (block l) \<ge> initial_value (block l) \<Longrightarrow>
     Lock_release (l, w) = (Inl (RuntimeError ''release unlocked lock''), l, w)"
  by (simp add: Lock_release_def BoundedSemaphore_release_def)

lemma Lock_release_locked:
  "sem_value (block l) < initial_value (block l) \<Longrightarrow> fst (Lock_release (l, w)) = Inr ()"
  by (simp add: Lock_release_def BoundedSemaphore_release_def split: prod.splits)

text \<open>
  Claim C7. \<^verbatim>\<open>BoundedSemaphore.release\<close> raises \<^verbatim>\<open>ValueError("Semaphore released too many
  times")\<close> exactly when \<^verbatim>\<open>_value >= _initial_value\<close> on entry, and then leaves the
  semaphore and the store as they were; otherwise it is \<^verbatim>\<open>Semaphore.release\<close>.
  \<^verbatim>\<open>Lock.release\<close> raises \<^verbatim>\<open>RuntimeError("release unlocked lock")\<close> in exactly that case,
  leaving the lock as it was. So releasing a lock that was never acquired fails with that
  error, and so does a second release after an acquire and a release.
\<close>

theorem release_too_many_times:
  "(fst (BoundedSemaphore_release (s, w)) = Inl (ValueError ''Semaphore released too many times''))
     = (sem_value s \<ge> initial_value s)
   \<and> BoundedSemaphore_release (s, w) =
       (if sem_value s \<ge> initial_value s
        then (Inl (ValueError ''Semaphore released too many times''), s, w)
        else (Inr (), Semaphore_release (s, w)))
   \<and> (fst (Lock_release (l, w)) = Inl (RuntimeError ''release unlocked lock''))
     = (sem_value (block l) \<ge> initial_value (block l))
   \<and> (if sem_value (block l) \<ge> initial_value (block l)
      then Lock_release (l, w) = (Inl (RuntimeError ''release unlocked lock''), l, w)
      else Lock_release (l, w) =
             (Inr (), l\<lparr>block := fst (Semaphore_release (block l, w))\<rparr>,
              snd (Semaphore_release (block l, w))))
   \<and> (case Lock_init of
        Inl e \<Rightarrow> False
      | Inr l0 \<Rightarrow>
          Lock_release (l0, w) = (Inl (RuntimeError ''release unlocked lock''), l0, w)
          \<and> (let (waiter, l1, w1) = Lock_acquire tmo (l0, w);
                  (r, l2, w2) = Lock_release (l1, w1)
              in r = Inr () \<and>
                 Lock_release (l2, w2) = (Inl (RuntimeError ''release unlocked lock''), l2, w2)))"
proof -
  have a: "(fst (BoundedSemaphore_release (s, w)) = Inl (ValueError ''Semaphore released too many times''))
     = (sem_value s \<ge> initial_value s)"
    by (simp add: BoundedSemaphore_release_def)
  have b: "BoundedSemaphore_release (s, w) =
       (if sem_value s \<ge> initial_value s
        then (Inl (ValueError ''Semaphore released too many times''), s, w)
        else (Inr (), Semaphore_release (s, w)))"
    by (simp add: BoundedSemaphore_release_def)
  have c: "(fst (Lock_release (l, w)) = Inl (RuntimeError ''release unlocked lock''))
     = (sem_value (block l) \<ge> initial_value (block l))"
    using Lock_release_unlocked [of l w] Lock_release_locked [of l w]
    by (cases "sem_value (block l) \<ge> initial_value (block l)") auto
  have d: "(if sem_value (block l) \<ge> initial_value (block l)
      then Lock_release (l, w) = (Inl (RuntimeError ''release unlocked lock''), l, w)
      else Lock_release (l, w) =
             (Inr (), l\<lparr>block := fst (Semaphore_release (block l, w))\<rparr>,
              snd (Semaphore_release (block l, w))))"
    by (simp add: Lock_release_def BoundedSemaphore_release_def split: prod.splits)
  let ?l0 = "\<lparr>block = \<lparr>waiters = [], timeouts = 0, sem_value = 1, initial_value = 1\<rparr>\<rparr>"
  have e1: "Lock_release (?l0, w) = (Inl (RuntimeError ''release unlocked lock''), ?l0, w)"
    by (rule Lock_release_unlocked) simp
  obtain waiter l1 w1 where acq: "Lock_acquire tmo (?l0, w) = (waiter, l1, w1)"
    by (cases "Lock_acquire tmo (?l0, w)")
  then have l1: "l1 = \<lparr>block = \<lparr>waiters = [], timeouts = 0, sem_value = 0, initial_value = 1\<rparr>\<rparr>"
    by (auto simp: Lock_acquire_def Semaphore_acquire_def Future_def Let_def split: prod.splits)
  obtain r l2 w2 where rel: "Lock_release (l1, w1) = (r, l2, w2)"
    by (cases "Lock_release (l1, w1)")
  then have r: "r = Inr ()" and l2: "l2 = ?l0"
    using l1 by (auto simp: Lock_release_def BoundedSemaphore_release_def Semaphore_release_def Let_def)
  have e2: "Lock_release (l2, w2) = (Inl (RuntimeError ''release unlocked lock''), l2, w2)"
    unfolding l2 by (rule Lock_release_unlocked) simp
  have e: "(case Lock_init of
        Inl e \<Rightarrow> False
      | Inr l0 \<Rightarrow>
          Lock_release (l0, w) = (Inl (RuntimeError ''release unlocked lock''), l0, w)
          \<and> (let (waiter, l1, w1) = Lock_acquire tmo (l0, w);
                  (r, l2, w2) = Lock_release (l1, w1)
              in r = Inr () \<and>
                 Lock_release (l2, w2) = (Inl (RuntimeError ''release unlocked lock''), l2, w2)))"
    using e1 acq rel r e2 by (simp add: Lock_init_eq)
  show ?thesis using a b c d e by blast
qed

subsection \<open>The store: helper facts\<close>

lemma Future_fresh:
  "Future w = (f, w1) \<Longrightarrow>
     f = length (futures w) \<and> futures w1 = futures w @ [\<lparr>fstate = Pending, callbacks = []\<rparr>]
     \<and> scheduled w1 = scheduled w \<and> next_handle w1 = next_handle w"
  by (auto simp: Future_def)

lemma Future_fstate_of:
  "Future w = (f, w1) \<Longrightarrow>
     fstate_of w1 g = (if g < length (futures w) then fstate_of w g
                       else if g = f then Pending else fstate_of w1 g)"
  by (auto simp: Future_def fstate_of_def nth_append)

lemma foldl_remove_futures:
  "list_all removes_timeout cbs \<Longrightarrow> futures (foldl (run_callback out) w cbs) = futures w"
proof (induction cbs arbitrary: w)
  case Nil
  show ?case by simp
next
  case (Cons cb cbs)
  then obtain h where "cb = RemoveTimeout h" by (cases cb) auto
  with Cons show ?case by (simp add: remove_timeout_def)
qed

lemma set_outcome_futures:
  assumes "f < length (futures w)" and "list_all removes_timeout (callbacks (futures w ! f))"
  shows "futures (set_outcome f out w) =
           (if future_done w f then futures w
            else (futures w)[f := \<lparr>fstate = out, callbacks = []\<rparr>])"
  using assms by (simp add: set_outcome_def foldl_remove_futures)

lemma set_outcome_fstate_of:
  assumes "f < length (futures w)" and "list_all removes_timeout (callbacks (futures w ! f))"
  shows "fstate_of (set_outcome f out w) g =
           (if g = f \<and> fstate_of w f = Pending then out else fstate_of w g)"
  using assms
  by (auto simp: fstate_of_def set_outcome_futures future_done_def nth_list_update)

lemma run_callback_length:
  "length (futures (run_callback out w cb)) = length (futures w)"
  by (cases cb) (simp_all add: remove_timeout_def)

lemma foldl_run_callback_length:
  "length (futures (foldl (run_callback out) w cbs)) = length (futures w)"
  by (induction cbs arbitrary: w) (simp_all add: run_callback_length)

lemma run_callback_done_mono:
  "out \<noteq> Pending \<Longrightarrow> future_done w g \<Longrightarrow> future_done (run_callback out w cb) g"
proof -
  assume o: "out \<noteq> Pending" and d: "future_done w g"
  show ?thesis
  proof (cases cb)
    case (RemoveTimeout h)
    then show ?thesis using d
      by (simp add: remove_timeout_def future_done_def fstate_of_def)
  next
    case (ChainFuture r)
    show ?thesis
    proof (cases "r = g")
      case True
      then show ?thesis using ChainFuture d by (simp add: future_done_def)
    next
      case False
      then show ?thesis using ChainFuture d o
        by (simp add: future_done_def fstate_of_def)
    qed
  qed
qed

lemma foldl_run_callback_done_mono:
  "out \<noteq> Pending \<Longrightarrow> future_done w g \<Longrightarrow> future_done (foldl (run_callback out) w cbs) g"
  by (induction cbs arbitrary: w) (simp_all add: run_callback_done_mono)

lemma set_outcome_length:
  "length (futures (set_outcome f out w)) = length (futures w)"
  by (simp add: set_outcome_def foldl_run_callback_length)

lemma set_outcome_done:
  assumes "f < length (futures w)" and "out \<noteq> Pending"
  shows "future_done (set_outcome f out w) f"
proof (cases "future_done w f")
  case True
  then show ?thesis by (simp add: set_outcome_def)
next
  case False
  have "future_done (w\<lparr>futures := (futures w)[f := \<lparr>fstate = out, callbacks = []\<rparr>]\<rparr>) f"
    using assms by (simp add: future_done_def fstate_of_def)
  then show ?thesis using False assms(2)
    by (simp add: set_outcome_def foldl_run_callback_done_mono)
qed

lemma set_outcome_done_mono:
  assumes "out \<noteq> Pending" and "future_done w g"
  shows "future_done (set_outcome f out w) g"
proof (cases "future_done w f")
  case True
  then show ?thesis using assms by (simp add: set_outcome_def)
next
  case False
  then have "g \<noteq> f" using assms(2) by auto
  then have "future_done (w\<lparr>futures := (futures w)[f := \<lparr>fstate = out, callbacks = []\<rparr>]\<rparr>) g"
    using assms(2) by (simp add: future_done_def fstate_of_def)
  then show ?thesis using False assms(1)
    by (simp add: set_outcome_def foldl_run_callback_done_mono)
qed

lemma Event_set_is_set:
  "ev_future ev < length (futures w) \<Longrightarrow> Event_is_set (Event_set (ev, w))"
  by (simp add: Event_is_set_def Event_set_def set_result_def set_outcome_done)

lemma Event_clear_props:
  assumes "Event_clear (ev, w) = (ev1, w1)"
  shows "\<not> future_done w1 (ev_future ev1)"
    and "ev_future ev1 < length (futures w) \<Longrightarrow> ev_future ev1 = ev_future ev"
    and "length (futures w) \<le> length (futures w1)"
    and "g < length (futures w) \<Longrightarrow> futures w1 ! g = futures w ! g"
    and "scheduled w1 = scheduled w" and "next_handle w1 = next_handle w"
  using assms
  by (auto simp: Event_clear_def Future_def future_done_def fstate_of_def nth_append
           split: if_splits)

lemma put_item_fields:
  "unfinished_tasks (put_item item self) = unfinished_tasks self
   \<and> finished (put_item item self) = finished self
   \<and> getters (put_item item self) = getters self
   \<and> putters (put_item item self) = putters self
   \<and> maxsize (put_item item self) = maxsize self
   \<and> cls (put_item item self) = cls self"
  by (cases "cls self") (simp_all add: put_item_def)

lemma get_item_fields:
  "get_item self = Inr (x, self1) \<Longrightarrow>
     unfinished_tasks self1 = unfinished_tasks self
   \<and> finished self1 = finished self
   \<and> getters self1 = getters self
   \<and> putters self1 = putters self
   \<and> maxsize self1 = maxsize self
   \<and> cls self1 = cls self"
  by (cases "cls self")
     (auto simp: get_item_def split: list.splits sum.splits if_splits)

lemma put_internal_props:
  assumes "put_internal item (self, w) = (self1, w1)"
  shows "unfinished_tasks self1 = unfinished_tasks self + 1"
    and "\<not> future_done w1 (ev_future (finished self1))"
    and "ev_future (finished self1) < length (futures w)
           \<Longrightarrow> ev_future (finished self1) = ev_future (finished self)"
    and "length (futures w) \<le> length (futures w1)"
    and "g < length (futures w) \<Longrightarrow> futures w1 ! g = futures w ! g"
    and "getters self1 = getters self" and "putters self1 = putters self"
    and "queue self1 \<noteq> []"
    and "scheduled w1 = scheduled w" and "next_handle w1 = next_handle w"
proof -
  obtain ev1 where ec: "Event_clear (finished self, w) = (ev1, w1)"
    and s1: "self1 = put_item item (self\<lparr>unfinished_tasks := unfinished_tasks self + 1, finished := ev1\<rparr>)"
    using assms by (auto simp: put_internal_def Let_def split: prod.splits)
  have f: "finished self1 = ev1" by (simp add: s1 put_item_fields)
  show "unfinished_tasks self1 = unfinished_tasks self + 1" by (simp add: s1 put_item_fields)
  show "\<not> future_done w1 (ev_future (finished self1))" using Event_clear_props(1) [OF ec] f by simp
  show "ev_future (finished self1) < length (futures w)
           \<Longrightarrow> ev_future (finished self1) = ev_future (finished self)"
    using Event_clear_props(2) [OF ec] f by simp
  show "length (futures w) \<le> length (futures w1)" by (rule Event_clear_props(3) [OF ec])
  show "g < length (futures w) \<Longrightarrow> futures w1 ! g = futures w ! g"
    by (rule Event_clear_props(4) [OF ec])
  show "getters self1 = getters self" by (simp add: s1 put_item_fields)
  show "putters self1 = putters self" by (simp add: s1 put_item_fields)
  show "queue self1 \<noteq> []" by (simp add: s1 put_item_nonempty)
  show "scheduled w1 = scheduled w" by (rule Event_clear_props(5) [OF ec])
  show "next_handle w1 = next_handle w" by (rule Event_clear_props(6) [OF ec])
qed

subsection \<open>Task counting\<close>

lemma task_done_zero:
  "unfinished_tasks self \<le> 0 \<Longrightarrow>
     task_done (self, w) = (Inl (ValueError ''task_done() called too many times''), self, w)"
  by (simp add: task_done_def)

lemma task_done_positive:
  assumes "unfinished_tasks self > 0" and "ev_future (finished self) < length (futures w)"
      and "task_done (self, w) = (r, self1, w1)"
  shows "r = Inr ()" and "unfinished_tasks self1 = unfinished_tasks self - 1"
    and "unfinished_tasks self1 = 0 \<Longrightarrow> Event_is_set (finished self1, w1)"
    and "unfinished_tasks self1 \<noteq> 0 \<Longrightarrow> finished self1 = finished self \<and> w1 = w"
proof -
  show "r = Inr ()" using assms(1,3)
    by (auto simp: task_done_def Let_def split: if_splits prod.splits)
  show "unfinished_tasks self1 = unfinished_tasks self - 1" using assms(1,3)
    by (auto simp: task_done_def Let_def split: if_splits prod.splits)
  show "unfinished_tasks self1 \<noteq> 0 \<Longrightarrow> finished self1 = finished self \<and> w1 = w" using assms(1,3)
    by (auto simp: task_done_def Let_def split: if_splits prod.splits)
  assume z: "unfinished_tasks self1 = 0"
  have "Event_is_set (Event_set (finished self, w))"
    using assms(2) by (rule Event_set_is_set)
  moreover have "(finished self1, w1) = Event_set (finished self, w)"
    using assms(1,3) z
    by (auto simp: task_done_def Let_def split: if_splits prod.splits)
  ultimately show "Event_is_set (finished self1, w1)" by simp
qed

lemma put_nowait_counts:
  assumes ok: "list_all (waiter_ok w (ev_future (finished self))) (getters self)"
      and pn: "put_nowait item (self, w) = (r, self1, w1)"
  shows "r = Inr () \<Longrightarrow> unfinished_tasks self1 = unfinished_tasks self + 1
                        \<and> \<not> Event_is_set (finished self1, w1)"
    and "r \<noteq> Inr () \<Longrightarrow> unfinished_tasks self1 = unfinished_tasks self
                        \<and> finished self1 = finished self \<and> w1 = w"
proof -
  define q where "q = fst (consume_expired (self, w))"
  have qf: "unfinished_tasks q = unfinished_tasks self" "finished q = finished self"
    by (simp_all add: q_def consume_expired_def Let_def)
  have qg: "set (getters q) \<subseteq> set (getters self)"
    by (auto simp: q_def consume_expired_def Let_def dest: set_dropWhileD)
  have both: "(r = Inr () \<longrightarrow> unfinished_tasks self1 = unfinished_tasks self + 1
                        \<and> \<not> Event_is_set (finished self1, w1))
            \<and> (r \<noteq> Inr () \<longrightarrow> unfinished_tasks self1 = unfinished_tasks self
                        \<and> finished self1 = finished self \<and> w1 = w)"
  proof (cases "getters q")
    case Nil
    show ?thesis
    proof (cases "full q")
      case True
      then show ?thesis using pn Nil qf
        by (auto simp: put_nowait_cases Let_def q_def [symmetric])
    next
      case False
      obtain q2 w2 where pi: "put_internal item (q, w) = (q2, w2)"
        by (cases "put_internal item (q, w)")
      then have "r = Inr ()" "self1 = q2" "w1 = w2" using pn Nil False
        by (auto simp: put_nowait_cases Let_def q_def [symmetric])
      then show ?thesis
        using put_internal_props(1,2) [OF pi] qf by (simp add: Event_is_set_def)
    qed
  next
    case (Cons getter rest)
    show ?thesis
    proof (cases "empty q")
      case False
      then show ?thesis using pn Cons qf
        by (auto simp: put_nowait_cases Let_def q_def [symmetric])
    next
      case True
      obtain q2 w2 where pi: "put_internal item (q\<lparr>getters := rest\<rparr>, w) = (q2, w2)"
        by (cases "put_internal item (q\<lparr>getters := rest\<rparr>, w)")
      have "queue q2 \<noteq> []" by (rule put_internal_props(8) [OF pi])
      then obtain x q3 where gi: "get_item q2 = Inr (x, q3)" using get_item_nonempty by blast
      have res: "r = Inr ()" "self1 = q3" "w1 = set_result getter (Some x) w2"
        using pn Cons True pi gi
        by (auto simp: put_nowait_cases Let_def q_def [symmetric])
      have "getter \<in> set (getters self)" using qg Cons by auto
      then have gok: "waiter_ok w (ev_future (finished self)) getter"
        using ok by (simp add: list_all_iff)
      then have gl: "getter < length (futures w)" and gne: "getter \<noteq> ev_future (finished self)"
        and gcb: "list_all removes_timeout (callbacks (futures w ! getter))"
        by (simp_all add: waiter_ok_def)
      have same: "futures w2 ! getter = futures w ! getter"
        using put_internal_props(5) [OF pi gl] .
      have gl2: "getter < length (futures w2)"
        using gl put_internal_props(4) [OF pi] by simp
      let ?ev = "ev_future (finished q2)"
      have evne: "?ev \<noteq> getter"
      proof (cases "?ev < length (futures w)")
        case True
        then have "?ev = ev_future (finished self)"
          using put_internal_props(3) [OF pi] qf by simp
        then show ?thesis using gne by simp
      next
        case False
        then show ?thesis using gl by auto
      qed
      have "fstate_of (set_outcome getter (Resolved (Some x)) w2) ?ev = fstate_of w2 ?ev"
        using set_outcome_fstate_of [of getter w2 "Resolved (Some x)" ?ev] gl2 gcb same evne
        by simp
      then have "\<not> future_done w1 ?ev"
        using put_internal_props(2) [OF pi] res
        by (simp add: future_done_def set_result_def)
      moreover have "finished q3 = finished q2" "unfinished_tasks q3 = unfinished_tasks q2"
        using get_item_fields [OF gi] by simp_all
      ultimately show ?thesis
        using res put_internal_props(1) [OF pi] qf by (simp add: Event_is_set_def)
    qed
  qed
  show "r = Inr () \<Longrightarrow> unfinished_tasks self1 = unfinished_tasks self + 1
                        \<and> \<not> Event_is_set (finished self1, w1)"
    using both by blast
  show "r \<noteq> Inr () \<Longrightarrow> unfinished_tasks self1 = unfinished_tasks self
                        \<and> finished self1 = finished self \<and> w1 = w"
    using both by blast
qed


lemma put_counts:
  assumes ok: "list_all (waiter_ok w (ev_future (finished self))) (getters self)"
      and p: "put item tmo (self, w) = (r, self1, w1)"
  shows "r = Inr NullFuture \<Longrightarrow> unfinished_tasks self1 = unfinished_tasks self + 1
                        \<and> \<not> Event_is_set (finished self1, w1)"
    and "r \<noteq> Inr NullFuture \<Longrightarrow> unfinished_tasks self1 = unfinished_tasks self"
proof -
  obtain r0 q0 w0 where pn: "put_nowait item (self, w) = (r0, q0, w0)"
    by (cases "put_nowait item (self, w)")
  have a: "r0 = Inr () \<Longrightarrow> unfinished_tasks q0 = unfinished_tasks self + 1
                        \<and> \<not> Event_is_set (finished q0, w0)"
    by (rule put_nowait_counts(1) [OF ok pn])
  have b: "r0 \<noteq> Inr () \<Longrightarrow> unfinished_tasks q0 = unfinished_tasks self
                        \<and> finished q0 = finished self \<and> w0 = w"
    by (rule put_nowait_counts(2) [OF ok pn])
  show "r = Inr NullFuture \<Longrightarrow> unfinished_tasks self1 = unfinished_tasks self + 1
                        \<and> \<not> Event_is_set (finished self1, w1)"
    using p pn a
    by (auto simp: put_def Let_def Future_def split: sum.splits exn.splits prod.splits)
  show "r \<noteq> Inr NullFuture \<Longrightarrow> unfinished_tasks self1 = unfinished_tasks self"
    using p pn b
    by (auto simp: put_def Let_def Future_def split: sum.splits exn.splits prod.splits)
qed


subsection \<open>Ordering of the three queue classes\<close>

lemmas queue_eval =
  Queue_init_def Event_init_def Event_set_def Event_clear_def Future_def world0_def
  put_def get_def put_nowait_def get_nowait_def consume_expired_def full_def empty_def qsize_def
  put_internal_def put_item_def get_item_def heappush_def heappop_def siftdown_def siftup_def
  siftdown_loop.simps siftup_loop.simps
  future_done_def fstate_of_def set_result_def set_outcome_def set_timeout_def Let_def


subsection \<open>The rendezvous of a put and a get\<close>

lemma get_nowait_cases:
  "get_nowait (self, w) =
     (let self1 = fst (consume_expired (self, w)) in
      case putters self1 of
        (item, putter) # rest \<Rightarrow>
          if \<not> full self1
          then (Inl (AssertionError ''queue not full, why are putters waiting?''), self1, w)
          else (let self2 = self1\<lparr>putters := rest\<rparr>;
                    (self3, w2) = put_internal item (self2, w);
                    w3 = set_result putter None w2
                in case get_item self3 of
                     Inl e \<Rightarrow> (Inl e, self3, w3)
                   | Inr (x, self4) \<Rightarrow> (Inr x, self4, w3))
      | [] \<Rightarrow>
          if qsize self1 \<noteq> 0
          then (case get_item self1 of
                  Inl e \<Rightarrow> (Inl e, self1, w)
                | Inr (x, self2) \<Rightarrow> (Inr x, self2, w))
          else (Inl QueueEmpty, self1, w))"
  by (simp add: get_nowait_def consume_expired_def Let_def)

text \<open>What \<^verbatim>\<open>_put\<close> and \<^verbatim>\<open>_get\<close> do depends on the class and the storage only.\<close>

lemma put_item_cong:
  "cls a = cls b \<Longrightarrow> queue a = queue b \<Longrightarrow> queue (put_item item a) = queue (put_item item b)"
  by (cases "cls b") (simp_all add: put_item_def)

lemma get_item_cong:
  assumes "cls a = cls b" and "queue a = queue b"
  shows "(case get_item a of Inl e \<Rightarrow> Inl e | Inr (x, a1) \<Rightarrow> Inr (x, queue a1))
       = (case get_item b of Inl e \<Rightarrow> Inl e | Inr (x, b1) \<Rightarrow> Inr (x, queue b1))"
  using assms
  by (cases "cls b") (auto simp: get_item_def split: list.splits sum.splits)

lemma get_put_item_cong:
  assumes "cls a = cls b" and "queue a = queue b"
      and "get_item (put_item item a) = Inr (x, a1)"
  shows "\<exists>b1. get_item (put_item item b) = Inr (x, b1) \<and> queue b1 = queue a1"
proof -
  have c: "cls (put_item item a) = cls (put_item item b)"
    using assms(1) by (simp add: put_item_fields)
  have q: "queue (put_item item a) = queue (put_item item b)"
    using assms(1,2) by (rule put_item_cong)
  show ?thesis using get_item_cong [OF c q] assms(3)
    by (auto split: sum.splits)
qed

lemma foldl_run_callback_keeps:
  "fstate_of w f = out \<Longrightarrow> fstate_of (foldl (run_callback out) w cbs) f = out"
proof (induction cbs arbitrary: w)
  case Nil
  then show ?case by simp
next
  case (Cons cb cbs)
  have "fstate_of (run_callback out w cb) f = out"
  proof (cases cb)
    case (RemoveTimeout h)
    then show ?thesis using Cons.prems by (simp add: remove_timeout_def fstate_of_def)
  next
    case (ChainFuture r)
    show ?thesis
    proof (cases "r = f")
      case True
      then show ?thesis using ChainFuture Cons.prems
        by (cases "f < length (futures w)") (auto simp: fstate_of_def list_update_beyond)
    next
      case False
      then show ?thesis using ChainFuture Cons.prems by (simp add: fstate_of_def)
    qed
  qed
  then show ?case using Cons.IH by simp
qed

lemma set_outcome_pending:
  assumes "f < length (futures w)" and "\<not> future_done w f"
  shows "fstate_of (set_outcome f out w) f = out"
proof -
  have "fstate_of (w\<lparr>futures := (futures w)[f := \<lparr>fstate = out, callbacks = []\<rparr>]\<rparr>) f = out"
    using assms(1) by (simp add: fstate_of_def)
  then show ?thesis using assms(2) by (simp add: set_outcome_def foldl_run_callback_keeps)
qed

lemma dropWhile_hd_not:
  "dropWhile P xs = y # ys \<Longrightarrow> \<not> P y"
  using hd_dropWhile [of P xs] by auto

lemma put_internal_item:
  assumes "put_internal item (self, w) = (self1, w1)"
  shows "cls self1 = cls self" and "queue self1 = queue (put_item item self)"
proof -
  obtain ev1 where s1: "self1 = put_item item (self\<lparr>unfinished_tasks := unfinished_tasks self + 1, finished := ev1\<rparr>)"
    using assms by (auto simp: put_internal_def Let_def split: prod.splits)
  show "cls self1 = cls self" by (simp add: s1 put_item_fields)
  show "queue self1 = queue (put_item item self)"
    unfolding s1 by (rule put_item_cong) simp_all
qed

lemma get_put_item_empty:
  "queue self = [] \<Longrightarrow> \<exists>q1. get_item (put_item item self) = Inr (item, q1) \<and> queue q1 = []"
  by (cases "cls self")
     (simp_all add: put_item_def get_item_def heappush_def heappop_def siftdown_def
        siftdown_loop.simps)

lemma consume_expired_fields:
  "consume_expired (self, w) = (self1, w1) \<Longrightarrow>
     w1 = w \<and> cls self1 = cls self \<and> queue self1 = queue self \<and> maxsize self1 = maxsize self
     \<and> unfinished_tasks self1 = unfinished_tasks self \<and> finished self1 = finished self
     \<and> putters self1 = dropWhile (\<lambda>p. future_done w (snd p)) (putters self)
     \<and> getters self1 = dropWhile (future_done w) (getters self)"
  by (auto simp: consume_expired_def Let_def)

lemma get_nowait_putter:
  assumes dw: "dropWhile (\<lambda>p. future_done w (snd p)) (putters self) = (item, putter) # rest"
      and fl: "full self" and pv: "putter < length (futures w)"
      and gn: "get_nowait (self, w) = (r, self1, w1)"
  shows "\<exists>x qx. get_item (put_item item self) = Inr (x, qx) \<and> r = Inr x \<and> queue self1 = queue qx"
    and "putters self1 = rest"
    and "fstate_of w1 putter = Resolved None"
    and "unfinished_tasks self1 = unfinished_tasks self + 1"
proof -
  obtain q where ce: "consume_expired (self, w) = (q, w)"
    by (simp add: consume_expired_def Let_def)
  note qf = consume_expired_fields [OF ce]
  have q: "fst (consume_expired (self, w)) = q" using ce by simp
  have pq: "putters q = (item, putter) # rest" using qf dw by simp
  have fq: "full q" using fl qf by (auto simp: full_def qsize_def split: if_splits)
  obtain q2 w2 where pi: "put_internal item (q\<lparr>putters := rest\<rparr>, w) = (q2, w2)"
    by (cases "put_internal item (q\<lparr>putters := rest\<rparr>, w)")
  have "queue q2 \<noteq> []" by (rule put_internal_props(8) [OF pi])
  then obtain x q3 where gi: "get_item q2 = Inr (x, q3)" using get_item_nonempty by blast
  have res: "r = Inr x" "self1 = q3" "w1 = set_result putter None w2"
    using gn pq fq pi gi by (auto simp: get_nowait_cases q Let_def)
  have c2: "cls q2 = cls (put_item item self)"
    using put_internal_item(1) [OF pi] qf by (simp add: put_item_fields)
  have "queue q2 = queue (put_item item (q\<lparr>putters := rest\<rparr>))"
    by (rule put_internal_item(2) [OF pi])
  also have "\<dots> = queue (put_item item self)"
    by (rule put_item_cong) (simp_all add: qf)
  finally have q2: "queue q2 = queue (put_item item self)" .
  show "\<exists>x qx. get_item (put_item item self) = Inr (x, qx) \<and> r = Inr x \<and> queue self1 = queue qx"
    using get_item_cong [OF c2 q2] gi res by (auto split: sum.splits)
  show "putters self1 = rest"
    using get_item_fields [OF gi] put_internal_props(7) [OF pi] res by simp
  show "unfinished_tasks self1 = unfinished_tasks self + 1"
    using get_item_fields [OF gi] put_internal_props(1) [OF pi] res qf by simp
  have np: "\<not> future_done w putter" using dropWhile_hd_not [OF dw] by simp
  have same: "futures w2 ! putter = futures w ! putter"
    by (rule put_internal_props(5) [OF pi pv])
  have pv2: "putter < length (futures w2)" using pv put_internal_props(4) [OF pi] by simp
  have "\<not> future_done w2 putter" using np same by (simp add: future_done_def fstate_of_def)
  then show "fstate_of w1 putter = Resolved None"
    using set_outcome_pending [OF pv2] res by (simp add: set_result_def)
qed

lemma put_nowait_getter:
  assumes dw: "dropWhile (future_done w) (getters self) = getter # rest"
      and em: "empty self" and gv: "getter < length (futures w)"
      and pn: "put_nowait item (self, w) = (r, self1, w1)"
  shows "r = Inr ()" and "fstate_of w1 getter = Resolved (Some item)"
    and "getters self1 = rest" and "queue self1 = []"
proof -
  obtain q where ce: "consume_expired (self, w) = (q, w)"
    by (simp add: consume_expired_def Let_def)
  note qf = consume_expired_fields [OF ce]
  have q: "fst (consume_expired (self, w)) = q" using ce by simp
  have gq: "getters q = getter # rest" using qf dw by simp
  have eq: "empty q" using em qf by (simp add: empty_def)
  obtain q2 w2 where pi: "put_internal item (q\<lparr>getters := rest\<rparr>, w) = (q2, w2)"
    by (cases "put_internal item (q\<lparr>getters := rest\<rparr>, w)")
  have c2: "cls q2 = cls (put_item item self)"
    using put_internal_item(1) [OF pi] qf by (simp add: put_item_fields)
  have "queue q2 = queue (put_item item (q\<lparr>getters := rest\<rparr>))"
    by (rule put_internal_item(2) [OF pi])
  also have "\<dots> = queue (put_item item self)"
    by (rule put_item_cong) (simp_all add: qf)
  finally have q2: "queue q2 = queue (put_item item self)" .
  obtain qa where ga: "get_item (put_item item self) = Inr (item, qa)" and qa: "queue qa = []"
    using get_put_item_empty [of self item] em by (auto simp: empty_def)
  obtain q3 where gi: "get_item q2 = Inr (item, q3)" and q3: "queue q3 = []"
    using get_item_cong [OF c2 q2] ga qa by (auto split: sum.splits)
  have res: "r = Inr ()" "self1 = q3" "w1 = set_result getter (Some item) w2"
    using pn gq eq pi gi by (auto simp: put_nowait_cases q Let_def)
  show "r = Inr ()" by (rule res(1))
  show "queue self1 = []" using res q3 by simp
  show "getters self1 = rest"
    using get_item_fields [OF gi] put_internal_props(6) [OF pi] res by simp
  have np: "\<not> future_done w getter" using dropWhile_hd_not [OF dw] by simp
  have same: "futures w2 ! getter = futures w ! getter"
    by (rule put_internal_props(5) [OF pi gv])
  have gv2: "getter < length (futures w2)" using gv put_internal_props(4) [OF pi] by simp
  have "\<not> future_done w2 getter" using np same by (simp add: future_done_def fstate_of_def)
  then show "fstate_of w1 getter = Resolved (Some item)"
    using set_outcome_pending [OF gv2] res by (simp add: set_result_def)
qed



subsection \<open>The permit counter\<close>

lemma garbage_collect_more:
  "TimeoutGarbageCollector.more (garbage_collect w self) = TimeoutGarbageCollector.more self"
  by (simp add: garbage_collect_def Let_def)

lemma garbage_collect_sem_value: "sem_value (garbage_collect w self) = sem_value self"
  by (simp add: garbage_collect_def Let_def)

lemma garbage_collect_initial_value: "initial_value (garbage_collect w self) = initial_value self"
  by (simp add: garbage_collect_def Let_def)

lemma Semaphore_acquire_value:
  "sem_value (fst (snd (Semaphore_acquire tmo (s, w)))) =
     (if sem_value s > 0 then sem_value s - 1 else sem_value s)"
  by (simp add: Semaphore_acquire_def Let_def split: prod.splits option.splits)

lemma Semaphore_release_value:
  "sem_value (fst (Semaphore_release (s, w))) =
     (if snd (release_loop w (waiters s)) = None then sem_value s + 1 else sem_value s)"
  by (simp add: Semaphore_release_def Let_def split: prod.splits option.splits)

lemma Semaphore_fire_value: "sem_value (fst (Semaphore_fire h (s, w))) = sem_value s"
  by (simp add: Semaphore_fire_def Semaphore_on_timeout_def garbage_collect_sem_value Let_def
           split: option.splits prod.splits on_timeout.splits)

lemma Semaphore_step_nonneg:
  "0 \<le> sem_value (fst sw) \<Longrightarrow> 0 \<le> sem_value (fst (Semaphore_step sw op))"
proof (cases sw)
  case (Pair s w)
  assume "0 \<le> sem_value (fst sw)"
  then show ?thesis using Pair
    by (cases op)
       (simp_all add: Semaphore_acquire_value Semaphore_release_value Semaphore_fire_value)
qed

lemma Semaphore_run_nonneg:
  "0 \<le> sem_value (fst sw) \<Longrightarrow> 0 \<le> sem_value (fst (Semaphore_run ops sw))"
  unfolding Semaphore_run_def
  by (induction ops arbitrary: sw) (simp_all add: Semaphore_step_nonneg)

lemma Semaphore_acquire_initial:
  "initial_value (fst (snd (Semaphore_acquire tmo (s, w)))) = initial_value s"
  by (simp add: Semaphore_acquire_def Let_def split: prod.splits option.splits)

lemma Semaphore_release_initial:
  "initial_value (fst (Semaphore_release (s, w))) = initial_value s"
  by (simp add: Semaphore_release_def Let_def split: prod.splits option.splits)

lemma Semaphore_fire_initial: "initial_value (fst (Semaphore_fire h (s, w))) = initial_value s"
  by (simp add: Semaphore_fire_def Semaphore_on_timeout_def garbage_collect_initial_value Let_def
           split: option.splits prod.splits on_timeout.splits)

lemma BoundedSemaphore_step_bounds:
  assumes "0 \<le> sem_value (fst sw)" and "sem_value (fst sw) \<le> initial_value (fst sw)"
  shows "0 \<le> sem_value (fst (BoundedSemaphore_step sw op))"
    and "sem_value (fst (BoundedSemaphore_step sw op)) \<le> initial_value (fst (BoundedSemaphore_step sw op))"
    and "initial_value (fst (BoundedSemaphore_step sw op)) = initial_value (fst sw)"
proof -
  obtain s w where sw: "sw = (s, w)" by (cases sw)
  show "0 \<le> sem_value (fst (BoundedSemaphore_step sw op))" using assms sw
    by (cases op)
       (simp_all add: Semaphore_acquire_value Semaphore_release_value Semaphore_fire_value
          BoundedSemaphore_release_def)
  show "initial_value (fst (BoundedSemaphore_step sw op)) = initial_value (fst sw)" using sw
    by (cases op)
       (simp_all add: Semaphore_acquire_initial Semaphore_release_initial Semaphore_fire_initial
          BoundedSemaphore_release_def)
  show "sem_value (fst (BoundedSemaphore_step sw op)) \<le> initial_value (fst (BoundedSemaphore_step sw op))"
    using assms sw
    by (cases op)
       (simp_all add: Semaphore_acquire_value Semaphore_release_value Semaphore_fire_value
          Semaphore_acquire_initial Semaphore_release_initial Semaphore_fire_initial
          BoundedSemaphore_release_def)
qed

lemma BoundedSemaphore_run_bounds:
  assumes "0 \<le> sem_value (fst sw)" and "sem_value (fst sw) \<le> initial_value (fst sw)"
  shows "0 \<le> sem_value (fst (BoundedSemaphore_run ops sw))
       \<and> sem_value (fst (BoundedSemaphore_run ops sw)) \<le> initial_value (fst (BoundedSemaphore_run ops sw))
       \<and> initial_value (fst (BoundedSemaphore_run ops sw)) = initial_value (fst sw)"
  using assms unfolding BoundedSemaphore_run_def
proof (induction ops arbitrary: sw)
  case Nil
  then show ?case by simp
next
  case (Cons op ops)
  note S = BoundedSemaphore_step_bounds [OF Cons.prems, of op]
  show ?case
    using Cons.IH [OF S(1) S(2)] S(3) by simp
qed

text \<open>
  Claim C4. A \<^verbatim>\<open>Semaphore\<close> that its constructor accepted has \<^verbatim>\<open>_value >= 0\<close> after every
  sequence of \<^verbatim>\<open>acquire\<close> calls (with any timeout argument), \<^verbatim>\<open>release\<close> calls and
  timeouts firing. A \<^verbatim>\<open>BoundedSemaphore\<close> has \<^verbatim>\<open>0 <= _value <= _initial_value\<close>, with
  \<^verbatim>\<open>_initial_value\<close> the constructor's argument, after every such sequence; a \<^verbatim>\<open>release\<close>
  that raises changes nothing, so this holds for the sequences in which no call fails and
  for the others.
\<close>

theorem semaphore_value_bounds:
  "(Semaphore_init v = Inr s \<longrightarrow> 0 \<le> sem_value (fst (Semaphore_run ops (s, w))))
   \<and> (BoundedSemaphore_init v = Inr b \<longrightarrow>
        0 \<le> sem_value (fst (BoundedSemaphore_run ops (b, w)))
        \<and> sem_value (fst (BoundedSemaphore_run ops (b, w))) \<le> v
        \<and> initial_value (fst (BoundedSemaphore_run ops (b, w))) = v)"
proof (intro conjI impI)
  assume "Semaphore_init v = Inr s"
  then have "0 \<le> sem_value (fst (s, w))"
    by (auto simp: Semaphore_init_def split: if_splits)
  then show "0 \<le> sem_value (fst (Semaphore_run ops (s, w)))" by (rule Semaphore_run_nonneg)
next
  assume i: "BoundedSemaphore_init v = Inr b"
  then have b: "0 \<le> sem_value (fst (b, w))" "sem_value (fst (b, w)) \<le> initial_value (fst (b, w))"
    "initial_value b = v"
    by (auto simp: BoundedSemaphore_init_def Semaphore_init_def split: if_splits)
  note B = BoundedSemaphore_run_bounds [OF b(1,2), of ops]
  show "0 \<le> sem_value (fst (BoundedSemaphore_run ops (b, w)))" using B by simp
  show "sem_value (fst (BoundedSemaphore_run ops (b, w))) \<le> v" using B b(3) by simp
  show "initial_value (fst (BoundedSemaphore_run ops (b, w))) = v" using B b(3) by simp
qed


theorem semaphore_value_bounds_witness:
  "Semaphore_init 1 = Inr \<lparr>waiters = [], timeouts = 0, sem_value = 1\<rparr>
   \<and> 0 \<le> sem_value (fst (Semaphore_run [Acquire None, Acquire (Some (Timedelta 1)), Release, Release, Release, SemaphoreTimeout 0] (\<lparr>waiters = [], timeouts = 0, sem_value = 1\<rparr>, world0)))
   \<and> BoundedSemaphore_init 1 = Inr \<lparr>waiters = [], timeouts = 0, sem_value = 1, initial_value = 1\<rparr>
   \<and> (0 \<le> sem_value (fst (BoundedSemaphore_run [Acquire None, Acquire (Some (Timedelta 1)), Release, Release, Release, SemaphoreTimeout 0] (\<lparr>waiters = [], timeouts = 0, sem_value = 1, initial_value = 1\<rparr>, world0)))
      \<and> sem_value (fst (BoundedSemaphore_run [Acquire None, Acquire (Some (Timedelta 1)), Release, Release, Release, SemaphoreTimeout 0] (\<lparr>waiters = [], timeouts = 0, sem_value = 1, initial_value = 1\<rparr>, world0))) \<le> 1
      \<and> initial_value (fst (BoundedSemaphore_run [Acquire None, Acquire (Some (Timedelta 1)), Release, Release, Release, SemaphoreTimeout 0] (\<lparr>waiters = [], timeouts = 0, sem_value = 1, initial_value = 1\<rparr>, world0))) = 1)"
  (is "?A1 \<and> ?C1 \<and> ?A2 \<and> ?C2")
proof -
  have a1: ?A1 by (simp add: Semaphore_init_def)
  have a2: ?A2 by (simp add: BoundedSemaphore_init_def Semaphore_init_def)
  note T = semaphore_value_bounds [of 1 "\<lparr>waiters = [], timeouts = 0, sem_value = 1\<rparr>" "[Acquire None, Acquire (Some (Timedelta 1)), Release, Release, Release, SemaphoreTimeout 0]" world0 "\<lparr>waiters = [], timeouts = 0, sem_value = 1, initial_value = 1\<rparr>"]
  have c1: ?C1 using T [THEN conjunct1] a1 by (rule mp)
  have c2: ?C2 using T [THEN conjunct2] a2 by (rule mp)
  show ?thesis by (rule conjI [OF a1 conjI [OF c1 conjI [OF a2 c2]]])
qed

subsection \<open>Well-formed states of conditions and semaphores\<close>

lemma cbs_ok_nth: "cbs_ok w \<Longrightarrow> f < length (futures w) \<Longrightarrow> list_all removes_timeout (callbacks (futures w ! f))"
  by (simp add: cbs_ok_def list_all_length)

lemma set_outcome_futures_ok:
  assumes "cbs_ok w" and "f < length (futures w)"
  shows "futures (set_outcome f out w) =
           (if future_done w f then futures w
            else (futures w)[f := \<lparr>fstate = out, callbacks = []\<rparr>])"
  using set_outcome_futures [OF assms(2) cbs_ok_nth [OF assms]] .

lemma set_outcome_cbs_ok:
  assumes "cbs_ok w" and "f < length (futures w)"
  shows "cbs_ok (set_outcome f out w)"
proof -
  have "list_all (\<lambda>fu. list_all removes_timeout (callbacks fu))
          ((futures w)[f := \<lparr>fstate = out, callbacks = []\<rparr>])"
    using assms(1) unfolding cbs_ok_def list_all_iff
    by (auto dest!: set_update_subset_insert [THEN subsetD])
  then show ?thesis
    using assms by (simp add: cbs_ok_def [of "set_outcome f out w"] set_outcome_futures_ok)
       (simp add: cbs_ok_def)
qed

lemma set_outcome_fstate_ok:
  assumes "cbs_ok w" and "f < length (futures w)"
  shows "fstate_of (set_outcome f out w) g =
           (if g = f \<and> fstate_of w f = Pending then out else fstate_of w g)"
  using set_outcome_fstate_of [OF assms(2) cbs_ok_nth [OF assms]] .

lemma set_outcome_scheduled_subset:
  "set (scheduled (set_outcome f out w)) \<subseteq> set (scheduled w)"
proof -
  have r: "set (scheduled (run_callback out w' cb)) \<subseteq> set (scheduled w')" for w' :: "'a world" and cb
    by (cases cb) (auto simp: remove_timeout_def)
  have fl: "set (scheduled (foldl (run_callback out) w' cbs)) \<subseteq> set (scheduled w')"
    for w' :: "'a world" and cbs
  proof (induction cbs arbitrary: w')
    case Nil
    show ?case by simp
  next
    case (Cons cb cbs)
    show ?case using Cons [of "run_callback out w' cb"] r [of w' cb] by auto
  qed
  show ?thesis
    using fl [of "w\<lparr>futures := (futures w)[f := \<lparr>fstate = out, callbacks = []\<rparr>]\<rparr>"
                 "callbacks (futures w ! f)"]
    by (simp add: set_outcome_def)
qed

lemma foldl_set_result_ok:
  assumes "cbs_ok w" and "list_all (\<lambda>f. f < length (futures w)) fs"
  shows "cbs_ok (foldl (\<lambda>w' f. set_result f v w') w fs)
       \<and> length (futures (foldl (\<lambda>w' f. set_result f v w') w fs)) = length (futures w)
       \<and> set (scheduled (foldl (\<lambda>w' f. set_result f v w') w fs)) \<subseteq> set (scheduled w)
       \<and> (\<forall>g. fstate_of (foldl (\<lambda>w' f. set_result f v w') w fs) g =
               (if g \<in> set fs \<and> fstate_of w g = Pending then Resolved v else fstate_of w g))"
  using assms
proof (induction fs arbitrary: w)
  case Nil
  then show ?case by simp
next
  case (Cons f fs)
  let ?w1 = "set_result f v w"
  have fv: "f < length (futures w)" using Cons.prems(2) by simp
  have ok1: "cbs_ok ?w1" unfolding set_result_def by (rule set_outcome_cbs_ok [OF Cons.prems(1) fv])
  have len1: "length (futures ?w1) = length (futures w)" by (simp add: set_result_def set_outcome_length)
  have v1: "list_all (\<lambda>f. f < length (futures ?w1)) fs" using Cons.prems(2) len1 by simp
  have st1: "fstate_of ?w1 g = (if g = f \<and> fstate_of w f = Pending then Resolved v else fstate_of w g)" for g
    unfolding set_result_def by (rule set_outcome_fstate_ok [OF Cons.prems(1) fv])
  have sch1: "set (scheduled ?w1) \<subseteq> set (scheduled w)"
    unfolding set_result_def by (rule set_outcome_scheduled_subset)
  note IH = Cons.IH [OF ok1 v1]
  show ?case using IH len1 sch1 by (auto simp: st1)
qed

lemma notify_loop_nonneg:
  assumes "0 \<le> n" and "notify_loop w n ws acc = (rest, out)"
  shows "out = acc @ take (nat n) (filter (\<lambda>f. \<not> future_done w f) ws)
       \<and> (\<exists>scanned. ws = scanned @ rest
            \<and> filter (\<lambda>f. \<not> future_done w f) scanned = take (nat n) (filter (\<lambda>f. \<not> future_done w f) ws)
            \<and> (rest = [] \<or> length (filter (\<lambda>f. \<not> future_done w f) scanned) = nat n)
            \<and> (scanned = [] \<or> rest = [] \<or> \<not> future_done w (last scanned)))"
  using assms
proof (induction ws arbitrary: n acc)
  case Nil
  then show ?case by simp
next
  case (Cons x ws)
  show ?case
  proof (cases "n = 0")
    case True
    then show ?thesis using Cons.prems by simp
  next
    case False
    then have pos: "0 < n" using Cons.prems(1) by simp
    show ?thesis
    proof (cases "future_done w x")
      case True
      then have nl: "notify_loop w n ws acc = (rest, out)" using Cons.prems(2) False by simp
      from Cons.IH [OF Cons.prems(1) nl] obtain scanned where
        o: "out = acc @ take (nat n) (filter (\<lambda>f. \<not> future_done w f) ws)"
        and s: "ws = scanned @ rest"
        "filter (\<lambda>f. \<not> future_done w f) scanned = take (nat n) (filter (\<lambda>f. \<not> future_done w f) ws)"
        "rest = [] \<or> length (filter (\<lambda>f. \<not> future_done w f) scanned) = nat n"
        "scanned = [] \<or> rest = [] \<or> \<not> future_done w (last scanned)"
        by blast
      have z: "rest = [] \<or> scanned \<noteq> []"
        using s(3) pos by (cases scanned) auto
      show ?thesis
        apply (rule conjI)
        using o True apply simp
        apply (rule exI [of _ "x # scanned"])
        using s True z by auto
    next
      case False
      have n1: "0 \<le> n - 1" using pos by simp
      have nl: "notify_loop w (n - 1) ws (acc @ [x]) = (rest, out)"
        using Cons.prems(2) False pos by simp
      have nn: "nat n = Suc (nat (n - 1))" using pos by simp
      from Cons.IH [OF n1 nl] obtain scanned where
        o: "out = (acc @ [x]) @ take (nat (n - 1)) (filter (\<lambda>f. \<not> future_done w f) ws)"
        and s: "ws = scanned @ rest"
        "filter (\<lambda>f. \<not> future_done w f) scanned = take (nat (n - 1)) (filter (\<lambda>f. \<not> future_done w f) ws)"
        "rest = [] \<or> length (filter (\<lambda>f. \<not> future_done w f) scanned) = nat (n - 1)"
        "scanned = [] \<or> rest = [] \<or> \<not> future_done w (last scanned)"
        by blast
      show ?thesis
        apply (rule conjI)
        using o False nn apply simp
        apply (rule exI [of _ "x # scanned"])
        using s False nn by auto
    qed
  qed
qed

lemma set_outcome_scheduled_ok:
  "scheduled_ok w \<Longrightarrow> scheduled_ok (set_outcome f out w)"
  using set_outcome_scheduled_subset [of f out w]
  by (auto simp: scheduled_ok_def list_all_iff set_outcome_length)

lemma pop_timeout_props:
  assumes "pop_timeout h w = Some (cb, w1)"
  shows "futures w1 = futures w" and "set (scheduled w1) \<subseteq> set (scheduled w)"
    and "next_handle w1 = next_handle w"
    and "\<exists>t. (h, t, cb) \<in> set (scheduled w)"
    and "\<forall>e \<in> set (scheduled w1). fst e \<noteq> h"
proof -
  obtain e where f: "find (\<lambda>e. fst e = h) (scheduled w) = Some e"
    and cb: "cb = snd (snd e)" and w1: "w1 = remove_timeout h w"
    using assms by (auto simp: pop_timeout_def split: option.splits)
  show "futures w1 = futures w" by (simp add: w1 remove_timeout_def)
  show "set (scheduled w1) \<subseteq> set (scheduled w)" by (auto simp: w1 remove_timeout_def)
  show "next_handle w1 = next_handle w" by (simp add: w1 remove_timeout_def)
  have "e \<in> set (scheduled w)" "fst e = h"
    using f by (auto simp: find_Some_iff)
  moreover obtain a t c where "e = (a, t, c)" by (cases e)
  ultimately show "\<exists>t. (h, t, cb) \<in> set (scheduled w)"
    using cb by auto
  show "\<forall>e \<in> set (scheduled w1). fst e \<noteq> h" by (auto simp: w1 remove_timeout_def)
qed

lemma pop_timeout_ok:
  assumes "pop_timeout h w = Some (cb, w1)" and "scheduled_ok w" and "cbs_ok w"
  shows "scheduled_ok w1" and "cbs_ok w1" and "waiter_of cb < length (futures w)"
proof -
  note P = pop_timeout_props [OF assms(1)]
  show "scheduled_ok w1" using assms(2) P(1,2) by (auto simp: scheduled_ok_def list_all_iff)
  show "cbs_ok w1" using assms(3) P(1) by (simp add: cbs_ok_def)
  obtain t where "(h, t, cb) \<in> set (scheduled w)" using P(4) by blast
  then show "waiter_of cb < length (futures w)"
    using assms(2) by (auto simp: scheduled_ok_def list_all_iff)
qed

text \<open>The shared tail of \<^verbatim>\<open>Condition.wait\<close>, \<^verbatim>\<open>Semaphore.acquire\<close> and \<^verbatim>\<open>_set_timeout\<close>:
  a timeout is scheduled for a pending future and its cancellation registered.\<close>

lemma arm_timeout_props:
  assumes "add_timeout t cb w = (h, w2)" and "w3 = add_done_callback f (RemoveTimeout h) w2"
      and "f < length (futures w)" and "\<not> future_done w f"
  shows "futures w3 = (futures w)[f := (futures w ! f)\<lparr>callbacks := callbacks (futures w ! f) @ [RemoveTimeout h]\<rparr>]"
    and "scheduled w3 = scheduled w @ [(next_handle w, t, cb)]"
    and "next_handle w3 = Suc (next_handle w)"
    and "h = next_handle w"
  using assms
  by (auto simp: add_timeout_def add_done_callback_def future_done_def fstate_of_def)

lemma arm_timeout_ok:
  assumes "add_timeout t cb w = (h, w2)" and "w3 = add_done_callback f (RemoveTimeout h) w2"
      and "f < length (futures w)" and "\<not> future_done w f"
      and "waiter_of cb < length (futures w)"
      and "scheduled_ok w" and "cbs_ok w"
  shows "scheduled_ok w3" and "cbs_ok w3" and "length (futures w3) = length (futures w)"
    and "fstate_of w3 g = fstate_of w g"
proof -
  note A = arm_timeout_props [OF assms(1-4)]
  show "length (futures w3) = length (futures w)" by (simp add: A(1))
  show "scheduled_ok w3" using assms(5,6) by (simp add: scheduled_ok_def A(1,2))
  show "fstate_of w3 g = fstate_of w g"
    using assms(3) by (cases "g = f") (simp_all add: fstate_of_def A(1))
  have "list_all removes_timeout (callbacks (futures w ! f))"
    by (rule cbs_ok_nth [OF assms(7,3)])
  then show "cbs_ok w3" using assms(7) unfolding cbs_ok_def A(1) list_all_iff
    by (auto dest!: set_update_subset_insert [THEN subsetD])
qed

lemma Future_scheduled_ok:
  assumes "Future w = (f, w1)" and "scheduled_ok w"
  shows "scheduled_ok w1"
proof -
  have "scheduled w1 = scheduled w" "length (futures w1) = Suc (length (futures w))"
    using assms(1) by (auto simp: Future_def)
  then show ?thesis using assms(2)
    unfolding scheduled_ok_def list_all_iff by (metis less_Suc_eq)
qed

lemma Future_ok:
  assumes "Future w = (f, w1)"
  shows "f = length (futures w)" and "length (futures w1) = Suc (length (futures w))"
    and "\<not> future_done w1 f"
    and "cbs_ok w \<Longrightarrow> cbs_ok w1"
    and "g < length (futures w) \<Longrightarrow> futures w1 ! g = futures w ! g"
    and "scheduled w1 = scheduled w" and "next_handle w1 = next_handle w"
    and "futures w1 ! f = \<lparr>fstate = Pending, callbacks = []\<rparr>"
  using assms
  by (auto simp: Future_def future_done_def fstate_of_def cbs_ok_def
        list_all_iff nth_append)

subsection \<open>\<^verbatim>\<open>Condition\<close>: what each call does\<close>

lemma truthy_Some: "truthy tmo \<Longrightarrow> \<exists>t. tmo = Some t"
  by (cases tmo) simp_all

lemma Condition_wait_falsy:
  assumes "\<not> truthy tmo" and "Condition_wait tmo (c, w) = (waiter, c1, w1)"
  shows "waiter = length (futures w)" and "c1 = c\<lparr>waiters := waiters c @ [waiter]\<rparr>"
    and "w1 = w\<lparr>futures := futures w @ [\<lparr>fstate = Pending, callbacks = []\<rparr>]\<rparr>"
  using assms
  by (auto simp: Condition_wait_def Future_def Let_def split: option.splits)

lemma Condition_wait_truthy:
  assumes "truthy (Some t)" and "Condition_wait (Some t) (c, w) = (waiter, c1, w1)"
  shows "waiter = length (futures w)" and "c1 = c\<lparr>waiters := waiters c @ [waiter]\<rparr>"
    and "w1 = \<lparr>futures = futures w @ [\<lparr>fstate = Pending, callbacks = [RemoveTimeout (next_handle w)]\<rparr>],
               scheduled = scheduled w @ [(next_handle w, t, ConditionOnTimeout waiter)],
               next_handle = Suc (next_handle w)\<rparr>"
  using assms
  by (auto simp: Condition_wait_def Future_def Let_def add_timeout_def add_done_callback_def
        future_done_def fstate_of_def)

lemma Condition_wait_wf:
  assumes wf: "locks_wf (c, w)" and cw: "Condition_wait tmo (c, w) = (waiter, c1, w1)"
  shows "locks_wf (c1, w1)"
proof (cases "truthy tmo")
  case False
  note F = Condition_wait_falsy [OF False cw]
  show ?thesis using wf
    unfolding locks_wf_def scheduled_ok_def cbs_ok_def list_all_iff F
    by (auto simp: less_Suc_eq)
next
  case True
  then obtain t where t: "tmo = Some t" using truthy_Some by blast
  note T = Condition_wait_truthy [OF True [unfolded t] cw [unfolded t]]
  show ?thesis using wf
    unfolding locks_wf_def scheduled_ok_def cbs_ok_def list_all_iff T
    by (auto simp: less_Suc_eq)
qed

lemma notify_loop_subset:
  "notify_loop w n ws acc = (rest, out) \<Longrightarrow>
     set rest \<subseteq> set ws \<and> set out \<subseteq> set acc \<union> set ws \<and> (distinct ws \<longrightarrow> distinct rest)"
proof (induction ws arbitrary: n acc)
  case Nil
  then show ?case by auto
next
  case (Cons x ws)
  show ?case
  proof (cases "n = 0")
    case True
    then show ?thesis using Cons.prems by auto
  next
    case False
    show ?thesis
    proof (cases "future_done w x")
      case True
      then have "notify_loop w n ws acc = (rest, out)" using Cons.prems False by simp
      from Cons.IH [OF this] show ?thesis by auto
    next
      case nd: False
      then have "notify_loop w (n - 1) ws (acc @ [x]) = (rest, out)" using Cons.prems False by simp
      from Cons.IH [OF this] show ?thesis by auto
    qed
  qed
qed

lemma Condition_notify_wf:
  assumes wf: "locks_wf (c, w)"
  shows "locks_wf (Condition_notify n (c, w))"
proof -
  obtain rest ws where nl: "notify_loop w n (waiters c) [] = (rest, ws)"
    by (cases "notify_loop w n (waiters c) []")
  let ?w1 = "foldl (\<lambda>w' waiter. set_result waiter True w') w ws"
  have cn: "Condition_notify n (c, w) = (c\<lparr>waiters := rest\<rparr>, ?w1)"
    by (simp add: Condition_notify_def nl)
  note S = notify_loop_subset [OF nl]
  have ok: "cbs_ok w" and v: "list_all (\<lambda>f. f < length (futures w)) (waiters c)"
    and so: "scheduled_ok w" and d: "distinct (waiters c)"
    using wf by (simp_all add: locks_wf_def)
  have vws: "list_all (\<lambda>f. f < length (futures w)) ws"
    using v S unfolding list_all_iff by auto
  note F = foldl_set_result_ok [OF ok vws, of True]
  have "scheduled_ok ?w1"
    using so F unfolding scheduled_ok_def list_all_iff by auto
  moreover have "list_all (\<lambda>f. f < length (futures ?w1)) rest"
    using v S F unfolding list_all_iff by auto
  ultimately show ?thesis using F S d by (simp add: cn locks_wf_def)
qed

lemma garbage_collect_waiters_subset:
  "set (waiters (garbage_collect w c)) \<subseteq> set (waiters c)
   \<and> (distinct (waiters c) \<longrightarrow> distinct (waiters (garbage_collect w c)))"
  by (auto simp: garbage_collect_def Let_def)

lemma on_timeout_wf:
  assumes wf: "locks_wf (c, w)" and f: "f < length (futures w)"
  shows "locks_wf (garbage_collect (set_outcome f out w) c, set_outcome f out w)"
proof -
  have ok: "cbs_ok w" and v: "list_all (\<lambda>f. f < length (futures w)) (waiters c)"
    and so: "scheduled_ok w" and d: "distinct (waiters c)"
    using wf by (simp_all add: locks_wf_def)
  note G = garbage_collect_waiters_subset [of "set_outcome f out w" c]
  have "list_all (\<lambda>g. g < length (futures (set_outcome f out w)))
          (waiters (garbage_collect (set_outcome f out w) c))"
    using v G unfolding list_all_iff by (auto simp: set_outcome_length)
  then show ?thesis
    using G d set_outcome_scheduled_ok [OF so] set_outcome_cbs_ok [OF ok f]
    by (simp add: locks_wf_def)
qed

lemma locks_wf_pop:
  assumes "locks_wf (c, w)" and "pop_timeout h w = Some (cb, w1)"
  shows "locks_wf (c, w1)" and "waiter_of cb < length (futures w1)"
proof -
  have ok: "cbs_ok w" and so: "scheduled_ok w" using assms(1) by (simp_all add: locks_wf_def)
  note P = pop_timeout_ok [OF assms(2) so ok] pop_timeout_props(1) [OF assms(2)]
  show "locks_wf (c, w1)" using assms(1) P by (simp add: locks_wf_def)
  show "waiter_of cb < length (futures w1)" using P by simp
qed

lemma Condition_fire_wf:
  assumes wf: "locks_wf (c, w)"
  shows "locks_wf (Condition_fire h (c, w))"
proof (cases "pop_timeout h w")
  case None
  then show ?thesis using wf by (simp add: Condition_fire_def)
next
  case (Some p)
  obtain cb w1 where p: "p = (cb, w1)" by (cases p)
  note P = locks_wf_pop [OF wf Some [unfolded p]]
  show ?thesis
  proof (cases cb)
    case (ConditionOnTimeout f)
    then have "f < length (futures w1)" using P(2) by simp
    from on_timeout_wf [OF P(1) this, of "Resolved False"] show ?thesis
      using Some p ConditionOnTimeout
      by (simp add: Condition_fire_def Condition_on_timeout_def set_result_def Let_def)
  qed (use wf Some p in \<open>simp_all add: Condition_fire_def\<close>)
qed

lemma Condition_step_wf: "locks_wf cw \<Longrightarrow> locks_wf (Condition_step cw op)"
proof -
  assume wf: "locks_wf cw"
  obtain c w where cw: "cw = (c, w)" by (cases cw)
  show ?thesis
  proof (cases op)
    case (Wait tmo)
    obtain waiter c1 w1 where "Condition_wait tmo (c, w) = (waiter, c1, w1)"
      by (cases "Condition_wait tmo (c, w)")
    from Condition_wait_wf [OF wf [unfolded cw] this] this show ?thesis
      using Wait cw by simp
  next
    case (Notify n)
    then show ?thesis using Condition_notify_wf [OF wf [unfolded cw]] cw by simp
  next
    case NotifyAll
    then show ?thesis using Condition_notify_wf [OF wf [unfolded cw]] cw
      by (simp add: Condition_notify_all_def)
  next
    case (ConditionTimeout h)
    then show ?thesis using Condition_fire_wf [OF wf [unfolded cw]] cw by simp
  qed
qed

lemma Condition_run_wf: "locks_wf cw \<Longrightarrow> locks_wf (Condition_run ops cw)"
  unfolding Condition_run_def
  by (induction ops arbitrary: cw) (simp_all add: Condition_step_wf)

lemma Condition_init_wf: "locks_wf (Condition_init, world0)"
  by (simp add: locks_wf_def Condition_init_def TimeoutGarbageCollector_init_def world0_def
        scheduled_ok_def cbs_ok_def)

lemma Condition_notify_woken:
  assumes wf: "locks_wf (c, w)" and n: "0 \<le> n"
      and cn: "Condition_notify n (c, w) = (c1, w1)"
  shows "fstate_of w1 g =
           (if g \<in> set (take (nat n) (filter (\<lambda>f. \<not> future_done w f) (waiters c)))
            then Resolved True else fstate_of w g)"
    and "\<exists>scanned. waiters c = scanned @ waiters c1
            \<and> filter (\<lambda>f. \<not> future_done w f) scanned
                = take (nat n) (filter (\<lambda>f. \<not> future_done w f) (waiters c))
            \<and> (waiters c1 = [] \<or> length (filter (\<lambda>f. \<not> future_done w f) scanned) = nat n)
            \<and> (scanned = [] \<or> waiters c1 = [] \<or> \<not> future_done w (last scanned))"
    and "timeouts c1 = timeouts c"
proof -
  let ?woken = "take (nat n) (filter (\<lambda>f. \<not> future_done w f) (waiters c))"
  obtain rest ws where nl: "notify_loop w n (waiters c) [] = (rest, ws)"
    by (cases "notify_loop w n (waiters c) []")
  have c1: "c1 = c\<lparr>waiters := rest\<rparr>"
    and w1: "w1 = foldl (\<lambda>w' waiter. set_result waiter True w') w ws"
    using cn by (simp_all add: Condition_notify_def nl)
  note N = notify_loop_nonneg [OF n nl]
  have ws: "ws = ?woken" using N by simp
  have ok: "cbs_ok w" and v: "list_all (\<lambda>f. f < length (futures w)) (waiters c)"
    using wf by (simp_all add: locks_wf_def)
  have "set ws \<subseteq> set (waiters c)" unfolding ws by (auto dest: in_set_takeD)
  then have vws: "list_all (\<lambda>f. f < length (futures w)) ws"
    using v unfolding list_all_iff by auto
  have live: "g \<in> set ?woken \<Longrightarrow> fstate_of w g = Pending"
    by (auto dest!: in_set_takeD simp: future_done_def)
  have "fstate_of w1 g = (if g \<in> set ws \<and> fstate_of w g = Pending then Resolved True else fstate_of w g)"
    unfolding w1 using foldl_set_result_ok [OF ok vws, of True] by blast
  then show "fstate_of w1 g = (if g \<in> set ?woken then Resolved True else fstate_of w g)"
    using live ws by auto
  show "\<exists>scanned. waiters c = scanned @ waiters c1
            \<and> filter (\<lambda>f. \<not> future_done w f) scanned = ?woken
            \<and> (waiters c1 = [] \<or> length (filter (\<lambda>f. \<not> future_done w f) scanned) = nat n)
            \<and> (scanned = [] \<or> waiters c1 = [] \<or> \<not> future_done w (last scanned))"
    using N by (simp add: c1)
  show "timeouts c1 = timeouts c" by (simp add: c1)
qed


lemmas condition_eval =
  Condition_run_def Condition_init_def TimeoutGarbageCollector_init_def world0_def
  Condition_wait_def Condition_notify_def Condition_fire_def Condition_on_timeout_def
  garbage_collect_def pop_timeout_def Future_def add_timeout_def add_done_callback_def
  remove_timeout_def set_result_def set_outcome_def future_done_def fstate_of_def Let_def

text \<open>
  Claim C6, for \<open>n \<ge> 0\<close>. In a well-formed state, \<^verbatim>\<open>notify(n)\<close> resolves to \<^verbatim>\<open>True\<close> the
  first \<open>n\<close> waiters of the deque that are not yet resolved (all of them when there are
  fewer), and changes no other future: their number is \<open>min n live\<close>, they are taken in
  deque order, and resolved waiters in between are skipped. The deque loses the prefix
  that was scanned, which holds exactly the woken waiters and the resolved ones before
  the last of them; the scan stops at the \<open>n\<close>-th live waiter. Every state reached from a
  fresh \<^verbatim>\<open>Condition\<close> by \<^verbatim>\<open>wait\<close>, \<^verbatim>\<open>notify\<close>, \<^verbatim>\<open>notify_all\<close> and timeouts is
  well-formed.
\<close>

theorem notify_wakes_first_live_waiters:
  "(locks_wf (c, w) \<and> 0 \<le> n \<longrightarrow>
      (case Condition_notify n (c, w) of (c1, w1) \<Rightarrow>
         (\<forall>g. fstate_of w1 g =
                 (if g \<in> set (take (nat n) (filter (\<lambda>f. \<not> future_done w f) (waiters c))) then Resolved True else fstate_of w g))
         \<and> distinct (take (nat n) (filter (\<lambda>f. \<not> future_done w f) (waiters c)))
         \<and> int (length (take (nat n) (filter (\<lambda>f. \<not> future_done w f) (waiters c)))) = min n (int (length (filter (\<lambda>f. \<not> future_done w f) (waiters c))))
         \<and> (\<exists>scanned. waiters c = scanned @ waiters c1
               \<and> filter (\<lambda>f. \<not> future_done w f) scanned = take (nat n) (filter (\<lambda>f. \<not> future_done w f) (waiters c))
               \<and> (waiters c1 = [] \<or> length (filter (\<lambda>f. \<not> future_done w f) scanned) = nat n)
               \<and> (scanned = [] \<or> waiters c1 = [] \<or> \<not> future_done w (last scanned)))
         \<and> timeouts c1 = timeouts c))
   \<and> locks_wf (Condition_run ops (Condition_init, world0))"
proof (intro conjI impI)
  assume a: "locks_wf (c, w) \<and> 0 \<le> n"
  obtain c1 w1 where cn: "Condition_notify n (c, w) = (c1, w1)"
    by (cases "Condition_notify n (c, w)")
  note W = Condition_notify_woken [OF a [THEN conjunct1] a [THEN conjunct2] cn]
  have d: "distinct (take (nat n) (filter (\<lambda>f. \<not> future_done w f) (waiters c)))"
    using a by (simp add: locks_wf_def)
  have l: "int (length (take (nat n) (filter (\<lambda>f. \<not> future_done w f) (waiters c)))) = min n (int (length (filter (\<lambda>f. \<not> future_done w f) (waiters c))))"
    using a by auto
  show "case Condition_notify n (c, w) of (c1, w1) \<Rightarrow>
         (\<forall>g. fstate_of w1 g =
                 (if g \<in> set (take (nat n) (filter (\<lambda>f. \<not> future_done w f) (waiters c))) then Resolved True else fstate_of w g))
         \<and> distinct (take (nat n) (filter (\<lambda>f. \<not> future_done w f) (waiters c)))
         \<and> int (length (take (nat n) (filter (\<lambda>f. \<not> future_done w f) (waiters c)))) = min n (int (length (filter (\<lambda>f. \<not> future_done w f) (waiters c))))
         \<and> (\<exists>scanned. waiters c = scanned @ waiters c1
               \<and> filter (\<lambda>f. \<not> future_done w f) scanned = take (nat n) (filter (\<lambda>f. \<not> future_done w f) (waiters c))
               \<and> (waiters c1 = [] \<or> length (filter (\<lambda>f. \<not> future_done w f) scanned) = nat n)
               \<and> (scanned = [] \<or> waiters c1 = [] \<or> \<not> future_done w (last scanned)))
         \<and> timeouts c1 = timeouts c"
    unfolding cn prod.case using W d l by blast
next
  show "locks_wf (Condition_run ops (Condition_init, world0))"
    by (rule Condition_run_wf [OF Condition_init_wf])
qed

theorem notify_wakes_first_live_waiters_witness:
  "(locks_wf (Condition_run [Wait None, Wait (Some (Timedelta 1)), Wait None, ConditionTimeout 0]
            (Condition_init, world0)) \<and> (0::int) \<le> 2)
   \<and> map (fstate_of (snd (Condition_run [Wait None, Wait (Some (Timedelta 1)), Wait None, ConditionTimeout 0]
            (Condition_init, world0)))) [0, 1, 2] = [Pending, Resolved False, Pending]
   \<and> map (fstate_of (snd (Condition_notify 2 (Condition_run [Wait None, Wait (Some (Timedelta 1)), Wait None, ConditionTimeout 0]
            (Condition_init, world0))))) [0, 1, 2]
       = [Resolved True, Resolved False, Resolved True]
   \<and> (case Condition_notify 2 (fst (Condition_run [Wait None, Wait (Some (Timedelta 1)), Wait None, ConditionTimeout 0]
            (Condition_init, world0)), snd (Condition_run [Wait None, Wait (Some (Timedelta 1)), Wait None, ConditionTimeout 0]
            (Condition_init, world0))) of (c1, w1) \<Rightarrow>
         (\<forall>g. fstate_of w1 g =
                 (if g \<in> set (take (nat 2) (filter (\<lambda>f. \<not> future_done (snd (Condition_run [Wait None, Wait (Some (Timedelta 1)), Wait None, ConditionTimeout 0]
            (Condition_init, world0))) f) (waiters (fst (Condition_run [Wait None, Wait (Some (Timedelta 1)), Wait None, ConditionTimeout 0]
            (Condition_init, world0))))))
                  then Resolved True else fstate_of (snd (Condition_run [Wait None, Wait (Some (Timedelta 1)), Wait None, ConditionTimeout 0]
            (Condition_init, world0))) g))
         \<and> distinct (take (nat 2) (filter (\<lambda>f. \<not> future_done (snd (Condition_run [Wait None, Wait (Some (Timedelta 1)), Wait None, ConditionTimeout 0]
            (Condition_init, world0))) f) (waiters (fst (Condition_run [Wait None, Wait (Some (Timedelta 1)), Wait None, ConditionTimeout 0]
            (Condition_init, world0))))))
         \<and> int (length (take (nat 2) (filter (\<lambda>f. \<not> future_done (snd (Condition_run [Wait None, Wait (Some (Timedelta 1)), Wait None, ConditionTimeout 0]
            (Condition_init, world0))) f) (waiters (fst (Condition_run [Wait None, Wait (Some (Timedelta 1)), Wait None, ConditionTimeout 0]
            (Condition_init, world0)))))))
             = min 2 (int (length (filter (\<lambda>f. \<not> future_done (snd (Condition_run [Wait None, Wait (Some (Timedelta 1)), Wait None, ConditionTimeout 0]
            (Condition_init, world0))) f) (waiters (fst (Condition_run [Wait None, Wait (Some (Timedelta 1)), Wait None, ConditionTimeout 0]
            (Condition_init, world0)))))))
         \<and> (\<exists>scanned. waiters (fst (Condition_run [Wait None, Wait (Some (Timedelta 1)), Wait None, ConditionTimeout 0]
            (Condition_init, world0))) = scanned @ waiters c1
               \<and> filter (\<lambda>f. \<not> future_done (snd (Condition_run [Wait None, Wait (Some (Timedelta 1)), Wait None, ConditionTimeout 0]
            (Condition_init, world0))) f) scanned
                   = take (nat 2) (filter (\<lambda>f. \<not> future_done (snd (Condition_run [Wait None, Wait (Some (Timedelta 1)), Wait None, ConditionTimeout 0]
            (Condition_init, world0))) f) (waiters (fst (Condition_run [Wait None, Wait (Some (Timedelta 1)), Wait None, ConditionTimeout 0]
            (Condition_init, world0)))))
               \<and> (waiters c1 = [] \<or> length (filter (\<lambda>f. \<not> future_done (snd (Condition_run [Wait None, Wait (Some (Timedelta 1)), Wait None, ConditionTimeout 0]
            (Condition_init, world0))) f) scanned) = nat 2)
               \<and> (scanned = [] \<or> waiters c1 = [] \<or> \<not> future_done (snd (Condition_run [Wait None, Wait (Some (Timedelta 1)), Wait None, ConditionTimeout 0]
            (Condition_init, world0))) (last scanned)))
         \<and> timeouts c1 = timeouts (fst (Condition_run [Wait None, Wait (Some (Timedelta 1)), Wait None, ConditionTimeout 0]
            (Condition_init, world0))))"
  (is "?A \<and> ?E1 \<and> ?E2 \<and> ?C")
proof -
  have a: ?A using Condition_run_wf [OF Condition_init_wf] by simp
  have a': "locks_wf (fst (Condition_run [Wait None, Wait (Some (Timedelta 1)), Wait None, ConditionTimeout 0]
            (Condition_init, world0)), snd (Condition_run [Wait None, Wait (Some (Timedelta 1)), Wait None, ConditionTimeout 0]
            (Condition_init, world0))) \<and> (0::int) \<le> 2" using a by simp
  have e1: ?E1 by (simp add: condition_eval)
  have e2: ?E2 by (simp add: condition_eval)
  have c: ?C
    using notify_wakes_first_live_waiters [of "fst (Condition_run [Wait None, Wait (Some (Timedelta 1)), Wait None, ConditionTimeout 0]
            (Condition_init, world0))" "snd (Condition_run [Wait None, Wait (Some (Timedelta 1)), Wait None, ConditionTimeout 0]
            (Condition_init, world0))" 2, THEN conjunct1] a'
    by (rule mp)
  show ?thesis by (rule conjI [OF a conjI [OF e1 conjI [OF e2 c]]])
qed

text \<open>
  Claim C6 as stated ("for every \<open>n\<close>") fails for a negative \<open>n\<close>: the test \<^verbatim>\<open>while n\<close>
  never sees 0, so \<^verbatim>\<open>notify(-1)\<close> wakes every live waiter. With two waiters waiting it
  resolves both, where \<open>min n live\<close> is \<open>-1\<close>.
\<close>

theorem notify_negative_counterexample:
  "map (fstate_of (snd (Condition_run [Wait None, Wait None] (Condition_init, world0)))) [0, 1]
     = [Pending, Pending]
   \<and> waiters (fst (Condition_run [Wait None, Wait None] (Condition_init, world0))) = [0, 1]
   \<and> map (fstate_of (snd (Condition_notify (- 1)
            (Condition_run [Wait None, Wait None] (Condition_init, world0))))) [0, 1]
     = [Resolved True, Resolved True]
   \<and> int (length (filter
          (\<lambda>g. fstate_of (snd (Condition_run [Wait None, Wait None] (Condition_init, world0))) g = Pending
               \<and> fstate_of (snd (Condition_notify (- 1) (Condition_run [Wait None, Wait None] (Condition_init, world0)))) g = Resolved True)
          (waiters (fst (Condition_run [Wait None, Wait None] (Condition_init, world0))))))
       = 2
   \<and> min (- 1) (int (length (filter (\<lambda>f. \<not> future_done (snd (Condition_run [Wait None, Wait None] (Condition_init, world0))) f) (waiters (fst (Condition_run [Wait None, Wait None] (Condition_init, world0))))))) = - 1"
  by (simp add: condition_eval)

subsection \<open>\<^verbatim>\<open>Semaphore\<close>: what each call does\<close>

lemma Semaphore_acquire_free:
  assumes "sem_value s > 0" and "Semaphore_acquire tmo (s, w) = (waiter, s1, w1)"
  shows "waiter = length (futures w)" and "s1 = s\<lparr>sem_value := sem_value s - 1\<rparr>"
    and "w1 = w\<lparr>futures := futures w @ [\<lparr>fstate = Resolved ReleasingContextManager, callbacks = []\<rparr>]\<rparr>"
  using assms
  by (auto simp: Semaphore_acquire_def Future_def Let_def set_result_def set_outcome_def
        future_done_def fstate_of_def)

lemma Semaphore_acquire_falsy:
  assumes "\<not> sem_value s > 0" and "\<not> truthy tmo"
      and "Semaphore_acquire tmo (s, w) = (waiter, s1, w1)"
  shows "waiter = length (futures w)" and "s1 = s\<lparr>waiters := waiters s @ [waiter]\<rparr>"
    and "w1 = w\<lparr>futures := futures w @ [\<lparr>fstate = Pending, callbacks = []\<rparr>]\<rparr>"
  using assms
  by (auto simp: Semaphore_acquire_def Future_def Let_def split: option.splits)

lemma Semaphore_acquire_truthy:
  assumes "\<not> sem_value s > 0" and "truthy (Some t)"
      and "Semaphore_acquire (Some t) (s, w) = (waiter, s1, w1)"
  shows "waiter = length (futures w)" and "s1 = s\<lparr>waiters := waiters s @ [waiter]\<rparr>"
    and "w1 = \<lparr>futures = futures w @ [\<lparr>fstate = Pending, callbacks = [RemoveTimeout (next_handle w)]\<rparr>],
               scheduled = scheduled w @ [(next_handle w, t, SemaphoreOnTimeout waiter)],
               next_handle = Suc (next_handle w)\<rparr>"
  using assms
  by (auto simp: Semaphore_acquire_def Future_def Let_def add_timeout_def add_done_callback_def
        future_done_def fstate_of_def)

lemma Semaphore_acquire_props:
  assumes acq: "Semaphore_acquire tmo (s, w) = (waiter, s1, w1)"
  shows "waiter = length (futures w)"
    and "length (futures w1) = Suc (length (futures w))"
    and "g < length (futures w) \<Longrightarrow> futures w1 ! g = futures w ! g"
    and "sem_value s1 = (if sem_value s > 0 then sem_value s - 1 else sem_value s)"
    and "waiters s1 = (if sem_value s > 0 then waiters s else waiters s @ [waiter])"
    and "fstate_of w1 waiter = (if sem_value s > 0 then Resolved ReleasingContextManager else Pending)"
    and "locks_wf (s, w) \<Longrightarrow> locks_wf (s1, w1)"
    and "timeouts s1 = timeouts s"
proof -
  consider (free) "sem_value s > 0"
    | (falsy) "\<not> sem_value s > 0" "\<not> truthy tmo"
    | (truthy) t where "\<not> sem_value s > 0" "truthy tmo" "tmo = Some t"
    using truthy_Some by blast
  then have all: "waiter = length (futures w)
    \<and> length (futures w1) = Suc (length (futures w))
    \<and> (g < length (futures w) \<longrightarrow> futures w1 ! g = futures w ! g)
    \<and> sem_value s1 = (if sem_value s > 0 then sem_value s - 1 else sem_value s)
    \<and> waiters s1 = (if sem_value s > 0 then waiters s else waiters s @ [waiter])
    \<and> fstate_of w1 waiter = (if sem_value s > 0 then Resolved ReleasingContextManager else Pending)
    \<and> (locks_wf (s, w) \<longrightarrow> locks_wf (s1, w1))
    \<and> timeouts s1 = timeouts s"
  proof cases
    case free
    note F = Semaphore_acquire_free [OF free acq]
    show ?thesis using free
      unfolding locks_wf_def scheduled_ok_def cbs_ok_def list_all_iff F
      by (auto simp: less_Suc_eq nth_append fstate_of_def)
  next
    case falsy
    note F = Semaphore_acquire_falsy [OF falsy acq]
    show ?thesis using falsy(1)
      unfolding locks_wf_def scheduled_ok_def cbs_ok_def list_all_iff F
      by (auto simp: less_Suc_eq nth_append fstate_of_def)
  next
    case truthy
    note F = Semaphore_acquire_truthy [OF truthy(1) truthy(2) [unfolded truthy(3)] acq [unfolded truthy(3)]]
    show ?thesis using truthy(1)
      unfolding locks_wf_def scheduled_ok_def cbs_ok_def list_all_iff F
      by (auto simp: less_Suc_eq nth_append fstate_of_def)
  qed
  show "waiter = length (futures w)"
    and "length (futures w1) = Suc (length (futures w))"
    and "g < length (futures w) \<Longrightarrow> futures w1 ! g = futures w ! g"
    and "sem_value s1 = (if sem_value s > 0 then sem_value s - 1 else sem_value s)"
    and "waiters s1 = (if sem_value s > 0 then waiters s else waiters s @ [waiter])"
    and "fstate_of w1 waiter = (if sem_value s > 0 then Resolved ReleasingContextManager else Pending)"
    and "locks_wf (s, w) \<Longrightarrow> locks_wf (s1, w1)"
    and "timeouts s1 = timeouts s"
    using all by blast+
qed

lemma release_loop_props:
  "release_loop w ws = (rest, found) \<Longrightarrow>
     set rest \<subseteq> set ws \<and> (distinct ws \<longrightarrow> distinct rest)
     \<and> (case found of None \<Rightarrow> rest = [] \<and> list_all (future_done w) ws
         | Some p \<Rightarrow> \<not> future_done w p \<and> p \<in> set ws
             \<and> (\<exists>stale. ws = stale @ p # rest \<and> list_all (future_done w) stale))"
proof (induction ws)
  case Nil
  then show ?case by auto
next
  case (Cons x ws)
  show ?case
  proof (cases "future_done w x")
    case True
    then have "release_loop w ws = (rest, found)" using Cons.prems by simp
    from Cons.IH [OF this] show ?thesis using True
      by (cases found) (auto intro: exI [of _ "x # stale" for stale])
  next
    case False
    then have "rest = ws" "found = Some x" using Cons.prems by auto
    then show ?thesis using False by (auto intro: exI [of _ "[]"])
  qed
qed

lemma Semaphore_release_wf:
  assumes wf: "locks_wf (s, w)"
  shows "locks_wf (Semaphore_release (s, w))"
proof -
  obtain rest found where rl: "release_loop w (waiters s) = (rest, found)"
    by (cases "release_loop w (waiters s)")
  note R = release_loop_props [OF rl]
  have ok: "cbs_ok w" and v: "list_all (\<lambda>f. f < length (futures w)) (waiters s)"
    and so: "scheduled_ok w" and d: "distinct (waiters s)"
    using wf by (simp_all add: locks_wf_def)
  have vr: "list_all (\<lambda>f. f < length (futures w)) rest"
    using v R unfolding list_all_iff by auto
  show ?thesis
  proof (cases found)
    case None
    then show ?thesis using rl vr R d so ok
      by (simp add: Semaphore_release_def Let_def locks_wf_def)
  next
    case (Some p)
    then have pv: "p < length (futures w)" using R v unfolding list_all_iff by auto
    show ?thesis using rl Some vr R d set_outcome_scheduled_ok [OF so]
        set_outcome_cbs_ok [OF ok pv]
      by (simp add: Semaphore_release_def Let_def locks_wf_def set_result_def set_outcome_length)
  qed
qed

lemma Semaphore_fire_wf:
  assumes wf: "locks_wf (s, w)"
  shows "locks_wf (Semaphore_fire h (s, w))"
proof (cases "pop_timeout h w")
  case None
  then show ?thesis using wf by (simp add: Semaphore_fire_def)
next
  case (Some p)
  obtain cb w1 where p: "p = (cb, w1)" by (cases p)
  note P = locks_wf_pop [OF wf Some [unfolded p]]
  show ?thesis
  proof (cases cb)
    case (SemaphoreOnTimeout f)
    then have "f < length (futures w1)" using P(2) by simp
    from on_timeout_wf [OF P(1) this, of "Failed TimeoutError"] show ?thesis
      using Some p SemaphoreOnTimeout
      by (simp add: Semaphore_fire_def Semaphore_on_timeout_def set_exception_def Let_def)
  qed (use wf Some p in \<open>simp_all add: Semaphore_fire_def\<close>)
qed

lemma Semaphore_step_wf: "locks_wf sw \<Longrightarrow> locks_wf (Semaphore_step sw op)"
proof -
  assume wf: "locks_wf sw"
  obtain s w where sw: "sw = (s, w)" by (cases sw)
  show ?thesis
  proof (cases op)
    case (Acquire tmo)
    obtain waiter s1 w1 where a: "Semaphore_acquire tmo (s, w) = (waiter, s1, w1)"
      by (cases "Semaphore_acquire tmo (s, w)")
    from Semaphore_acquire_props(7) [OF a wf [unfolded sw]] a show ?thesis
      using Acquire sw by simp
  next
    case Release
    then show ?thesis using Semaphore_release_wf [OF wf [unfolded sw]] sw by simp
  next
    case (SemaphoreTimeout h)
    then show ?thesis using Semaphore_fire_wf [OF wf [unfolded sw]] sw by simp
  qed
qed

lemma Semaphore_run_wf: "locks_wf sw \<Longrightarrow> locks_wf (Semaphore_run ops sw)"
  unfolding Semaphore_run_def
  by (induction ops arbitrary: sw) (simp_all add: Semaphore_step_wf)

lemma Semaphore_init_wf: "Semaphore_init v = Inr s \<Longrightarrow> locks_wf (s, world0)"
  by (auto simp: Semaphore_init_def locks_wf_def world0_def scheduled_ok_def cbs_ok_def
        split: if_splits)

subsection \<open>FIFO hand-over of permits\<close>

lemma fstate_of_same: "futures w1 ! g = futures w ! g \<Longrightarrow> fstate_of w1 g = fstate_of w g"
  by (simp add: fstate_of_def)

lemma acquire_all_props:
  assumes "acquire_all tmos (s, w) = (fs, s1, w1)" and "0 \<le> sem_value s"
  shows "(length fs = length tmos \<and> (\<forall>i < length tmos. fs ! i = length (futures w) + i))
    \<and> length (futures w1) = length (futures w) + length tmos
    \<and> sem_value s1 = (if int (length tmos) \<le> sem_value s then sem_value s - int (length tmos) else 0)
    \<and> waiters s1 = waiters s @ drop (nat (sem_value s)) fs
    \<and> (\<forall>g < length (futures w). fstate_of w1 g = fstate_of w g)
    \<and> (\<forall>i < length tmos. fstate_of w1 (fs ! i) =
            (if i < nat (sem_value s) then Resolved ReleasingContextManager else Pending))
    \<and> (locks_wf (s, w) \<longrightarrow> locks_wf (s1, w1))"
  using assms
proof (induction tmos arbitrary: s w fs s1 w1)
  case Nil
  then show ?case by simp
next
  case (Cons tmo tmos)
  note aa = Cons.prems(1) and nn = Cons.prems(2)
  obtain f sa wa where a: "Semaphore_acquire tmo (s, w) = (f, sa, wa)"
    by (cases "Semaphore_acquire tmo (s, w)")
  obtain rest where r: "acquire_all tmos (sa, wa) = (rest, s1, w1)" and fs: "fs = f # rest"
    using aa a by (auto simp: Let_def split: prod.splits)
  note A = Semaphore_acquire_props [OF a]
  have nna: "0 \<le> sem_value sa" using A(4) nn by simp
  note IH = Cons.IH [OF r nna]
  note IH1 = IH [THEN conjunct1]
    and IH2 = IH [THEN conjunct2, THEN conjunct1]
    and IH3 = IH [THEN conjunct2, THEN conjunct2, THEN conjunct1]
    and IH4 = IH [THEN conjunct2, THEN conjunct2, THEN conjunct2, THEN conjunct1]
    and IH5 = IH [THEN conjunct2, THEN conjunct2, THEN conjunct2, THEN conjunct2, THEN conjunct1]
    and IH6 = IH [THEN conjunct2, THEN conjunct2, THEN conjunct2, THEN conjunct2, THEN conjunct2,
                  THEN conjunct1]
    and IH7 = IH [THEN conjunct2, THEN conjunct2, THEN conjunct2, THEN conjunct2, THEN conjunct2,
                  THEN conjunct2]
  have f: "f = length (futures w)" by (rule A(1))
  have c1: "length fs = length (tmo # tmos)
              \<and> (\<forall>i < length (tmo # tmos). fs ! i = length (futures w) + i)"
  proof (intro conjI allI impI)
    show "length fs = length (tmo # tmos)" using IH1 fs by simp
    fix i assume "i < length (tmo # tmos)"
    then show "fs ! i = length (futures w) + i"
      using IH1 A(2) fs f by (cases i) simp_all
  qed
  have c2: "length (futures w1) = length (futures w) + length (tmo # tmos)"
    using IH2 A(2) by simp
  have c3: "sem_value s1 = (if int (length (tmo # tmos)) \<le> sem_value s
              then sem_value s - int (length (tmo # tmos)) else 0)"
    using IH3 A(4) nn by auto
  have c4: "waiters s1 = waiters s @ drop (nat (sem_value s)) fs"
  proof (cases "sem_value s > 0")
    case True
    then have n: "nat (sem_value s) \<noteq> 0" "nat (sem_value s - 1) = nat (sem_value s) - 1"
      by simp_all
    have "drop (nat (sem_value s)) fs = drop (nat (sem_value s - 1)) rest"
      unfolding fs n(2) using n(1) by (simp add: drop_Cons')
    then show ?thesis using IH4 A(4,5) True by simp
  next
    case False
    then have "sem_value s = 0" using nn by simp
    then show ?thesis using IH4 A(4,5) fs by simp
  qed
  have c5: "\<forall>g < length (futures w). fstate_of w1 g = fstate_of w g"
  proof (intro allI impI)
    fix g assume g: "g < length (futures w)"
    then have "fstate_of w1 g = fstate_of wa g" using IH5 A(2) by simp
    also have "\<dots> = fstate_of w g" using A(3) [OF g] by (rule fstate_of_same)
    finally show "fstate_of w1 g = fstate_of w g" .
  qed
  have f0: "fstate_of w1 f = fstate_of wa f" using IH5 A(2) f by simp
  have c6: "\<forall>i < length (tmo # tmos). fstate_of w1 (fs ! i) =
          (if i < nat (sem_value s) then Resolved ReleasingContextManager else Pending)"
  proof (intro allI impI)
    fix i assume i: "i < length (tmo # tmos)"
    show "fstate_of w1 (fs ! i) =
          (if i < nat (sem_value s) then Resolved ReleasingContextManager else Pending)"
    proof (cases i)
      case 0
      then show ?thesis using f0 A(6) fs nn by auto
    next
      case (Suc j)
      then have j: "j < length tmos" using i by simp
      have "(Suc j < nat (sem_value s)) = (j < nat (sem_value sa))"
        using A(4) nn by auto
      then show ?thesis using IH6 j Suc fs by simp
    qed
  qed
  have c7: "locks_wf (s, w) \<longrightarrow> locks_wf (s1, w1)"
    using IH7 A(7) by blast
  show ?case
    by (rule conjI [OF c1 conjI [OF c2 conjI [OF c3 conjI [OF c4 conjI [OF c5 conjI [OF c6 c7]]]]]])
qed

lemma release_loop_stale:
  "list_all (future_done w) stale \<Longrightarrow> \<not> future_done w p \<Longrightarrow>
     release_loop w (stale @ p # ps) = (ps, Some p)"
  by (induction stale) simp_all

lemma Semaphore_release_live:
  assumes wf: "locks_wf (s, w)" and v0: "sem_value s = 0"
      and ws: "waiters s = stale @ p # ps"
      and st: "list_all (future_done w) stale" and lp: "\<not> future_done w p"
      and rel: "Semaphore_release (s, w) = (s1, w1)"
  shows "sem_value s1 = 0" and "waiters s1 = ps"
    and "fstate_of w1 g = (if g = p then Resolved ReleasingContextManager else fstate_of w g)"
    and "locks_wf (s1, w1)"
proof -
  have rl: "release_loop w (waiters s) = (ps, Some p)"
    unfolding ws by (rule release_loop_stale [OF st lp])
  have s1: "s1 = s\<lparr>sem_value := sem_value s + 1, waiters := ps, sem_value := sem_value s + 1 - 1\<rparr>"
    and w1: "w1 = set_result p ReleasingContextManager w"
    using rel rl by (simp_all add: Semaphore_release_def Let_def)
  show "sem_value s1 = 0" using v0 by (simp add: s1)
  show "waiters s1 = ps" by (simp add: s1)
  have ok: "cbs_ok w" and pv: "p < length (futures w)"
    using wf ws by (simp_all add: locks_wf_def)
  have "fstate_of w p = Pending" using lp by (simp add: future_done_def)
  then show "fstate_of w1 g = (if g = p then Resolved ReleasingContextManager else fstate_of w g)"
    unfolding w1 set_result_def using set_outcome_fstate_ok [OF ok pv, of _ g] by simp
  show "locks_wf (s1, w1)" using Semaphore_release_wf [OF wf] rel by simp
qed

lemma Semaphore_release_funpow:
  assumes "locks_wf (s, w)" and "sem_value s = 0"
      and "waiters s = stale @ ps"
      and "list_all (future_done w) stale" and "list_all (\<lambda>f. \<not> future_done w f) ps"
      and "k \<le> length ps"
      and "(Semaphore_release ^^ k) (s, w) = (s1, w1)"
  shows "sem_value s1 = 0
       \<and> filter (\<lambda>f. \<not> future_done w1 f) (waiters s1) = drop k ps
       \<and> (\<forall>g. fstate_of w1 g =
              (if g \<in> set (take k ps) then Resolved ReleasingContextManager else fstate_of w g))
       \<and> locks_wf (s1, w1)"
  using assms
proof (induction k arbitrary: s w stale ps)
  case 0
  then have e: "s1 = s" "w1 = w" by simp_all
  have "filter (\<lambda>f. \<not> future_done w f) (stale @ ps) = ps"
    using "0.prems"(4,5) by (simp add: list_all_iff filter_empty_conv filter_id_conv)
  then show ?case using "0.prems"(1,2,3) e by simp
next
  case (Suc k)
  then obtain p ps' where ps: "ps = p # ps'" by (cases ps) auto
  obtain sa wa where rel: "Semaphore_release (s, w) = (sa, wa)"
    by (cases "Semaphore_release (s, w)")
  have lp: "\<not> future_done w p" using Suc.prems(5) ps by simp
  note R = Semaphore_release_live [OF Suc.prems(1,2) Suc.prems(3) [unfolded ps] Suc.prems(4) lp rel]
  have d: "distinct (p # ps')" using Suc.prems(1,3) ps by (simp add: locks_wf_def)
  have live': "list_all (\<lambda>f. \<not> future_done wa f) ps'"
    using Suc.prems(5) d ps by (auto simp: list_all_iff future_done_def R(3))
  have fp: "(Semaphore_release ^^ k) (sa, wa) = (s1, w1)"
    using Suc.prems(7) rel by (simp add: funpow_swap1)
  have k: "k \<le> length ps'" using Suc.prems(6) ps by simp
  have wsa: "waiters sa = [] @ ps'" using R(2) by simp
  note IH = Suc.IH [OF R(4) R(1) wsa _ live' k fp]
  have IH': "sem_value s1 = 0
       \<and> filter (\<lambda>f. \<not> future_done w1 f) (waiters s1) = drop k ps'
       \<and> (\<forall>g. fstate_of w1 g =
              (if g \<in> set (take k ps') then Resolved ReleasingContextManager else fstate_of wa g))
       \<and> locks_wf (s1, w1)"
    by (rule IH) simp
  show ?case using IH' unfolding ps by (auto simp: R(3))
qed

lemma consecutive_take_drop:
  assumes "\<forall>i < length fs. fs ! i = base + i" and "v + k \<le> length fs"
  shows "set (take k (drop v fs)) = {base + v ..< base + v + k}"
proof -
  have len: "length (take k (drop v fs)) = k" using assms(2) by simp
  have nth: "take k (drop v fs) ! j = base + v + j" if "j < k" for j
    using that assms by (simp add: add.assoc)
  show ?thesis
  proof (intro set_eqI iffI)
    fix g assume "g \<in> set (take k (drop v fs))"
    then obtain j where "j < k" "take k (drop v fs) ! j = g"
      unfolding in_set_conv_nth len by blast
    then show "g \<in> {base + v ..< base + v + k}" using nth by auto
  next
    fix g assume g: "g \<in> {base + v ..< base + v + k}"
    then have j: "g - (base + v) < k" "base + v + (g - (base + v)) = g" by auto
    then have "take k (drop v fs) ! (g - (base + v)) = g" using nth by simp
    then show "g \<in> set (take k (drop v fs))"
      unfolding in_set_conv_nth len using j(1) by blast
  qed
qed

lemma consecutive_distinct:
  assumes "\<forall>i < length fs. fs ! i = base + i"
  shows "distinct fs"
  unfolding distinct_conv_nth using assms by simp

text \<open>
  Claim C2. Take a well-formed semaphore with \<open>v \<ge> 0\<close> permits and no live waiter (a
  fresh one, say), and let \<open>v + n\<close> calls of \<^verbatim>\<open>acquire\<close> follow, with any timeout arguments:
  the first \<open>v\<close> exhaust the permits and the next \<open>n\<close> are queued. After \<open>k \<le> n\<close> calls
  of \<^verbatim>\<open>release\<close> (no timeout having fired), the futures returned to the first \<open>v + k\<close>
  callers are resolved with the release handle and those of the other \<open>n - k\<close> are
  pending: each release resolves the oldest waiter still waiting, so waiter \<open>i\<close> is
  resolved one release before waiter \<open>i + 1\<close>. After each of these releases the counter
  is 0 again, so the permit is never available to a caller that did not wait, and the
  live waiters left are the later callers in their order.
\<close>

theorem semaphore_fifo_fairness:
  assumes wf: "locks_wf (s, w)" and nn: "0 \<le> sem_value s"
      and stale: "list_all (future_done w) (waiters s)"
      and acq: "acquire_all tmos (s, w) = (fs, sw1)"
      and len: "length tmos = nat (sem_value s) + n" and k: "k \<le> n"
  shows "case (Semaphore_release ^^ k) sw1 of (s2, w2) \<Rightarrow>
           map (fstate_of w2) fs
             = replicate (nat (sem_value s) + k) (Resolved ReleasingContextManager)
               @ replicate (n - k) Pending
           \<and> sem_value s2 = 0
           \<and> filter (\<lambda>f. \<not> future_done w2 f) (waiters s2) = drop (nat (sem_value s) + k) fs
           \<and> distinct fs"
proof -
  let ?v = "nat (sem_value s)"
  let ?base = "length (futures w)"
  obtain s1 w1 where sw1: "sw1 = (s1, w1)" by (cases sw1)
  note A = acquire_all_props [OF acq [unfolded sw1] nn]
  note A1 = A [THEN conjunct1]
    and A3 = A [THEN conjunct2, THEN conjunct2, THEN conjunct1]
    and A4 = A [THEN conjunct2, THEN conjunct2, THEN conjunct2, THEN conjunct1]
    and A5 = A [THEN conjunct2, THEN conjunct2, THEN conjunct2, THEN conjunct2, THEN conjunct1]
    and A6 = A [THEN conjunct2, THEN conjunct2, THEN conjunct2, THEN conjunct2, THEN conjunct2,
                THEN conjunct1]
    and A7 = A [THEN conjunct2, THEN conjunct2, THEN conjunct2, THEN conjunct2, THEN conjunct2,
                THEN conjunct2]
  have lt: "length fs = length tmos" by (rule A1 [THEN conjunct1])
  have lfs: "length fs = ?v + n" using lt len by simp
  have nth: "\<forall>i < length fs. fs ! i = ?base + i"
    using A1 [THEN conjunct2] unfolding lt .
  have v1: "sem_value s1 = 0" using A3 len nn by auto
  have ws1: "waiters s1 = waiters s @ drop ?v fs" by (rule A4)
  have old: "\<forall>g < ?base. fstate_of w1 g = fstate_of w g" by (rule A5)
  have st1: "\<forall>i < length fs. fstate_of w1 (fs ! i) =
            (if i < ?v then Resolved ReleasingContextManager else Pending)"
    using A6 unfolding lt .
  have wf1: "locks_wf (s1, w1)" using A7 wf by blast
  have "list_all (\<lambda>f. f < ?base) (waiters s)" using wf by (simp add: locks_wf_def)
  then have stale1: "list_all (future_done w1) (waiters s)"
    using stale old by (auto simp: list_all_iff future_done_def)
  have live1: "list_all (\<lambda>f. \<not> future_done w1 f) (drop ?v fs)"
  proof -
    have "\<not> future_done w1 g" if gs: "g \<in> set (drop ?v fs)" for g
    proof -
      obtain j where j: "j < length (drop ?v fs)" "drop ?v fs ! j = g"
        using gs unfolding in_set_conv_nth by blast
      then have "g = fs ! (?v + j)" "?v + j < length fs" by auto
      then show ?thesis using st1 by (simp add: future_done_def)
    qed
    then show ?thesis by (simp add: list_all_iff)
  qed
  have kl: "k \<le> length (drop ?v fs)" using k lfs by simp
  obtain s2 w2 where r: "(Semaphore_release ^^ k) (s1, w1) = (s2, w2)"
    by (cases "(Semaphore_release ^^ k) (s1, w1)")
  note F = Semaphore_release_funpow [OF wf1 v1 ws1 stale1 live1 kl r]
  have f1: "sem_value s2 = 0" using F by blast
  have f2: "filter (\<lambda>f. \<not> future_done w2 f) (waiters s2) = drop (?v + k) fs"
    using F by (simp add: add.commute)
  have f3: "fstate_of w2 g =
              (if g \<in> set (take k (drop ?v fs)) then Resolved ReleasingContextManager
               else fstate_of w1 g)" for g
    using F by blast
  have woken: "set (take k (drop ?v fs)) = {?base + ?v ..< ?base + ?v + k}"
    by (rule consecutive_take_drop [OF nth]) (use k lfs in simp)
  have m: "map (fstate_of w2) fs
             = replicate (?v + k) (Resolved ReleasingContextManager) @ replicate (n - k) Pending"
  proof (rule nth_equalityI)
    show "length (map (fstate_of w2) fs)
            = length (replicate (?v + k) (Resolved ReleasingContextManager) @ replicate (n - k) Pending)"
      using lfs k by simp
  next
    fix i assume "i < length (map (fstate_of w2) fs)"
    then have i: "i < length fs" by simp
    have fi: "fs ! i = ?base + i" using nth i by simp
    have l: "map (fstate_of w2) fs ! i = fstate_of w2 (?base + i)" using i fi by simp
    have s: "fstate_of w1 (?base + i) = (if i < ?v then Resolved ReleasingContextManager else Pending)"
      using st1 [rule_format, OF i] unfolding fi .
    have "fstate_of w2 (?base + i) = (if i < ?v + k then Resolved ReleasingContextManager else Pending)"
      unfolding f3 woken s by auto
    then show "map (fstate_of w2) fs ! i
            = (replicate (?v + k) (Resolved ReleasingContextManager) @ replicate (n - k) Pending) ! i"
      using l i lfs k by (simp add: nth_append)
  qed
  have d: "distinct fs" by (rule consecutive_distinct [OF nth])
  show ?thesis unfolding sw1 r prod.case using m f1 f2 d by blast
qed


lemmas semaphore_eval =
  Semaphore_run_def Semaphore_init_def world0_def
  Semaphore_acquire_def Semaphore_release_def Semaphore_fire_def Semaphore_on_timeout_def
  garbage_collect_def pop_timeout_def Future_def add_timeout_def add_done_callback_def
  remove_timeout_def set_result_def set_exception_def set_outcome_def future_done_def
  fstate_of_def Let_def

theorem semaphore_fifo_fairness_witness:
  "(locks_wf ((\<lparr>waiters = [], timeouts = 0, sem_value = 1\<rparr> :: Semaphore), world0 :: release_handle world) \<and> 0 \<le> sem_value (\<lparr>waiters = [], timeouts = 0, sem_value = 1\<rparr> :: Semaphore)
    \<and> list_all (future_done (world0 :: release_handle world)) (waiters (\<lparr>waiters = [], timeouts = 0, sem_value = 1\<rparr> :: Semaphore))
    \<and> acquire_all [None, None, Some (Timedelta 1), None] ((\<lparr>waiters = [], timeouts = 0, sem_value = 1\<rparr> :: Semaphore), world0) = (fst (acquire_all [None, None, Some (Timedelta 1), None] ((\<lparr>waiters = [], timeouts = 0, sem_value = 1\<rparr> :: Semaphore), world0)), snd (acquire_all [None, None, Some (Timedelta 1), None] ((\<lparr>waiters = [], timeouts = 0, sem_value = 1\<rparr> :: Semaphore), world0)))
    \<and> length [None, None, Some (Timedelta 1), None] = nat (sem_value (\<lparr>waiters = [], timeouts = 0, sem_value = 1\<rparr> :: Semaphore)) + 3 \<and> (2::nat) \<le> 3)
   \<and> fst (acquire_all [None, None, Some (Timedelta 1), None] ((\<lparr>waiters = [], timeouts = 0, sem_value = 1\<rparr> :: Semaphore), world0)) = [0, 1, 2, 3]
   \<and> map (fstate_of (snd ((Semaphore_release ^^ 2) (snd (acquire_all [None, None, Some (Timedelta 1), None] ((\<lparr>waiters = [], timeouts = 0, sem_value = 1\<rparr> :: Semaphore), world0)))))) [0, 1, 2, 3]
       = [Resolved ReleasingContextManager, Resolved ReleasingContextManager,
          Resolved ReleasingContextManager, Pending]
   \<and> (case (Semaphore_release ^^ 2) (snd (acquire_all [None, None, Some (Timedelta 1), None] ((\<lparr>waiters = [], timeouts = 0, sem_value = 1\<rparr> :: Semaphore), world0))) of (s2, w2) \<Rightarrow>
           map (fstate_of w2) (fst (acquire_all [None, None, Some (Timedelta 1), None] ((\<lparr>waiters = [], timeouts = 0, sem_value = 1\<rparr> :: Semaphore), world0)))
             = replicate (nat (sem_value (\<lparr>waiters = [], timeouts = 0, sem_value = 1\<rparr> :: Semaphore)) + 2) (Resolved ReleasingContextManager)
               @ replicate (3 - 2) Pending
           \<and> sem_value s2 = 0
           \<and> filter (\<lambda>f. \<not> future_done w2 f) (waiters s2) = drop (nat (sem_value (\<lparr>waiters = [], timeouts = 0, sem_value = 1\<rparr> :: Semaphore)) + 2) (fst (acquire_all [None, None, Some (Timedelta 1), None] ((\<lparr>waiters = [], timeouts = 0, sem_value = 1\<rparr> :: Semaphore), world0)))
           \<and> distinct (fst (acquire_all [None, None, Some (Timedelta 1), None] ((\<lparr>waiters = [], timeouts = 0, sem_value = 1\<rparr> :: Semaphore), world0))))"
  (is "?A \<and> ?E1 \<and> ?E2 \<and> ?C")
proof -
  have h1: "locks_wf ((\<lparr>waiters = [], timeouts = 0, sem_value = 1\<rparr> :: Semaphore), world0 :: release_handle world)"
    by (rule Semaphore_init_wf [of 1]) (simp add: Semaphore_init_def)
  have h2: "0 \<le> sem_value (\<lparr>waiters = [], timeouts = 0, sem_value = 1\<rparr> :: Semaphore)" by simp
  have h3: "list_all (future_done (world0 :: release_handle world)) (waiters (\<lparr>waiters = [], timeouts = 0, sem_value = 1\<rparr> :: Semaphore))" by simp
  have h4: "acquire_all [None, None, Some (Timedelta 1), None] ((\<lparr>waiters = [], timeouts = 0, sem_value = 1\<rparr> :: Semaphore), world0) = (fst (acquire_all [None, None, Some (Timedelta 1), None] ((\<lparr>waiters = [], timeouts = 0, sem_value = 1\<rparr> :: Semaphore), world0)), snd (acquire_all [None, None, Some (Timedelta 1), None] ((\<lparr>waiters = [], timeouts = 0, sem_value = 1\<rparr> :: Semaphore), world0)))"
    by simp
  have h5: "length [None, None, Some (Timedelta 1), None] = nat (sem_value (\<lparr>waiters = [], timeouts = 0, sem_value = 1\<rparr> :: Semaphore)) + 3" by simp
  have h6: "(2::nat) \<le> 3" by simp
  have a: ?A using h1 h2 h3 h4 h5 h6 by (intro conjI)
  have two: "(2::nat) = Suc (Suc 0)" by simp
  have e1: ?E1 by (simp add: semaphore_eval)
  have e2: ?E2 unfolding two by (simp add: semaphore_eval)
  have c: ?C by (rule semaphore_fifo_fairness [OF h1 h2 h3 h4 h5 h6])
  show ?thesis by (rule conjI [OF a conjI [OF e1 conjI [OF e2 c]]])
qed

subsection \<open>Falsy timeouts\<close>

lemma Condition_wait_falsy_eq:
  "\<not> truthy tmo \<Longrightarrow> Condition_wait tmo cw = Condition_wait None cw"
  by (cases tmo) (simp_all add: Condition_wait_def Let_def split: prod.splits)

lemma Semaphore_acquire_falsy_eq:
  "\<not> truthy tmo \<Longrightarrow> Semaphore_acquire tmo sw = Semaphore_acquire None sw"
  by (cases tmo) (simp_all add: Semaphore_acquire_def Let_def split: prod.splits)

lemma Lock_acquire_falsy_eq:
  "\<not> truthy tmo \<Longrightarrow> Lock_acquire tmo lw = Lock_acquire None lw"
  by (simp add: Lock_acquire_def Semaphore_acquire_falsy_eq [of tmo])

lemma set_timeout_falsy: "\<not> truthy tmo \<Longrightarrow> set_timeout f tmo w = w"
  by (cases tmo) (simp_all add: set_timeout_def)

lemma put_falsy_eq: "\<not> truthy tmo \<Longrightarrow> put item tmo qw = put item None qw"
  by (cases "put_nowait item qw")
     (auto simp: put_def Let_def set_timeout_falsy split: prod.splits sum.splits exn.splits)

lemma get_falsy_eq: "\<not> truthy tmo \<Longrightarrow> get tmo qw = get None qw"
  by (cases "get_nowait (fst qw, snd (Future (snd qw)))")
     (auto simp: get_def Let_def set_timeout_falsy split: prod.splits sum.splits exn.splits)

subsection \<open>A waiter without a timeout: conditions\<close>

lemma untimed_fresh: "scheduled_ok w \<Longrightarrow> untimed w (length (futures w))"
  by (auto simp: scheduled_ok_def untimed_def list_all_iff)

lemma untimed_subset:
  "set (scheduled w1) \<subseteq> set (scheduled w) \<Longrightarrow> untimed w f \<Longrightarrow> untimed w1 f"
  by (auto simp: untimed_def list_all_iff)

lemma Condition_wait_untimed:
  assumes "Condition_wait tmo (c, w) = (g, c1, w1)" and "f < length (futures w)"
  shows "untimed w f \<Longrightarrow> untimed w1 f" and "fstate_of w1 f = fstate_of w f"
    and "length (futures w) \<le> length (futures w1)"
proof -
  have all: "(untimed w f \<longrightarrow> untimed w1 f) \<and> fstate_of w1 f = fstate_of w f
             \<and> length (futures w) \<le> length (futures w1)"
  proof (cases "truthy tmo")
    case False
    note F = Condition_wait_falsy [OF False assms(1)]
    show ?thesis using assms(2) by (simp add: F untimed_def fstate_of_def nth_append)
  next
    case True
    then obtain t where t: "tmo = Some t" using truthy_Some by blast
    note T = Condition_wait_truthy [OF True [unfolded t] assms(1) [unfolded t]]
    show ?thesis using assms(2) by (simp add: T untimed_def fstate_of_def nth_append)
  qed
  show "untimed w f \<Longrightarrow> untimed w1 f" and "fstate_of w1 f = fstate_of w f"
    and "length (futures w) \<le> length (futures w1)"
    using all by blast+
qed

lemma Condition_step_notified_only:
  assumes wf: "locks_wf cw" and n: "notified_only (snd cw) f"
  shows "notified_only (snd (Condition_step cw op)) f"
proof -
  obtain c w where cw: "cw = (c, w)" by (cases cw)
  have fv: "f < length (futures w)" and ut: "untimed w f"
    and st: "fstate_of w f = Pending \<or> fstate_of w f = Resolved True"
    using n cw by (simp_all add: notified_only_def)
  have ok: "cbs_ok w" and v: "list_all (\<lambda>f. f < length (futures w)) (waiters c)"
    and so: "scheduled_ok w"
    using wf cw by (simp_all add: locks_wf_def)
  have notify: "notified_only (snd (Condition_notify k (c, w))) f" for k
  proof -
    obtain rest ws where nl: "notify_loop w k (waiters c) [] = (rest, ws)"
      by (cases "notify_loop w k (waiters c) []")
    let ?w1 = "foldl (\<lambda>w' waiter. set_result waiter True w') w ws"
    have cn: "Condition_notify k (c, w) = (c\<lparr>waiters := rest\<rparr>, ?w1)"
      by (simp add: Condition_notify_def nl)
    have vws: "list_all (\<lambda>f. f < length (futures w)) ws"
      using v notify_loop_subset [OF nl] unfolding list_all_iff by auto
    note F = foldl_set_result_ok [OF ok vws, of True]
    have "untimed ?w1 f" using F ut by (auto intro: untimed_subset)
    moreover have "fstate_of ?w1 f = Pending \<or> fstate_of ?w1 f = Resolved True"
      using F st by auto
    ultimately show ?thesis using F fv by (simp add: cn notified_only_def)
  qed
  show ?thesis
  proof (cases op)
    case (Wait tmo)
    obtain g c1 w1 where a: "Condition_wait tmo (c, w) = (g, c1, w1)"
      by (cases "Condition_wait tmo (c, w)")
    show ?thesis using Condition_wait_untimed [OF a fv] ut st fv Wait cw a
      by (simp add: notified_only_def)
  next
    case (Notify k)
    then show ?thesis using notify [of k] cw by simp
  next
    case NotifyAll
    then show ?thesis using notify [of "int (length (waiters c))"] cw
      by (simp add: Condition_notify_all_def)
  next
    case (ConditionTimeout h)
    show ?thesis
    proof (cases "pop_timeout h w")
      case None
      then show ?thesis using n cw ConditionTimeout by (simp add: Condition_fire_def)
    next
      case (Some p)
      obtain cb w1 where p: "p = (cb, w1)" by (cases p)
      note P = pop_timeout_props [OF Some [unfolded p]] pop_timeout_ok [OF Some [unfolded p] so ok]
      show ?thesis
      proof (cases cb)
        case (ConditionOnTimeout g)
        obtain t where "(h, t, cb) \<in> set (scheduled w)" using P(4) by blast
        then have gf: "g \<noteq> f" using ut ConditionOnTimeout by (auto simp: untimed_def list_all_iff)
        have gv: "g < length (futures w1)" using P(8) P(1) ConditionOnTimeout by simp
        let ?w2 = "set_outcome g (Resolved False) w1"
        have "fstate_of ?w2 f = fstate_of w1 f"
          using set_outcome_fstate_ok [OF P(7) gv, of "Resolved False" f] gf by simp
        moreover have "fstate_of w1 f = fstate_of w f" using P(1) by (simp add: fstate_of_def)
        moreover have "untimed ?w2 f"
          using set_outcome_scheduled_subset [of g "Resolved False" w1] P(2) ut
          by (auto intro: untimed_subset)
        ultimately show ?thesis
          using st fv P(1) Some p ConditionOnTimeout ConditionTimeout cw
          by (simp add: Condition_fire_def Condition_on_timeout_def set_result_def
                notified_only_def set_outcome_length Let_def)
      qed (use n cw ConditionTimeout Some p in \<open>simp_all add: Condition_fire_def\<close>)
    qed
  qed
qed

lemma Condition_run_notified_only:
  "locks_wf cw \<Longrightarrow> notified_only (snd cw) f \<Longrightarrow> notified_only (snd (Condition_run ops cw)) f"
  unfolding Condition_run_def
proof (induction ops arbitrary: cw)
  case Nil
  then show ?case by simp
next
  case (Cons op ops)
  show ?case
    using Cons.IH [OF Condition_step_wf [OF Cons.prems(1)]
                      Condition_step_notified_only [OF Cons.prems]]
    by simp
qed

subsection \<open>A waiter without a timeout: semaphores and locks\<close>

lemma Semaphore_acquire_never_timed_out:
  assumes a: "Semaphore_acquire tmo (s, w) = (g, s1, w1)" and n: "never_timed_out w f"
  shows "never_timed_out w1 f"
proof -
  have fv: "f < length (futures w)" and ut: "untimed w f"
    and st: "fstate_of w f \<noteq> Failed TimeoutError"
    using n by (simp_all add: never_timed_out_def)
  consider (free) "sem_value s > 0"
    | (falsy) "\<not> sem_value s > 0" "\<not> truthy tmo"
    | (truthy) t where "\<not> sem_value s > 0" "truthy tmo" "tmo = Some t"
    using truthy_Some by blast
  then show ?thesis
  proof cases
    case free
    note F = Semaphore_acquire_free [OF free a]
    show ?thesis using fv ut st
      by (simp add: F never_timed_out_def untimed_def fstate_of_def nth_append)
  next
    case falsy
    note F = Semaphore_acquire_falsy [OF falsy a]
    show ?thesis using fv ut st
      by (simp add: F never_timed_out_def untimed_def fstate_of_def nth_append)
  next
    case truthy
    note F = Semaphore_acquire_truthy [OF truthy(1) truthy(2) [unfolded truthy(3)] a [unfolded truthy(3)]]
    show ?thesis using fv ut st
      by (simp add: F never_timed_out_def untimed_def fstate_of_def nth_append)
  qed
qed

lemma set_result_never_timed_out:
  assumes ok: "cbs_ok w" and pv: "p < length (futures w)" and n: "never_timed_out w f"
  shows "never_timed_out (set_result p v w) f"
proof -
  have "fstate_of (set_result p v w) f \<noteq> Failed TimeoutError"
    using n set_outcome_fstate_ok [OF ok pv, of "Resolved v" f]
    by (auto simp: set_result_def never_timed_out_def)
  moreover have "untimed (set_result p v w) f"
    using n set_outcome_scheduled_subset [of p "Resolved v" w]
    by (auto simp: set_result_def never_timed_out_def intro: untimed_subset)
  ultimately show ?thesis using n
    by (simp add: never_timed_out_def set_result_def set_outcome_length)
qed

lemma Semaphore_release_never_timed_out:
  assumes wf: "locks_wf (s, w)" and n: "never_timed_out w f"
  shows "never_timed_out (snd (Semaphore_release (s, w))) f"
proof -
  obtain rest found where rl: "release_loop w (waiters s) = (rest, found)"
    by (cases "release_loop w (waiters s)")
  note R = release_loop_props [OF rl]
  have ok: "cbs_ok w" and v: "list_all (\<lambda>f. f < length (futures w)) (waiters s)"
    using wf by (simp_all add: locks_wf_def)
  show ?thesis
  proof (cases found)
    case None
    then show ?thesis using rl n by (simp add: Semaphore_release_def Let_def)
  next
    case (Some p)
    then have pv: "p < length (futures w)" using R v unfolding list_all_iff by auto
    show ?thesis using rl Some set_result_never_timed_out [OF ok pv n]
      by (simp add: Semaphore_release_def Let_def)
  qed
qed

lemma Semaphore_fire_never_timed_out:
  assumes wf: "locks_wf (s, w)" and n: "never_timed_out w f"
  shows "never_timed_out (snd (Semaphore_fire h (s, w))) f"
proof (cases "pop_timeout h w")
  case None
  then show ?thesis using n by (simp add: Semaphore_fire_def)
next
  case (Some p)
  obtain cb w1 where p: "p = (cb, w1)" by (cases p)
  have fv: "f < length (futures w)" and ut: "untimed w f"
    and st: "fstate_of w f \<noteq> Failed TimeoutError"
    using n by (simp_all add: never_timed_out_def)
  have ok: "cbs_ok w" and so: "scheduled_ok w" using wf by (simp_all add: locks_wf_def)
  note P = pop_timeout_props [OF Some [unfolded p]] pop_timeout_ok [OF Some [unfolded p] so ok]
  show ?thesis
  proof (cases cb)
    case (SemaphoreOnTimeout g)
    obtain t where "(h, t, cb) \<in> set (scheduled w)" using P(4) by blast
    then have gf: "g \<noteq> f" using ut SemaphoreOnTimeout by (auto simp: untimed_def list_all_iff)
    have gv: "g < length (futures w1)" using P(8) P(1) SemaphoreOnTimeout by simp
    let ?w2 = "set_outcome g (Failed TimeoutError) w1"
    have "fstate_of ?w2 f = fstate_of w1 f"
      using set_outcome_fstate_ok [OF P(7) gv, of "Failed TimeoutError" f] gf by simp
    moreover have "fstate_of w1 f = fstate_of w f" using P(1) by (simp add: fstate_of_def)
    moreover have "untimed ?w2 f"
      using set_outcome_scheduled_subset [of g "Failed TimeoutError" w1] P(2) ut
      by (auto intro: untimed_subset)
    ultimately show ?thesis
      using st fv P(1) Some p SemaphoreOnTimeout
      by (simp add: Semaphore_fire_def Semaphore_on_timeout_def set_exception_def
            never_timed_out_def set_outcome_length Let_def)
  qed (use n Some p in \<open>simp_all add: Semaphore_fire_def\<close>)
qed

lemma Semaphore_step_never_timed_out:
  assumes wf: "locks_wf sw" and n: "never_timed_out (snd sw) f"
  shows "never_timed_out (snd (Semaphore_step sw op)) f"
proof -
  obtain s w where sw: "sw = (s, w)" by (cases sw)
  show ?thesis
  proof (cases op)
    case (Acquire tmo)
    obtain g s1 w1 where a: "Semaphore_acquire tmo (s, w) = (g, s1, w1)"
      by (cases "Semaphore_acquire tmo (s, w)")
    show ?thesis using Semaphore_acquire_never_timed_out [OF a] n a Acquire sw by simp
  next
    case Release
    then show ?thesis using Semaphore_release_never_timed_out [OF wf [unfolded sw]] n sw by simp
  next
    case (SemaphoreTimeout h)
    then show ?thesis using Semaphore_fire_never_timed_out [OF wf [unfolded sw]] n sw by simp
  qed
qed

lemma Semaphore_run_never_timed_out:
  "locks_wf sw \<Longrightarrow> never_timed_out (snd sw) f \<Longrightarrow> never_timed_out (snd (Semaphore_run ops sw)) f"
  unfolding Semaphore_run_def
proof (induction ops arbitrary: sw)
  case Nil
  then show ?case by simp
next
  case (Cons op ops)
  show ?case
    using Cons.IH [OF Semaphore_step_wf [OF Cons.prems(1)]
                      Semaphore_step_never_timed_out [OF Cons.prems]]
    by simp
qed

text \<open>A step of a bounded semaphore is a step of the semaphore, or a release that raised
  and changed nothing; a step of a lock is that step of its \<^verbatim>\<open>_block\<close>.\<close>

lemma BoundedSemaphore_step_cases:
  "BoundedSemaphore_step sw op = Semaphore_step sw op \<or> BoundedSemaphore_step sw op = sw"
  by (cases op; cases sw) (simp_all add: BoundedSemaphore_release_def)

lemma Lock_step_block:
  "(block (fst (Lock_step lw op)), snd (Lock_step lw op))
     = BoundedSemaphore_step (block (fst lw), snd lw) op"
proof (cases lw)
  case (Pair l w)
  show ?thesis
  proof (cases op)
    case (Acquire tmo)
    then show ?thesis using Pair by (simp add: Lock_acquire_def split: prod.splits)
  next
    case Release
    then show ?thesis using Pair
      by (simp add: Lock_release_def BoundedSemaphore_release_def split: prod.splits)
  next
    case (SemaphoreTimeout h)
    then show ?thesis using Pair by (simp split: prod.splits)
  qed
qed

lemma Lock_run_block:
  "(block (fst (Lock_run ops lw)), snd (Lock_run ops lw))
     = BoundedSemaphore_run ops (block (fst lw), snd lw)"
  unfolding Lock_run_def BoundedSemaphore_run_def
proof (induction ops arbitrary: lw)
  case Nil
  show ?case by simp
next
  case (Cons op ops)
  show ?case using Cons [of "Lock_step lw op"] by (simp add: Lock_step_block)
qed

lemma BoundedSemaphore_run_invariants:
  assumes "locks_wf sw"
  shows "locks_wf (BoundedSemaphore_run ops sw)"
    and "never_timed_out (snd sw) f \<Longrightarrow> never_timed_out (snd (BoundedSemaphore_run ops sw)) f"
proof -
  have "locks_wf (BoundedSemaphore_run ops sw)
      \<and> (never_timed_out (snd sw) f \<longrightarrow> never_timed_out (snd (BoundedSemaphore_run ops sw)) f)"
    using assms unfolding BoundedSemaphore_run_def
  proof (induction ops arbitrary: sw)
    case Nil
    then show ?case by simp
  next
    case (Cons op ops)
    have wf1: "locks_wf (BoundedSemaphore_step sw op)"
      using BoundedSemaphore_step_cases [of sw op] Semaphore_step_wf [OF Cons.prems, of op]
        Cons.prems by auto
    have n1: "never_timed_out (snd sw) f \<Longrightarrow> never_timed_out (snd (BoundedSemaphore_step sw op)) f"
      using BoundedSemaphore_step_cases [of sw op]
        Semaphore_step_never_timed_out [OF Cons.prems, of f op] by auto
    show ?case using Cons.IH [OF wf1] n1 by simp
  qed
  then show "locks_wf (BoundedSemaphore_run ops sw)"
    and "never_timed_out (snd sw) f \<Longrightarrow> never_timed_out (snd (BoundedSemaphore_run ops sw)) f"
    by blast+
qed

subsection \<open>A waiter without a timeout: the store of a queue\<close>

lemma run_callback_callbacks:
  "callbacks (futures (run_callback out w cb) ! x) = callbacks (futures w ! x)"
proof (cases cb)
  case (RemoveTimeout h)
  then show ?thesis by (simp add: remove_timeout_def)
next
  case (ChainFuture r)
  show ?thesis
  proof (cases "r < length (futures w)")
    case True
    then show ?thesis using ChainFuture by (cases "x = r") simp_all
  next
    case False
    then show ?thesis using ChainFuture by (simp add: list_update_beyond)
  qed
qed

lemma foldl_run_callback_callbacks:
  "callbacks (futures (foldl (run_callback out) w cbs) ! x) = callbacks (futures w ! x)"
  by (induction cbs arbitrary: w) (simp_all add: run_callback_callbacks)

lemma set_outcome_callbacks:
  "callbacks (futures (set_outcome g out w) ! x) = callbacks (futures w ! x)
   \<or> callbacks (futures (set_outcome g out w) ! x) = []"
proof (cases "future_done w g")
  case True
  then show ?thesis by (simp add: set_outcome_def)
next
  case False
  show ?thesis
  proof (cases "x = g \<and> g < length (futures w)")
    case True
    then show ?thesis using False by (simp add: set_outcome_def foldl_run_callback_callbacks)
  next
    case nx: False
    then have "(futures w)[g := \<lparr>fstate = out, callbacks = []\<rparr>] ! x = futures w ! x"
      by (cases "g < length (futures w)") (auto simp: list_update_beyond)
    then show ?thesis using False by (simp add: set_outcome_def foldl_run_callback_callbacks)
  qed
qed

lemma run_callback_fstate:
  "fstate_of (run_callback out w cb) f = fstate_of w f \<or> fstate_of (run_callback out w cb) f = out"
proof (cases cb)
  case (RemoveTimeout h)
  then show ?thesis by (simp add: remove_timeout_def fstate_of_def)
next
  case (ChainFuture r)
  show ?thesis
  proof (cases "r < length (futures w)")
    case True
    then show ?thesis using ChainFuture by (cases "f = r") (simp_all add: fstate_of_def)
  next
    case False
    then show ?thesis using ChainFuture by (simp add: fstate_of_def list_update_beyond)
  qed
qed

lemma foldl_run_callback_fstate:
  "fstate_of (foldl (run_callback out) w cbs) f = fstate_of w f
   \<or> fstate_of (foldl (run_callback out) w cbs) f = out"
proof (induction cbs arbitrary: w)
  case Nil
  show ?case by simp
next
  case (Cons cb cbs)
  show ?case using Cons [of "run_callback out w cb"] run_callback_fstate [of out w cb f]
    by (auto simp: foldl_run_callback_keeps)
qed

lemma set_outcome_fstate_choice:
  "fstate_of (set_outcome g out w) f = fstate_of w f \<or> fstate_of (set_outcome g out w) f = out"
proof (cases "future_done w g")
  case True
  then show ?thesis by (simp add: set_outcome_def)
next
  case False
  let ?w0 = "w\<lparr>futures := (futures w)[g := \<lparr>fstate = out, callbacks = []\<rparr>]\<rparr>"
  have "fstate_of ?w0 f = fstate_of w f \<or> fstate_of ?w0 f = out"
    by (cases "g < length (futures w)"; cases "f = g")
       (simp_all add: fstate_of_def list_update_beyond)
  then show ?thesis
    using False foldl_run_callback_fstate [of out ?w0 "callbacks (futures w ! g)" f]
    by (auto simp: set_outcome_def)
qed

lemma set_outcome_timeouts_ok:
  assumes "timeouts_ok w"
  shows "timeouts_ok (set_outcome g out w)"
proof -
  let ?w1 = "set_outcome g out w"
  have sub: "set (scheduled ?w1) \<subseteq> set (scheduled w)" by (rule set_outcome_scheduled_subset)
  have so: "scheduled_ok ?w1"
    using assms by (auto simp: timeouts_ok_def intro: set_outcome_scheduled_ok)
  have "list_all removes_timeout (callbacks (futures ?w1 ! waiter_of (snd (snd e))))"
    if e: "e \<in> set (scheduled ?w1)" for e
  proof -
    have "list_all removes_timeout (callbacks (futures w ! waiter_of (snd (snd e))))"
      using assms e sub by (auto simp: timeouts_ok_def list_all_iff)
    then show ?thesis
      using set_outcome_callbacks [of g out w "waiter_of (snd (snd e))"] by auto
  qed
  then show ?thesis using so by (simp add: timeouts_ok_def list_all_iff)
qed

lemma set_result_evolves:
  assumes "timeouts_ok w"
  shows "evolves w (set_result g v w)"
proof -
  have "never_timed_out (set_result g v w) f" if n: "never_timed_out w f" for f
  proof -
    have "fstate_of (set_result g v w) f \<noteq> Failed TimeoutError"
      using n set_outcome_fstate_choice [of g "Resolved v" w f]
      by (auto simp: set_result_def never_timed_out_def)
    moreover have "untimed (set_result g v w) f"
      using n set_outcome_scheduled_subset [of g "Resolved v" w]
      by (auto simp: set_result_def never_timed_out_def intro: untimed_subset)
    ultimately show ?thesis using n
      by (simp add: never_timed_out_def set_result_def set_outcome_length)
  qed
  then show ?thesis
    using set_outcome_timeouts_ok [OF assms]
    by (simp add: evolves_def set_result_def set_outcome_length)
qed

lemma evolves_refl: "timeouts_ok w \<Longrightarrow> evolves w w"
  by (simp add: evolves_def)

lemma evolves_trans: "evolves w w1 \<Longrightarrow> evolves w1 w2 \<Longrightarrow> evolves w w2"
  by (auto simp: evolves_def)

lemma Future_timeouts_ok:
  assumes "Future w = (g, w1)" and "timeouts_ok w"
  shows "timeouts_ok w1"
proof -
  have so: "scheduled_ok w1"
    using assms by (auto simp: timeouts_ok_def intro: Future_scheduled_ok)
  have f: "futures w1 = futures w @ [\<lparr>fstate = Pending, callbacks = []\<rparr>]"
    and s: "scheduled w1 = scheduled w"
    using assms(1) by (auto simp: Future_def)
  have "futures w1 ! waiter_of (snd (snd e)) = futures w ! waiter_of (snd (snd e))"
    if "e \<in> set (scheduled w)" for e
    using that assms(2) by (auto simp: f timeouts_ok_def scheduled_ok_def list_all_iff nth_append)
  then show ?thesis using assms(2) so
    by (simp add: timeouts_ok_def s list_all_iff)
qed

lemma Future_evolves:
  assumes "Future w = (g, w1)" and "timeouts_ok w"
  shows "evolves w w1" and "never_timed_out w1 g"
proof -
  have f: "futures w1 = futures w @ [\<lparr>fstate = Pending, callbacks = []\<rparr>]"
    and s: "scheduled w1 = scheduled w" and g: "g = length (futures w)"
    using assms(1) by (auto simp: Future_def)
  have "never_timed_out w1 x" if "never_timed_out w x" for x
    using that by (simp add: never_timed_out_def untimed_def f s fstate_of_def nth_append)
  then show "evolves w w1"
    using Future_timeouts_ok [OF assms] by (simp add: evolves_def f)
  have "untimed w g" unfolding g
    using assms(2) by (auto simp: timeouts_ok_def intro: untimed_fresh)
  then show "never_timed_out w1 g"
    by (simp add: never_timed_out_def untimed_def f s g fstate_of_def)
qed

lemma set_timeout_fresh:
  assumes tk: "timeouts_ok w" and fv: "fut < length (futures w)"
      and fp: "futures w ! fut = \<lparr>fstate = Pending, callbacks = []\<rparr>"
  shows "timeouts_ok (set_timeout fut tmo w)"
    and "length (futures (set_timeout fut tmo w)) = length (futures w)"
    and "f \<noteq> fut \<Longrightarrow> never_timed_out w f \<Longrightarrow> never_timed_out (set_timeout fut tmo w) f"
    and "\<not> truthy tmo \<Longrightarrow> set_timeout fut tmo w = w"
    and "fstate_of (set_timeout fut tmo w) f = fstate_of w f"
proof -
  have all: "timeouts_ok (set_timeout fut tmo w)
     \<and> length (futures (set_timeout fut tmo w)) = length (futures w)
     \<and> (f \<noteq> fut \<longrightarrow> never_timed_out w f \<longrightarrow> never_timed_out (set_timeout fut tmo w) f)
     \<and> fstate_of (set_timeout fut tmo w) f = fstate_of w f"
  proof (cases "truthy tmo")
    case False
    then show ?thesis using tk by (simp add: set_timeout_falsy)
  next
    case True
    then obtain t where t: "tmo = Some t" using truthy_Some by blast
    let ?w3 = "\<lparr>futures = (futures w)[fut := \<lparr>fstate = Pending, callbacks = [RemoveTimeout (next_handle w)]\<rparr>],
                scheduled = scheduled w @ [(next_handle w, t, QueueOnTimeout fut)],
                next_handle = Suc (next_handle w)\<rparr>"
    have e: "set_timeout fut tmo w = ?w3"
      using True fp fv
      by (simp add: t set_timeout_def add_timeout_def add_done_callback_def future_done_def
            fstate_of_def Let_def)
    have cb: "list_all removes_timeout (callbacks (futures ?w3 ! x))"
      if "list_all removes_timeout (callbacks (futures w ! x))" for x
      using that fv by (cases "x = fut") simp_all
    have tk3: "timeouts_ok ?w3"
      using tk fv cb fp unfolding timeouts_ok_def scheduled_ok_def list_all_iff
      by auto
    have st: "fstate_of ?w3 f = fstate_of w f"
      using fv fp by (cases "f = fut") (simp_all add: fstate_of_def)
    have "never_timed_out ?w3 f" if "f \<noteq> fut" "never_timed_out w f"
      using that st by (simp add: never_timed_out_def untimed_def)
    then show ?thesis using tk3 st by (simp add: e)
  qed
  show "timeouts_ok (set_timeout fut tmo w)"
    and "length (futures (set_timeout fut tmo w)) = length (futures w)"
    and "f \<noteq> fut \<Longrightarrow> never_timed_out w f \<Longrightarrow> never_timed_out (set_timeout fut tmo w) f"
    and "fstate_of (set_timeout fut tmo w) f = fstate_of w f"
    using all by blast+
  show "\<not> truthy tmo \<Longrightarrow> set_timeout fut tmo w = w" by (rule set_timeout_falsy)
qed

lemma pop_timeout_timeouts_ok:
  assumes "pop_timeout h w = Some (cb, w1)" and "timeouts_ok w"
  shows "timeouts_ok w1" and "waiter_of cb < length (futures w1)"
    and "list_all removes_timeout (callbacks (futures w1 ! waiter_of cb))"
    and "never_timed_out w f \<Longrightarrow> never_timed_out w1 f \<and> waiter_of cb \<noteq> f"
proof -
  note P = pop_timeout_props [OF assms(1)]
  obtain t where t: "(h, t, cb) \<in> set (scheduled w)" using P(4) by blast
  show "timeouts_ok w1"
    using assms(2) P(1,2) unfolding timeouts_ok_def scheduled_ok_def list_all_iff by auto
  show "waiter_of cb < length (futures w1)"
    using assms(2) t P(1) unfolding timeouts_ok_def scheduled_ok_def list_all_iff by auto
  show "list_all removes_timeout (callbacks (futures w1 ! waiter_of cb))"
    using assms(2) t P(1) unfolding timeouts_ok_def list_all_iff by auto
  assume n: "never_timed_out w f"
  have "waiter_of cb \<noteq> f" using n t by (auto simp: never_timed_out_def untimed_def list_all_iff)
  moreover have "never_timed_out w1 f"
    using n P(1,2) by (auto simp: never_timed_out_def fstate_of_def intro: untimed_subset)
  ultimately show "never_timed_out w1 f \<and> waiter_of cb \<noteq> f" by simp
qed

lemma set_exception_target_evolves:
  assumes tk: "timeouts_ok w" and gv: "g < length (futures w)"
      and gc: "list_all removes_timeout (callbacks (futures w ! g))"
  shows "timeouts_ok (set_exception g e w)"
    and "length (futures (set_exception g e w)) = length (futures w)"
    and "g \<noteq> f \<Longrightarrow> never_timed_out w f \<Longrightarrow> never_timed_out (set_exception g e w) f"
proof -
  show "timeouts_ok (set_exception g e w)"
    unfolding set_exception_def by (rule set_outcome_timeouts_ok [OF tk])
  show "length (futures (set_exception g e w)) = length (futures w)"
    by (simp add: set_exception_def set_outcome_length)
  assume gf: "g \<noteq> f" and n: "never_timed_out w f"
  have "fstate_of (set_exception g e w) f = fstate_of w f"
    unfolding set_exception_def using set_outcome_fstate_of [OF gv gc, of "Failed e" f] gf by simp
  moreover have "untimed (set_exception g e w) f"
    using n set_outcome_scheduled_subset [of g "Failed e" w]
    by (auto simp: set_exception_def never_timed_out_def intro: untimed_subset)
  ultimately show "never_timed_out (set_exception g e w) f"
    using n by (simp add: never_timed_out_def set_exception_def set_outcome_length)
qed

lemma Queue_fire_evolves:
  assumes tk: "timeouts_ok w"
  shows "evolves w (Queue_fire h w)"
proof (cases "pop_timeout h w")
  case None
  then show ?thesis using tk by (simp add: Queue_fire_def evolves_refl)
next
  case (Some p)
  obtain cb w1 where p: "p = (cb, w1)" by (cases p)
  note P = pop_timeout_timeouts_ok [OF Some [unfolded p] tk]
  note L = pop_timeout_props(1) [OF Some [unfolded p]]
  have ex: "evolves w (set_exception g TimeoutError w1)" if g: "waiter_of cb = g" for g
  proof -
    note S = set_exception_target_evolves [OF P(1) P(2) [unfolded g] P(3) [unfolded g], where e = TimeoutError]
    have "never_timed_out (set_exception g TimeoutError w1) f" if n: "never_timed_out w f" for f
      using P(4) [OF n] S(3) [of f] g by auto
    then show ?thesis using S(1,2) L by (simp add: evolves_def)
  qed
  have same: "evolves w w" using tk by (rule evolves_refl)
  show ?thesis
    using Some p ex same
    by (cases cb) (simp_all add: Queue_fire_def Queue_on_timeout_def with_timeout_callback_def)
qed

lemma with_timeout_pending:
  assumes "\<not> future_done w ev" and "ev < length (futures w)"
  shows "with_timeout t ev w =
     (length (futures w),
      \<lparr>futures = (futures w @ [\<lparr>fstate = Pending, callbacks = []\<rparr>])
          [ev := (futures w ! ev)\<lparr>callbacks := callbacks (futures w ! ev)
                   @ [ChainFuture (length (futures w)), RemoveTimeout (next_handle w)]\<rparr>],
       scheduled = scheduled w @ [(next_handle w, t, WithTimeoutCallback (length (futures w)))],
       next_handle = Suc (next_handle w)\<rparr>)"
  using assms
  by (simp add: with_timeout_def Future_def add_done_callback_def add_timeout_def
        future_done_def fstate_of_def nth_append Let_def list_update_append1)

lemma with_timeout_done:
  assumes "future_done w ev" and "ev < length (futures w)"
  shows "with_timeout t ev w =
     (length (futures w),
      \<lparr>futures = futures w @ [\<lparr>fstate = fstate_of w ev, callbacks = []\<rparr>],
       scheduled = filter (\<lambda>e. fst e \<noteq> next_handle w) (scheduled w),
       next_handle = Suc (next_handle w)\<rparr>)"
  using assms
  by (simp add: with_timeout_def Future_def add_done_callback_def add_timeout_def
        remove_timeout_def future_done_def fstate_of_def nth_append Let_def)

lemma with_timeout_evolves:
  assumes tk: "timeouts_ok w" and ev: "never_timed_out w ev"
  shows "evolves w (snd (with_timeout t ev w))"
proof -
  have evv: "ev < length (futures w)" and evu: "untimed w ev"
    using ev by (simp_all add: never_timed_out_def)
  show ?thesis
  proof (cases "future_done w ev")
    case True
    note W = with_timeout_done [OF True evv, of t]
    have "timeouts_ok (snd (with_timeout t ev w))"
      using tk unfolding W timeouts_ok_def scheduled_ok_def list_all_iff
      by (auto simp: nth_append less_Suc_eq)
    moreover have "never_timed_out (snd (with_timeout t ev w)) f" if "never_timed_out w f" for f
      using that unfolding W never_timed_out_def untimed_def list_all_iff
      by (auto simp: nth_append fstate_of_def)
    ultimately show ?thesis by (simp add: evolves_def W)
  next
    case False
    note W = with_timeout_pending [OF False evv, of t]
    have ne: "waiter_of (snd (snd e)) \<noteq> ev" if "e \<in> set (scheduled w)" for e
      using that evu by (auto simp: untimed_def list_all_iff)
    have "timeouts_ok (snd (with_timeout t ev w))"
      using tk evv ne unfolding W timeouts_ok_def scheduled_ok_def list_all_iff
      by (auto simp: nth_append less_Suc_eq nth_list_update)
    moreover have "never_timed_out (snd (with_timeout t ev w)) f" if "never_timed_out w f" for f
      using that evv unfolding W never_timed_out_def untimed_def list_all_iff
      by (auto simp: nth_append fstate_of_def nth_list_update)
    ultimately show ?thesis by (simp add: evolves_def W)
  qed
qed

lemma Event_set_evolves:
  "timeouts_ok w \<Longrightarrow> evolves w (snd (Event_set (ev, w)))"
  by (simp add: Event_set_def set_result_evolves evolves_refl)

lemma Event_set_same: "fst (Event_set (ev, w)) = ev"
  by (simp add: Event_set_def)

lemma Event_clear_evolves:
  assumes tk: "timeouts_ok w" and n: "never_timed_out w (ev_future ev)"
  shows "evolves w (snd (Event_clear (ev, w)))"
    and "never_timed_out (snd (Event_clear (ev, w))) (ev_future (fst (Event_clear (ev, w))))"
proof -
  obtain g w1 where f: "Future w = (g, w1)" by (cases "Future w")
  note F = Future_evolves [OF f tk]
  show "evolves w (snd (Event_clear (ev, w)))"
    using F tk f by (simp add: Event_clear_def evolves_refl)
  show "never_timed_out (snd (Event_clear (ev, w))) (ev_future (fst (Event_clear (ev, w))))"
    using F n f by (simp add: Event_clear_def)
qed

lemma put_internal_evolves:
  assumes wf: "queue_wf (self, w)" and pi: "put_internal item (self, w) = (self1, w1)"
  shows "evolves w w1" and "queue_wf (self1, w1)"
proof -
  have tk: "timeouts_ok w" and n: "never_timed_out w (ev_future (finished self))"
    using wf by (simp_all add: queue_wf_def)
  obtain ev1 where ec: "Event_clear (finished self, w) = (ev1, w1)"
    and s1: "self1 = put_item item (self\<lparr>unfinished_tasks := unfinished_tasks self + 1, finished := ev1\<rparr>)"
    using pi by (auto simp: put_internal_def Let_def split: prod.splits)
  have f: "finished self1 = ev1" by (simp add: s1 put_item_fields)
  note E = Event_clear_evolves [OF tk n]
  show "evolves w w1" using E(1) ec by simp
  then have "timeouts_ok w1" by (simp add: evolves_def)
  then show "queue_wf (self1, w1)" using E(2) ec f by (simp add: queue_wf_def)
qed

lemma queue_wf_fields:
  "finished self1 = finished self \<Longrightarrow> queue_wf (self, w) \<Longrightarrow> queue_wf (self1, w)"
  by (simp add: queue_wf_def)

lemma queue_wf_evolves:
  "finished self1 = finished self \<Longrightarrow> queue_wf (self, w) \<Longrightarrow> evolves w w1
     \<Longrightarrow> queue_wf (self1, w1)"
  by (simp add: queue_wf_def evolves_def)

subsection \<open>A waiter without a timeout: the calls on a queue\<close>

lemma put_nowait_evolves:
  assumes wf: "queue_wf (self, w)" and pn: "put_nowait item (self, w) = (r, self1, w1)"
  shows "evolves w w1" and "queue_wf (self1, w1)" and "r = Inl QueueFull \<Longrightarrow> w1 = w"
proof -
  obtain q where ce: "consume_expired (self, w) = (q, w)"
    by (simp add: consume_expired_def Let_def)
  note qf = consume_expired_fields [OF ce]
  have q: "fst (consume_expired (self, w)) = q" using ce by simp
  have tk: "timeouts_ok w" using wf by (simp add: queue_wf_def)
  have wfq: "queue_wf (q, w)" using wf qf by (simp add: queue_wf_def)
  have all: "evolves w w1 \<and> queue_wf (self1, w1) \<and> (r = Inl QueueFull \<longrightarrow> w1 = w)"
  proof (cases "getters q")
    case Nil
    show ?thesis
    proof (cases "full q")
      case True
      then show ?thesis using pn Nil wfq tk
        by (auto simp: put_nowait_cases q Let_def evolves_refl)
    next
      case False
      obtain q2 w2 where pi: "put_internal item (q, w) = (q2, w2)"
        by (cases "put_internal item (q, w)")
      have "r = Inr ()" "self1 = q2" "w1 = w2" using pn Nil False pi
        by (auto simp: put_nowait_cases q Let_def)
      then show ?thesis using put_internal_evolves [OF wfq pi] by simp
    qed
  next
    case (Cons getter rest)
    show ?thesis
    proof (cases "empty q")
      case False
      then show ?thesis using pn Cons wfq tk
        by (auto simp: put_nowait_cases q Let_def evolves_refl)
    next
      case True
      have wfr: "queue_wf (q\<lparr>getters := rest\<rparr>, w)" using wfq by (simp add: queue_wf_def)
      obtain q2 w2 where pi: "put_internal item (q\<lparr>getters := rest\<rparr>, w) = (q2, w2)"
        by (cases "put_internal item (q\<lparr>getters := rest\<rparr>, w)")
      note P = put_internal_evolves [OF wfr pi]
      have "queue q2 \<noteq> []" by (rule put_internal_props(8) [OF pi])
      then obtain x q3 where gi: "get_item q2 = Inr (x, q3)" using get_item_nonempty by blast
      have res: "r = Inr ()" "self1 = q3" "w1 = set_result getter (Some x) w2"
        using pn Cons True pi gi by (auto simp: put_nowait_cases q Let_def)
      have tk2: "timeouts_ok w2" using P(1) by (simp add: evolves_def)
      have e2: "evolves w2 w1" unfolding res by (rule set_result_evolves [OF tk2])
      have f3: "finished q3 = finished q2" using get_item_fields [OF gi] by simp
      show ?thesis
        using evolves_trans [OF P(1) e2] queue_wf_evolves [OF f3 P(2) e2] res by simp
    qed
  qed
  show "evolves w w1" and "queue_wf (self1, w1)" and "r = Inl QueueFull \<Longrightarrow> w1 = w"
    using all by blast+
qed

lemma get_nowait_evolves:
  assumes wf: "queue_wf (self, w)" and gn: "get_nowait (self, w) = (r, self1, w1)"
  shows "evolves w w1" and "queue_wf (self1, w1)" and "r = Inl QueueEmpty \<Longrightarrow> w1 = w"
proof -
  obtain q where ce: "consume_expired (self, w) = (q, w)"
    by (simp add: consume_expired_def Let_def)
  note qf = consume_expired_fields [OF ce]
  have q: "fst (consume_expired (self, w)) = q" using ce by simp
  have tk: "timeouts_ok w" using wf by (simp add: queue_wf_def)
  have wfq: "queue_wf (q, w)" using wf qf by (simp add: queue_wf_def)
  have all: "evolves w w1 \<and> queue_wf (self1, w1) \<and> (r = Inl QueueEmpty \<longrightarrow> w1 = w)"
  proof (cases "putters q")
    case Nil
    show ?thesis
    proof (cases "qsize q \<noteq> 0")
      case False
      then show ?thesis using gn Nil wfq tk
        by (auto simp: get_nowait_cases q Let_def evolves_refl)
    next
      case True
      then have "queue q \<noteq> []" by (simp add: qsize_def)
      then obtain x q2 where gi: "get_item q = Inr (x, q2)" using get_item_nonempty by blast
      have res: "r = Inr x" "self1 = q2" "w1 = w" using gn Nil True gi
        by (auto simp: get_nowait_cases q Let_def)
      have "finished q2 = finished q" using get_item_fields [OF gi] by simp
      then show ?thesis using res wfq tk by (simp add: queue_wf_def evolves_refl)
    qed
  next
    case (Cons pr rest)
    obtain item putter where pr: "pr = (item, putter)" by (cases pr)
    show ?thesis
    proof (cases "full q")
      case False
      then show ?thesis using gn Cons pr wfq tk
        by (auto simp: get_nowait_cases q Let_def evolves_refl)
    next
      case True
      have wfr: "queue_wf (q\<lparr>putters := rest\<rparr>, w)" using wfq by (simp add: queue_wf_def)
      obtain q2 w2 where pi: "put_internal item (q\<lparr>putters := rest\<rparr>, w) = (q2, w2)"
        by (cases "put_internal item (q\<lparr>putters := rest\<rparr>, w)")
      note P = put_internal_evolves [OF wfr pi]
      have "queue q2 \<noteq> []" by (rule put_internal_props(8) [OF pi])
      then obtain x q3 where gi: "get_item q2 = Inr (x, q3)" using get_item_nonempty by blast
      have res: "r = Inr x" "self1 = q3" "w1 = set_result putter None w2"
        using gn Cons pr True pi gi by (auto simp: get_nowait_cases q Let_def)
      have tk2: "timeouts_ok w2" using P(1) by (simp add: evolves_def)
      have e2: "evolves w2 w1" unfolding res by (rule set_result_evolves [OF tk2])
      have f3: "finished q3 = finished q2" using get_item_fields [OF gi] by simp
      show ?thesis
        using evolves_trans [OF P(1) e2] queue_wf_evolves [OF f3 P(2) e2] res by simp
    qed
  qed
  show "evolves w w1" and "queue_wf (self1, w1)" and "r = Inl QueueEmpty \<Longrightarrow> w1 = w"
    using all by blast+
qed

lemma foldl_run_callback_next_handle:
  "next_handle (foldl (run_callback out) w cbs) = next_handle w"
proof (induction cbs arbitrary: w)
  case Nil
  show ?case by simp
next
  case (Cons cb cbs)
  have "next_handle (run_callback out w cb) = next_handle w"
    by (cases cb) (simp_all add: remove_timeout_def)
  then show ?case using Cons by simp
qed

lemma set_outcome_next_handle: "next_handle (set_outcome g out w) = next_handle w"
  by (simp add: set_outcome_def foldl_run_callback_next_handle)

text \<open>\<^verbatim>\<open>put_nowait\<close> and \<^verbatim>\<open>get_nowait\<close> schedule no timeout.\<close>

lemma put_nowait_no_schedule:
  assumes pn: "put_nowait item (self, w) = (r, self1, w1)"
  shows "set (scheduled w1) \<subseteq> set (scheduled w) \<and> next_handle w1 = next_handle w"
proof -
  define q where "q = fst (consume_expired (self, w))"
  show ?thesis
  proof (cases "getters q")
    case Nil
    show ?thesis
    proof (cases "full q")
      case True
      then show ?thesis using pn Nil by (auto simp: put_nowait_cases q_def [symmetric] Let_def)
    next
      case False
      obtain q2 w2 where pi: "put_internal item (q, w) = (q2, w2)"
        by (cases "put_internal item (q, w)")
      have "w1 = w2" using pn Nil False pi
        by (auto simp: put_nowait_cases q_def [symmetric] Let_def)
      then show ?thesis using put_internal_props(9,10) [OF pi] by simp
    qed
  next
    case (Cons getter rest)
    show ?thesis
    proof (cases "empty q")
      case False
      then show ?thesis using pn Cons by (auto simp: put_nowait_cases q_def [symmetric] Let_def)
    next
      case True
      obtain q2 w2 where pi: "put_internal item (q\<lparr>getters := rest\<rparr>, w) = (q2, w2)"
        by (cases "put_internal item (q\<lparr>getters := rest\<rparr>, w)")
      have "queue q2 \<noteq> []" by (rule put_internal_props(8) [OF pi])
      then obtain x q3 where gi: "get_item q2 = Inr (x, q3)" using get_item_nonempty by blast
      have "w1 = set_outcome getter (Resolved (Some x)) w2"
        using pn Cons True pi gi
        by (auto simp: put_nowait_cases q_def [symmetric] Let_def set_result_def)
      then show ?thesis
        using put_internal_props(9,10) [OF pi]
          set_outcome_scheduled_subset [of getter "Resolved (Some x)" w2]
        by (simp add: set_outcome_next_handle)
    qed
  qed
qed

lemma get_nowait_no_schedule:
  assumes gn: "get_nowait (self, w) = (r, self1, w1)"
  shows "set (scheduled w1) \<subseteq> set (scheduled w) \<and> next_handle w1 = next_handle w"
proof -
  define q where "q = fst (consume_expired (self, w))"
  show ?thesis
  proof (cases "putters q")
    case Nil
    then show ?thesis using gn
      by (auto simp: get_nowait_cases q_def [symmetric] Let_def split: if_splits sum.splits)
  next
    case (Cons pr rest)
    obtain item putter where pr: "pr = (item, putter)" by (cases pr)
    show ?thesis
    proof (cases "full q")
      case False
      then show ?thesis using gn Cons pr
        by (auto simp: get_nowait_cases q_def [symmetric] Let_def)
    next
      case True
      obtain q2 w2 where pi: "put_internal item (q\<lparr>putters := rest\<rparr>, w) = (q2, w2)"
        by (cases "put_internal item (q\<lparr>putters := rest\<rparr>, w)")
      have "w1 = set_outcome putter (Resolved None) w2"
        using gn Cons pr True pi
        by (auto simp: get_nowait_cases q_def [symmetric] Let_def set_result_def
              split: sum.splits)
      then show ?thesis
        using put_internal_props(9,10) [OF pi]
          set_outcome_scheduled_subset [of putter "Resolved None" w2]
        by (simp add: set_outcome_next_handle)
    qed
  qed
qed

lemma put_evolves:
  assumes wf: "queue_wf (self, w)" and p: "put item tmo (self, w) = (r, self1, w1)"
  shows "evolves w w1" and "queue_wf (self1, w1)"
    and "\<not> truthy tmo \<Longrightarrow> set (scheduled w1) \<subseteq> set (scheduled w) \<and> next_handle w1 = next_handle w"
    and "\<not> truthy tmo \<Longrightarrow> r = Inr (FutureRef f) \<Longrightarrow> never_timed_out w1 f"
proof -
  obtain r0 q0 w0 where pn: "put_nowait item (self, w) = (r0, q0, w0)"
    by (cases "put_nowait item (self, w)")
  note E = put_nowait_evolves [OF wf pn]
  note N = put_nowait_no_schedule [OF pn]
  have tk0: "timeouts_ok w0" using E(1) by (simp add: evolves_def)
  have all: "evolves w w1 \<and> queue_wf (self1, w1)
     \<and> (\<not> truthy tmo \<longrightarrow> set (scheduled w1) \<subseteq> set (scheduled w) \<and> next_handle w1 = next_handle w)
     \<and> (\<not> truthy tmo \<longrightarrow> r = Inr (FutureRef f) \<longrightarrow> never_timed_out w1 f)"
  proof (cases "r0 = Inl QueueFull")
    case False
    then have "(r0, self1, w1) = (r0, q0, w0) \<and> r \<noteq> Inr (FutureRef f)"
      using p pn by (auto simp: put_def split: sum.splits exn.splits)
    then show ?thesis using E N by simp
  next
    case True
    obtain fut wa where fu: "Future w0 = (fut, wa)" by (cases "Future w0")
    have res: "r = Inr (FutureRef fut)" "self1 = q0\<lparr>putters := putters q0 @ [(item, fut)]\<rparr>"
      "w1 = set_timeout fut tmo wa"
      using p pn True fu by (simp_all add: put_def Let_def)
    note F = Future_evolves [OF fu tk0] Future_ok [OF fu]
    have tka: "timeouts_ok wa" using F(1) by (simp add: evolves_def)
    have fv: "fut < length (futures wa)" using F(3,4) by simp
    note S = set_timeout_fresh [OF tka fv F(10), where tmo = tmo]
    have nt: "never_timed_out w1 x" if n: "never_timed_out w0 x" for x
    proof -
      have a: "never_timed_out wa x" and "x < length (futures w0)"
        using F(1) n by (simp_all add: evolves_def never_timed_out_def)
      then have "x \<noteq> fut" using F(3) by simp
      then show ?thesis unfolding res using S(3) a by blast
    qed
    have ev01: "evolves w0 w1"
      using nt S(1,2) F(1) unfolding res by (simp add: evolves_def)
    have ev: "evolves w w1" by (rule evolves_trans [OF E(1) ev01])
    have qw: "queue_wf (self1, w1)"
      by (rule queue_wf_evolves [OF _ E(2) ev01]) (simp add: res)
    have sch: "\<not> truthy tmo \<Longrightarrow> set (scheduled w1) \<subseteq> set (scheduled w) \<and> next_handle w1 = next_handle w"
      using S(4) N F(8,9) res by simp
    have nto: "\<not> truthy tmo \<Longrightarrow> never_timed_out w1 fut"
      using S(4) F(2) res by simp
    show ?thesis using ev qw sch nto res(1) by auto
  qed
  show "evolves w w1" and "queue_wf (self1, w1)"
    and "\<not> truthy tmo \<Longrightarrow> set (scheduled w1) \<subseteq> set (scheduled w) \<and> next_handle w1 = next_handle w"
    and "\<not> truthy tmo \<Longrightarrow> r = Inr (FutureRef f) \<Longrightarrow> never_timed_out w1 f"
    using all by blast+
qed

lemma get_nowait_empty_finished:
  assumes gn: "get_nowait (self, w) = (Inl QueueEmpty, self1, w1)"
  shows "finished self1 = finished self"
proof -
  obtain q where ce: "consume_expired (self, w) = (q, w)"
    by (simp add: consume_expired_def Let_def)
  note qf = consume_expired_fields [OF ce]
  have q: "fst (consume_expired (self, w)) = q" using ce by simp
  show ?thesis
  proof (cases "putters q")
    case Nil
    show ?thesis
    proof (cases "qsize q \<noteq> 0")
      case False
      then show ?thesis using gn Nil qf by (auto simp: get_nowait_cases q Let_def)
    next
      case True
      then have "queue q \<noteq> []" by (simp add: qsize_def)
      then obtain x q2 where gi: "get_item q = Inr (x, q2)" using get_item_nonempty by blast
      then show ?thesis using gn Nil True by (auto simp: get_nowait_cases q Let_def)
    qed
  next
    case (Cons pr rest)
    obtain item putter where pr: "pr = (item, putter)" by (cases pr)
    show ?thesis
    proof (cases "full q")
      case False
      then show ?thesis using gn Cons pr by (auto simp: get_nowait_cases q Let_def)
    next
      case True
      obtain q2 w2 where pi: "put_internal item (q\<lparr>putters := rest\<rparr>, w) = (q2, w2)"
        by (cases "put_internal item (q\<lparr>putters := rest\<rparr>, w)")
      have "queue q2 \<noteq> []" by (rule put_internal_props(8) [OF pi])
      then obtain x q3 where gi: "get_item q2 = Inr (x, q3)" using get_item_nonempty by blast
      then show ?thesis using gn Cons pr True pi by (auto simp: get_nowait_cases q Let_def)
    qed
  qed
qed

lemma get_evolves:
  assumes wf: "queue_wf (self, w)" and g: "get tmo (self, w) = (r, self1, w1)"
  shows "evolves w w1" and "queue_wf (self1, w1)"
    and "\<not> truthy tmo \<Longrightarrow> set (scheduled w1) \<subseteq> set (scheduled w) \<and> next_handle w1 = next_handle w"
    and "\<not> truthy tmo \<Longrightarrow> r = Inr f \<Longrightarrow> never_timed_out w1 f"
proof -
  have tk: "timeouts_ok w" using wf by (simp add: queue_wf_def)
  obtain fut wa where fu: "Future w = (fut, wa)" by (cases "Future w")
  note F = Future_evolves [OF fu tk] Future_ok [OF fu]
  have wfa: "queue_wf (self, wa)" by (rule queue_wf_evolves [OF _ wf F(1)]) simp
  obtain r0 q0 w0 where gn: "get_nowait (self, wa) = (r0, q0, w0)"
    by (cases "get_nowait (self, wa)")
  note E = get_nowait_evolves [OF wfa gn]
  note N = get_nowait_no_schedule [OF gn]
  have e0: "evolves w w0" by (rule evolves_trans [OF F(1) E(1)])
  have tk0: "timeouts_ok w0" using E(1) by (simp add: evolves_def)
  have n0: "never_timed_out w0 fut" using E(1) F(2) by (simp add: evolves_def)
  have unf: "get tmo (self, w) =
      (case (r0, q0, w0) of
        (Inl QueueEmpty, self, w) \<Rightarrow>
          (let self1 = self\<lparr>getters := getters self @ [fut]\<rparr>;
               w1 = set_timeout fut tmo w
           in (Inr fut, self1, w1))
      | (Inl e, self, w) \<Rightarrow> (Inl e, self, w)
      | (Inr x, self, w) \<Rightarrow> (Inr fut, self, set_result fut (Some x) w))"
    using fu gn by (simp add: get_def)
  have all: "evolves w w1 \<and> queue_wf (self1, w1)
     \<and> (\<not> truthy tmo \<longrightarrow> set (scheduled w1) \<subseteq> set (scheduled w) \<and> next_handle w1 = next_handle w)
     \<and> (\<not> truthy tmo \<longrightarrow> r = Inr f \<longrightarrow> never_timed_out w1 f)"
  proof (cases r0)
    case (Inr x)
    then have res: "r = Inr fut" "self1 = q0" "w1 = set_result fut (Some x) w0"
      using g unf by simp_all
    have e1: "evolves w0 w1" unfolding res by (rule set_result_evolves [OF tk0])
    have "never_timed_out w1 fut" using e1 n0 by (simp add: evolves_def)
    moreover have "set (scheduled w1) \<subseteq> set (scheduled w) \<and> next_handle w1 = next_handle w"
      using N F(8,9) set_outcome_scheduled_subset [of fut "Resolved (Some x)" w0]
      unfolding res set_result_def by (auto simp: set_outcome_next_handle)
    ultimately show ?thesis
      using evolves_trans [OF e0 e1] queue_wf_evolves [OF _ E(2) e1, of q0] res by auto
  next
    case (Inl e)
    show ?thesis
    proof (cases "e = QueueEmpty")
      case False
      then have "r = Inl e" "self1 = q0" "w1 = w0"
        using g unf Inl by (cases e; simp)+
      then show ?thesis using e0 E(2) N F(8,9) by auto
    next
      case True
      then have w0: "w0 = wa" using E(3) Inl by simp
      have res: "r = Inr fut" "self1 = q0\<lparr>getters := getters q0 @ [fut]\<rparr>"
        "w1 = set_timeout fut tmo wa"
        using g unf Inl True w0 by (simp_all add: Let_def)
      have tka: "timeouts_ok wa" using F(1) by (simp add: evolves_def)
      have fv: "fut < length (futures wa)" using F(3,4) by simp
      note S = set_timeout_fresh [OF tka fv F(10), where tmo = tmo]
      have nt: "never_timed_out w1 x" if n: "never_timed_out w x" for x
      proof -
        have a: "never_timed_out wa x" and "x < length (futures w)"
          using F(1) n by (simp_all add: evolves_def never_timed_out_def)
        then have "x \<noteq> fut" using F(3) by simp
        then show ?thesis unfolding res using S(3) a by blast
      qed
      have ev: "evolves w w1"
        using nt S(1,2) F(1) unfolding res by (simp add: evolves_def)
      have "finished q0 = finished self"
        by (rule get_nowait_empty_finished [OF gn [unfolded Inl True]])
      then have qw: "queue_wf (self1, w1)"
        using queue_wf_evolves [OF _ wf ev, of self1] by (simp add: res)
      have sch: "\<not> truthy tmo \<Longrightarrow> set (scheduled w1) \<subseteq> set (scheduled w) \<and> next_handle w1 = next_handle w"
        using S(4) F(8,9) res by simp
      have nto: "\<not> truthy tmo \<Longrightarrow> never_timed_out w1 fut"
        using S(4) F(2) res by simp
      show ?thesis using ev qw sch nto res(1) by auto
    qed
  qed
  show "evolves w w1" and "queue_wf (self1, w1)"
    and "\<not> truthy tmo \<Longrightarrow> set (scheduled w1) \<subseteq> set (scheduled w) \<and> next_handle w1 = next_handle w"
    and "\<not> truthy tmo \<Longrightarrow> r = Inr f \<Longrightarrow> never_timed_out w1 f"
    using all by blast+
qed

lemma task_done_evolves:
  assumes wf: "queue_wf (self, w)" and td: "task_done (self, w) = (r, self1, w1)"
  shows "evolves w w1" and "queue_wf (self1, w1)"
proof -
  have tk: "timeouts_ok w" using wf by (simp add: queue_wf_def)
  have f: "finished self1 = finished self"
    using td by (auto simp: task_done_def Let_def Event_set_def split: if_splits)
  have "w1 = w \<or> w1 = snd (Event_set (finished self, w))"
    using td by (auto simp: task_done_def Let_def split: if_splits prod.splits)
  then show "evolves w w1" using Event_set_evolves [OF tk] evolves_refl [OF tk] by auto
  then show "queue_wf (self1, w1)" using queue_wf_evolves [OF f wf] by simp
qed

lemma join_evolves:
  assumes wf: "queue_wf (self, w)"
  shows "evolves w (snd (join tmo (self, w)))"
proof -
  have tk: "timeouts_ok w" and n: "never_timed_out w (ev_future (finished self))"
    using wf by (simp_all add: queue_wf_def)
  show ?thesis
    using with_timeout_evolves [OF tk n] evolves_refl [OF tk]
    by (cases tmo) (simp_all add: join_def Event_wait_def)
qed

lemma Queue_step_evolves:
  assumes wf: "queue_wf qw"
  shows "evolves (snd qw) (snd (Queue_step qw op))" and "queue_wf (Queue_step qw op)"
proof -
  obtain q w where qw: "qw = (q, w)" by (cases qw)
  note wf' = wf [unfolded qw]
  have tk: "timeouts_ok w" using wf' by (simp add: queue_wf_def)
  have "evolves (snd qw) (snd (Queue_step qw op)) \<and> queue_wf (Queue_step qw op)"
  proof (cases op)
    case (Put item tmo)
    obtain r q1 w1 where p: "put item tmo (q, w) = (r, q1, w1)" by (cases "put item tmo (q, w)")
    show ?thesis using put_evolves(1,2) [OF wf' p] Put qw p by simp
  next
    case (PutNowait item)
    obtain r q1 w1 where p: "put_nowait item (q, w) = (r, q1, w1)"
      by (cases "put_nowait item (q, w)")
    show ?thesis using put_nowait_evolves(1,2) [OF wf' p] PutNowait qw p by simp
  next
    case (Get tmo)
    obtain r q1 w1 where p: "get tmo (q, w) = (r, q1, w1)" by (cases "get tmo (q, w)")
    show ?thesis using get_evolves(1,2) [OF wf' p] Get qw p by simp
  next
    case GetNowait
    obtain r q1 w1 where p: "get_nowait (q, w) = (r, q1, w1)" by (cases "get_nowait (q, w)")
    show ?thesis using get_nowait_evolves(1,2) [OF wf' p] GetNowait qw p by simp
  next
    case TaskDone
    obtain r q1 w1 where p: "task_done (q, w) = (r, q1, w1)" by (cases "task_done (q, w)")
    show ?thesis using task_done_evolves [OF wf' p] TaskDone qw p by simp
  next
    case (Join tmo)
    show ?thesis
      using join_evolves [OF wf', of tmo] queue_wf_evolves [OF _ wf' join_evolves [OF wf', of tmo], of q]
        Join qw by simp
  next
    case (QueueTimeout h)
    show ?thesis
      using Queue_fire_evolves [OF tk, of h] queue_wf_evolves [OF _ wf' Queue_fire_evolves [OF tk, of h], of q]
        QueueTimeout qw by simp
  qed
  then show "evolves (snd qw) (snd (Queue_step qw op))" and "queue_wf (Queue_step qw op)"
    by blast+
qed

lemma Queue_run_evolves:
  assumes "queue_wf qw"
  shows "evolves (snd qw) (snd (Queue_run ops qw)) \<and> queue_wf (Queue_run ops qw)"
  using assms unfolding Queue_run_def
proof (induction ops arbitrary: qw)
  case Nil
  then show ?case by (simp add: queue_wf_def evolves_refl)
next
  case (Cons op ops)
  note S = Queue_step_evolves [OF Cons.prems, of op]
  show ?case using Cons.IH [OF S(2)] S(1) by (auto intro: evolves_trans)
qed

lemma Queue_init_wf:
  "Queue_init c m world0 = Inr qw \<Longrightarrow> queue_wf qw"
  by (auto simp: Queue_init_def queue_wf_def timeouts_ok_def scheduled_ok_def never_timed_out_def
        untimed_def Event_init_def Event_set_def Future_def world0_def set_result_def
        set_outcome_def future_done_def fstate_of_def Let_def
        split: option.splits if_splits)

subsection \<open>A timeout of 0 is no timeout\<close>

lemma Condition_wait_no_timeout:
  assumes wf: "locks_wf (c, w)" and ft: "\<not> truthy tmo"
      and cw: "Condition_wait tmo (c, w) = (f, c1, w1)"
  shows "scheduled w1 = scheduled w" and "next_handle w1 = next_handle w"
    and "notified_only w1 f" and "locks_wf (c1, w1)"
proof -
  note F = Condition_wait_falsy [OF ft cw]
  have so: "scheduled_ok w" using wf by (simp add: locks_wf_def)
  show "scheduled w1 = scheduled w" and "next_handle w1 = next_handle w" by (simp_all add: F)
  show "notified_only w1 f"
    using untimed_fresh [OF so] by (simp add: F notified_only_def untimed_def fstate_of_def)
  show "locks_wf (c1, w1)" by (rule Condition_wait_wf [OF wf cw])
qed

lemma Semaphore_acquire_no_timeout:
  assumes wf: "locks_wf (s, w)" and ft: "\<not> truthy tmo"
      and a: "Semaphore_acquire tmo (s, w) = (f, s1, w1)"
  shows "scheduled w1 = scheduled w" and "next_handle w1 = next_handle w"
    and "never_timed_out w1 f" and "locks_wf (s1, w1)"
proof -
  have so: "scheduled_ok w" using wf by (simp add: locks_wf_def)
  have all: "scheduled w1 = scheduled w \<and> next_handle w1 = next_handle w \<and> never_timed_out w1 f"
  proof (cases "sem_value s > 0")
    case True
    note F = Semaphore_acquire_free [OF True a]
    show ?thesis using untimed_fresh [OF so]
      by (simp add: F never_timed_out_def untimed_def fstate_of_def)
  next
    case False
    note F = Semaphore_acquire_falsy [OF False ft a]
    show ?thesis using untimed_fresh [OF so]
      by (simp add: F never_timed_out_def untimed_def fstate_of_def)
  qed
  show "scheduled w1 = scheduled w" and "next_handle w1 = next_handle w"
    and "never_timed_out w1 f"
    using all by blast+
  show "locks_wf (s1, w1)" by (rule Semaphore_acquire_props(7) [OF a wf])
qed

lemma Lock_init_wf: "Lock_init = Inr l \<Longrightarrow> locks_wf (block l, world0)"
  by (auto simp: Lock_init_eq locks_wf_def world0_def scheduled_ok_def cbs_ok_def)

lemma Lock_run_wf:
  assumes "locks_wf (block (fst lw), snd lw)"
  shows "locks_wf (block (fst (Lock_run ops lw)), snd (Lock_run ops lw))"
  unfolding Lock_run_block by (rule BoundedSemaphore_run_invariants(1) [OF assms])

text \<open>
  Claim C10, for the five calls it lists. When the timeout argument is false in Python's
  sense (\<^verbatim>\<open>None\<close>, 0, \<^verbatim>\<open>timedelta(0)\<close>), \<^verbatim>\<open>Condition.wait\<close>, \<^verbatim>\<open>Semaphore.acquire\<close>,
  \<^verbatim>\<open>Lock.acquire\<close>, \<^verbatim>\<open>Queue.put\<close> and \<^verbatim>\<open>Queue.get\<close> do exactly what they do with
  \<^verbatim>\<open>timeout=None\<close>. In any state reached from a fresh primitive by calls and timeouts,
  such a call schedules no timeout (the schedule does not grow and no handle is issued),
  and after any further calls and timeouts no scheduled timeout closes over the future it
  returned: a waiter of a condition is pending or resolved with \<^verbatim>\<open>True\<close> (never with the
  \<^verbatim>\<open>False\<close> of a timeout), and a waiter of a semaphore, a lock or a queue has not failed
  with \<^verbatim>\<open>TimeoutError\<close>.
\<close>

theorem falsy_timeout_is_no_timeout:
  "(\<not> truthy tmo \<longrightarrow>
      Condition_wait tmo cw = Condition_wait None cw
      \<and> Semaphore_acquire tmo sw = Semaphore_acquire None sw
      \<and> Lock_acquire tmo lw = Lock_acquire None lw
      \<and> put item tmo qw = put item None qw
      \<and> get tmo qw = get None qw
      \<and> (case Condition_wait tmo (Condition_run cops0 (Condition_init, world0)) of (f, cw1) \<Rightarrow>
            scheduled (snd cw1) = scheduled (snd (Condition_run cops0 (Condition_init, world0)))
            \<and> next_handle (snd cw1) = next_handle (snd (Condition_run cops0 (Condition_init, world0)))
            \<and> notified_only (snd (Condition_run cops cw1)) f))
   \<and> (\<not> truthy tmo \<and> Semaphore_init v = Inr s \<longrightarrow>
        (case Semaphore_acquire tmo (Semaphore_run sops0 (s, world0)) of (f, sw1) \<Rightarrow>
            scheduled (snd sw1) = scheduled (snd (Semaphore_run sops0 (s, world0)))
            \<and> next_handle (snd sw1) = next_handle (snd (Semaphore_run sops0 (s, world0)))
            \<and> never_timed_out (snd (Semaphore_run sops sw1)) f))
   \<and> (\<not> truthy tmo \<and> Lock_init = Inr l \<longrightarrow>
        (case Lock_acquire tmo (Lock_run lops0 (l, world0)) of (f, lw1) \<Rightarrow>
            scheduled (snd lw1) = scheduled (snd (Lock_run lops0 (l, world0)))
            \<and> next_handle (snd lw1) = next_handle (snd (Lock_run lops0 (l, world0)))
            \<and> never_timed_out (snd (Lock_run lops lw1)) f))
   \<and> (\<not> truthy tmo \<and> Queue_init c m world0 = Inr q0 \<longrightarrow>
        (case put item tmo (Queue_run qops0 q0) of (r, qw1) \<Rightarrow>
            set (scheduled (snd qw1)) \<subseteq> set (scheduled (snd (Queue_run qops0 q0)))
            \<and> next_handle (snd qw1) = next_handle (snd (Queue_run qops0 q0))
            \<and> (\<forall>f. r = Inr (FutureRef f) \<longrightarrow> never_timed_out (snd (Queue_run qops qw1)) f))
        \<and> (case get tmo (Queue_run qops0 q0) of (r, qw1) \<Rightarrow>
            set (scheduled (snd qw1)) \<subseteq> set (scheduled (snd (Queue_run qops0 q0)))
            \<and> next_handle (snd qw1) = next_handle (snd (Queue_run qops0 q0))
            \<and> (\<forall>f. r = Inr f \<longrightarrow> never_timed_out (snd (Queue_run qops qw1)) f)))"
proof (intro conjI impI)
  assume ft: "\<not> truthy tmo"
  show "Condition_wait tmo cw = Condition_wait None cw" by (rule Condition_wait_falsy_eq [OF ft])
  show "Semaphore_acquire tmo sw = Semaphore_acquire None sw"
    by (rule Semaphore_acquire_falsy_eq [OF ft])
  show "Lock_acquire tmo lw = Lock_acquire None lw" by (rule Lock_acquire_falsy_eq [OF ft])
  show "put item tmo qw = put item None qw" by (rule put_falsy_eq [OF ft])
  show "get tmo qw = get None qw" by (rule get_falsy_eq [OF ft])
  obtain c0 w0 where r0: "Condition_run cops0 (Condition_init, world0) = (c0, w0)"
    by (cases "Condition_run cops0 (Condition_init, world0)")
  have wf0: "locks_wf (c0, w0)" using Condition_run_wf [OF Condition_init_wf, of cops0] r0 by simp
  obtain f c1 w1 where cw: "Condition_wait tmo (c0, w0) = (f, c1, w1)"
    by (cases "Condition_wait tmo (c0, w0)")
  note N = Condition_wait_no_timeout [OF wf0 ft cw]
  have "notified_only (snd (Condition_run cops (c1, w1))) f"
    by (rule Condition_run_notified_only) (simp_all add: N)
  then show "case Condition_wait tmo (Condition_run cops0 (Condition_init, world0)) of (f, cw1) \<Rightarrow>
            scheduled (snd cw1) = scheduled (snd (Condition_run cops0 (Condition_init, world0)))
            \<and> next_handle (snd cw1) = next_handle (snd (Condition_run cops0 (Condition_init, world0)))
            \<and> notified_only (snd (Condition_run cops cw1)) f"
    using N by (simp add: r0 cw)
next
  assume a: "\<not> truthy tmo \<and> Semaphore_init v = Inr s"
  then have ft: "\<not> truthy tmo" and i: "Semaphore_init v = Inr s" by simp_all
  obtain s0 w0 where r0: "Semaphore_run sops0 (s, world0) = (s0, w0)"
    by (cases "Semaphore_run sops0 (s, world0)")
  have wf0: "locks_wf (s0, w0)"
    using Semaphore_run_wf [OF Semaphore_init_wf [OF i], of sops0] r0 by simp
  obtain f s1 w1 where sa: "Semaphore_acquire tmo (s0, w0) = (f, s1, w1)"
    by (cases "Semaphore_acquire tmo (s0, w0)")
  note N = Semaphore_acquire_no_timeout [OF wf0 ft sa]
  have "never_timed_out (snd (Semaphore_run sops (s1, w1))) f"
    by (rule Semaphore_run_never_timed_out) (simp_all add: N)
  then show "case Semaphore_acquire tmo (Semaphore_run sops0 (s, world0)) of (f, sw1) \<Rightarrow>
            scheduled (snd sw1) = scheduled (snd (Semaphore_run sops0 (s, world0)))
            \<and> next_handle (snd sw1) = next_handle (snd (Semaphore_run sops0 (s, world0)))
            \<and> never_timed_out (snd (Semaphore_run sops sw1)) f"
    using N by (simp add: r0 sa)
next
  assume a: "\<not> truthy tmo \<and> Lock_init = Inr l"
  then have ft: "\<not> truthy tmo" and i: "Lock_init = Inr l" by simp_all
  obtain l0 w0 where r0: "Lock_run lops0 (l, world0) = (l0, w0)"
    by (cases "Lock_run lops0 (l, world0)")
  have wf0: "locks_wf (block l0, w0)"
    using Lock_run_wf [of "(l, world0)" lops0] Lock_init_wf [OF i] r0 by simp
  obtain f b1 w1 where sa: "Semaphore_acquire tmo (block l0, w0) = (f, b1, w1)"
    by (cases "Semaphore_acquire tmo (block l0, w0)")
  have la: "Lock_acquire tmo (l0, w0) = (f, l0\<lparr>block := b1\<rparr>, w1)"
    using sa by (simp add: Lock_acquire_def)
  note N = Semaphore_acquire_no_timeout [OF wf0 ft sa]
  have "never_timed_out (snd (BoundedSemaphore_run lops (b1, w1))) f"
    by (rule BoundedSemaphore_run_invariants(2)) (simp_all add: N)
  then have "never_timed_out (snd (Lock_run lops (l0\<lparr>block := b1\<rparr>, w1))) f"
    using Lock_run_block [of lops "(l0\<lparr>block := b1\<rparr>, w1)"] by (simp add: prod_eq_iff)
  then show "case Lock_acquire tmo (Lock_run lops0 (l, world0)) of (f, lw1) \<Rightarrow>
            scheduled (snd lw1) = scheduled (snd (Lock_run lops0 (l, world0)))
            \<and> next_handle (snd lw1) = next_handle (snd (Lock_run lops0 (l, world0)))
            \<and> never_timed_out (snd (Lock_run lops lw1)) f"
    using N by (simp add: r0 la)
next
  assume a: "\<not> truthy tmo \<and> Queue_init c m world0 = Inr q0"
  then have ft: "\<not> truthy tmo" and i: "Queue_init c m world0 = Inr q0" by simp_all
  obtain q w where r0: "Queue_run qops0 q0 = (q, w)" by (cases "Queue_run qops0 q0")
  have wf0: "queue_wf (q, w)"
    using Queue_run_evolves [OF Queue_init_wf [OF i], of qops0] r0 by simp
  obtain r q1 w1 where p: "put item tmo (q, w) = (r, q1, w1)" by (cases "put item tmo (q, w)")
  note P = put_evolves [OF wf0 p]
  have "never_timed_out (snd (Queue_run qops (q1, w1))) f" if "r = Inr (FutureRef f)" for f
    using Queue_run_evolves [OF P(2), of qops] P(4) [OF ft that] by (simp add: evolves_def)
  then show "case put item tmo (Queue_run qops0 q0) of (r, qw1) \<Rightarrow>
            set (scheduled (snd qw1)) \<subseteq> set (scheduled (snd (Queue_run qops0 q0)))
            \<and> next_handle (snd qw1) = next_handle (snd (Queue_run qops0 q0))
            \<and> (\<forall>f. r = Inr (FutureRef f) \<longrightarrow> never_timed_out (snd (Queue_run qops qw1)) f)"
    using P(3) [OF ft] by (simp add: r0 p)
  obtain r' q2 w2 where g: "get tmo (q, w) = (r', q2, w2)" by (cases "get tmo (q, w)")
  note G = get_evolves [OF wf0 g]
  have "never_timed_out (snd (Queue_run qops (q2, w2))) f" if "r' = Inr f" for f
    using Queue_run_evolves [OF G(2), of qops] G(4) [OF ft that] by (simp add: evolves_def)
  then show "case get tmo (Queue_run qops0 q0) of (r, qw1) \<Rightarrow>
            set (scheduled (snd qw1)) \<subseteq> set (scheduled (snd (Queue_run qops0 q0)))
            \<and> next_handle (snd qw1) = next_handle (snd (Queue_run qops0 q0))
            \<and> (\<forall>f. r = Inr f \<longrightarrow> never_timed_out (snd (Queue_run qops qw1)) f)"
    using G(3) [OF ft] by (simp add: r0 g)
qed


theorem falsy_timeout_is_no_timeout_witness:
  "(\<not> truthy (Some (Timestamp 0)) \<and> Semaphore_init 1 = Inr (\<lparr>waiters = [], timeouts = 0, sem_value = 1\<rparr> :: Semaphore) \<and> Lock_init = Inr \<lparr>block = \<lparr>waiters = [], timeouts = 0, sem_value = 1, initial_value = 1\<rparr>\<rparr>
     \<and> Queue_init FifoQueue (Some 1) world0 = Inr (\<lparr>cls = FifoQueue, maxsize = 1, queue = [], getters = [], putters = [],
          unfinished_tasks = 0, finished = \<lparr>ev_future = 0\<rparr>\<rparr> :: int Queue,
        \<lparr>futures = [\<lparr>fstate = Resolved None, callbacks = []\<rparr>], scheduled = [],
          next_handle = 0\<rparr> :: int option world))
   \<and> fst (put 5 (Some (Timestamp 0)) (Queue_run [PutNowait 4] (\<lparr>cls = FifoQueue, maxsize = 1, queue = [], getters = [], putters = [],
          unfinished_tasks = 0, finished = \<lparr>ev_future = 0\<rparr>\<rparr> :: int Queue,
        \<lparr>futures = [\<lparr>fstate = Resolved None, callbacks = []\<rparr>], scheduled = [],
          next_handle = 0\<rparr> :: int option world))) = Inr (FutureRef 2)
   \<and> (Condition_wait (Some (Timestamp 0)) (Condition_init, world0) = Condition_wait None (Condition_init, world0)
      \<and> Semaphore_acquire (Some (Timestamp 0)) ((\<lparr>waiters = [], timeouts = 0, sem_value = 1\<rparr> :: Semaphore), world0) = Semaphore_acquire None ((\<lparr>waiters = [], timeouts = 0, sem_value = 1\<rparr> :: Semaphore), world0)
      \<and> Lock_acquire (Some (Timestamp 0)) (\<lparr>block = \<lparr>waiters = [], timeouts = 0, sem_value = 1, initial_value = 1\<rparr>\<rparr>, world0) = Lock_acquire None (\<lparr>block = \<lparr>waiters = [], timeouts = 0, sem_value = 1, initial_value = 1\<rparr>\<rparr>, world0)
      \<and> put 5 (Some (Timestamp 0)) (\<lparr>cls = FifoQueue, maxsize = 1, queue = [], getters = [], putters = [],
          unfinished_tasks = 0, finished = \<lparr>ev_future = 0\<rparr>\<rparr> :: int Queue,
        \<lparr>futures = [\<lparr>fstate = Resolved None, callbacks = []\<rparr>], scheduled = [],
          next_handle = 0\<rparr> :: int option world) = put 5 None (\<lparr>cls = FifoQueue, maxsize = 1, queue = [], getters = [], putters = [],
          unfinished_tasks = 0, finished = \<lparr>ev_future = 0\<rparr>\<rparr> :: int Queue,
        \<lparr>futures = [\<lparr>fstate = Resolved None, callbacks = []\<rparr>], scheduled = [],
          next_handle = 0\<rparr> :: int option world)
      \<and> get (Some (Timestamp 0)) (\<lparr>cls = FifoQueue, maxsize = 1, queue = [], getters = [], putters = [],
          unfinished_tasks = 0, finished = \<lparr>ev_future = 0\<rparr>\<rparr> :: int Queue,
        \<lparr>futures = [\<lparr>fstate = Resolved None, callbacks = []\<rparr>], scheduled = [],
          next_handle = 0\<rparr> :: int option world) = get None (\<lparr>cls = FifoQueue, maxsize = 1, queue = [], getters = [], putters = [],
          unfinished_tasks = 0, finished = \<lparr>ev_future = 0\<rparr>\<rparr> :: int Queue,
        \<lparr>futures = [\<lparr>fstate = Resolved None, callbacks = []\<rparr>], scheduled = [],
          next_handle = 0\<rparr> :: int option world)
      \<and> (case Condition_wait (Some (Timestamp 0)) (Condition_run [Wait None] (Condition_init, world0)) of (f, cw1) \<Rightarrow>
            scheduled (snd cw1) = scheduled (snd (Condition_run [Wait None] (Condition_init, world0)))
            \<and> next_handle (snd cw1) = next_handle (snd (Condition_run [Wait None] (Condition_init, world0)))
            \<and> notified_only (snd (Condition_run [Notify 1, Notify 1] cw1)) f))
   \<and> (case Semaphore_acquire (Some (Timestamp 0)) (Semaphore_run [Acquire None] ((\<lparr>waiters = [], timeouts = 0, sem_value = 1\<rparr> :: Semaphore), world0)) of (f, sw1) \<Rightarrow>
            scheduled (snd sw1) = scheduled (snd (Semaphore_run [Acquire None] ((\<lparr>waiters = [], timeouts = 0, sem_value = 1\<rparr> :: Semaphore), world0)))
            \<and> next_handle (snd sw1) = next_handle (snd (Semaphore_run [Acquire None] ((\<lparr>waiters = [], timeouts = 0, sem_value = 1\<rparr> :: Semaphore), world0)))
            \<and> never_timed_out (snd (Semaphore_run [Release] sw1)) f)
   \<and> (case Lock_acquire (Some (Timestamp 0)) (Lock_run [Acquire None] (\<lparr>block = \<lparr>waiters = [], timeouts = 0, sem_value = 1, initial_value = 1\<rparr>\<rparr>, world0)) of (f, lw1) \<Rightarrow>
            scheduled (snd lw1) = scheduled (snd (Lock_run [Acquire None] (\<lparr>block = \<lparr>waiters = [], timeouts = 0, sem_value = 1, initial_value = 1\<rparr>\<rparr>, world0)))
            \<and> next_handle (snd lw1) = next_handle (snd (Lock_run [Acquire None] (\<lparr>block = \<lparr>waiters = [], timeouts = 0, sem_value = 1, initial_value = 1\<rparr>\<rparr>, world0)))
            \<and> never_timed_out (snd (Lock_run [Release] lw1)) f)
   \<and> ((case put 5 (Some (Timestamp 0)) (Queue_run [PutNowait 4] (\<lparr>cls = FifoQueue, maxsize = 1, queue = [], getters = [], putters = [],
          unfinished_tasks = 0, finished = \<lparr>ev_future = 0\<rparr>\<rparr> :: int Queue,
        \<lparr>futures = [\<lparr>fstate = Resolved None, callbacks = []\<rparr>], scheduled = [],
          next_handle = 0\<rparr> :: int option world)) of (r, qw1) \<Rightarrow>
            set (scheduled (snd qw1)) \<subseteq> set (scheduled (snd (Queue_run [PutNowait 4] (\<lparr>cls = FifoQueue, maxsize = 1, queue = [], getters = [], putters = [],
          unfinished_tasks = 0, finished = \<lparr>ev_future = 0\<rparr>\<rparr> :: int Queue,
        \<lparr>futures = [\<lparr>fstate = Resolved None, callbacks = []\<rparr>], scheduled = [],
          next_handle = 0\<rparr> :: int option world))))
            \<and> next_handle (snd qw1) = next_handle (snd (Queue_run [PutNowait 4] (\<lparr>cls = FifoQueue, maxsize = 1, queue = [], getters = [], putters = [],
          unfinished_tasks = 0, finished = \<lparr>ev_future = 0\<rparr>\<rparr> :: int Queue,
        \<lparr>futures = [\<lparr>fstate = Resolved None, callbacks = []\<rparr>], scheduled = [],
          next_handle = 0\<rparr> :: int option world)))
            \<and> (\<forall>f. r = Inr (FutureRef f) \<longrightarrow> never_timed_out (snd (Queue_run [GetNowait] qw1)) f))
        \<and> (case get (Some (Timestamp 0)) (Queue_run [PutNowait 4] (\<lparr>cls = FifoQueue, maxsize = 1, queue = [], getters = [], putters = [],
          unfinished_tasks = 0, finished = \<lparr>ev_future = 0\<rparr>\<rparr> :: int Queue,
        \<lparr>futures = [\<lparr>fstate = Resolved None, callbacks = []\<rparr>], scheduled = [],
          next_handle = 0\<rparr> :: int option world)) of (r, qw1) \<Rightarrow>
            set (scheduled (snd qw1)) \<subseteq> set (scheduled (snd (Queue_run [PutNowait 4] (\<lparr>cls = FifoQueue, maxsize = 1, queue = [], getters = [], putters = [],
          unfinished_tasks = 0, finished = \<lparr>ev_future = 0\<rparr>\<rparr> :: int Queue,
        \<lparr>futures = [\<lparr>fstate = Resolved None, callbacks = []\<rparr>], scheduled = [],
          next_handle = 0\<rparr> :: int option world))))
            \<and> next_handle (snd qw1) = next_handle (snd (Queue_run [PutNowait 4] (\<lparr>cls = FifoQueue, maxsize = 1, queue = [], getters = [], putters = [],
          unfinished_tasks = 0, finished = \<lparr>ev_future = 0\<rparr>\<rparr> :: int Queue,
        \<lparr>futures = [\<lparr>fstate = Resolved None, callbacks = []\<rparr>], scheduled = [],
          next_handle = 0\<rparr> :: int option world)))
            \<and> (\<forall>f. r = Inr f \<longrightarrow> never_timed_out (snd (Queue_run [GetNowait] qw1)) f)))"
  (is "?H \<and> ?E \<and> ?C1 \<and> ?C2 \<and> ?C3 \<and> ?C4")
proof -
  have ft: "\<not> truthy (Some (Timestamp 0))" by simp
  have hs: "Semaphore_init 1 = Inr (\<lparr>waiters = [], timeouts = 0, sem_value = 1\<rparr> :: Semaphore)" by (simp add: Semaphore_init_def)
  have hl: "Lock_init = Inr \<lparr>block = \<lparr>waiters = [], timeouts = 0, sem_value = 1, initial_value = 1\<rparr>\<rparr>" by (rule Lock_init_eq)
  have hq: "Queue_init FifoQueue (Some 1) world0 = Inr (\<lparr>cls = FifoQueue, maxsize = 1, queue = [], getters = [], putters = [],
          unfinished_tasks = 0, finished = \<lparr>ev_future = 0\<rparr>\<rparr> :: int Queue,
        \<lparr>futures = [\<lparr>fstate = Resolved None, callbacks = []\<rparr>], scheduled = [],
          next_handle = 0\<rparr> :: int option world)"
    by (simp add: queue_eval)
  have h: ?H using ft hs hl hq by (intro conjI)
  have e: ?E by (simp add: queue_eval Queue_run_def)
  note T = falsy_timeout_is_no_timeout
    [of "(Some (Timestamp 0))" "(Condition_init, world0)" "((\<lparr>waiters = [], timeouts = 0, sem_value = 1\<rparr> :: Semaphore), world0)" "(\<lparr>block = \<lparr>waiters = [], timeouts = 0, sem_value = 1, initial_value = 1\<rparr>\<rparr>, world0)" 5
        "(\<lparr>cls = FifoQueue, maxsize = 1, queue = [], getters = [], putters = [],
          unfinished_tasks = 0, finished = \<lparr>ev_future = 0\<rparr>\<rparr> :: int Queue,
        \<lparr>futures = [\<lparr>fstate = Resolved None, callbacks = []\<rparr>], scheduled = [],
          next_handle = 0\<rparr> :: int option world)" "[Wait None]" "[Notify 1, Notify 1]" 1 "(\<lparr>waiters = [], timeouts = 0, sem_value = 1\<rparr> :: Semaphore)" "[Acquire None]" "[Release]"
        "\<lparr>block = \<lparr>waiters = [], timeouts = 0, sem_value = 1, initial_value = 1\<rparr>\<rparr>" "[Acquire None]" "[Release]" FifoQueue "Some 1" "(\<lparr>cls = FifoQueue, maxsize = 1, queue = [], getters = [], putters = [],
          unfinished_tasks = 0, finished = \<lparr>ev_future = 0\<rparr>\<rparr> :: int Queue,
        \<lparr>futures = [\<lparr>fstate = Resolved None, callbacks = []\<rparr>], scheduled = [],
          next_handle = 0\<rparr> :: int option world)" "[PutNowait 4]" "[GetNowait]"]
  have c1: ?C1 using T [THEN conjunct1] ft by (rule mp)
  have c2: ?C2 using T [THEN conjunct2, THEN conjunct1] conjI [OF ft hs] by (rule mp)
  have c3: ?C3 using T [THEN conjunct2, THEN conjunct2, THEN conjunct1] conjI [OF ft hl]
    by (rule mp)
  have c4: ?C4 using T [THEN conjunct2, THEN conjunct2, THEN conjunct2] conjI [OF ft hq]
    by (rule mp)
  show ?thesis by (rule conjI [OF h conjI [OF e conjI [OF c1 conjI [OF c2 conjI [OF c3 c4]]]]])
qed

text \<open>
  Claim C10 as stated ("every blocking operation that accepts an optional deadline") fails
  for \<^verbatim>\<open>Event.wait\<close> and \<^verbatim>\<open>Queue.join\<close>, which test \<^verbatim>\<open>timeout is None\<close>: with a
  timeout of 0 they return the wrapper of \<^verbatim>\<open>gen.with_timeout\<close> and a timeout is
  scheduled; when the timer fires it, the wrapper fails with \<^verbatim>\<open>TimeoutError\<close>. With no
  timeout they return the event's own future and schedule nothing.
\<close>

theorem event_wait_zero_timeout_counterexample:
  "\<not> truthy (Some (Timestamp 0))
   \<and> (case Event_init (world0 :: unit option world) of (ev, w) \<Rightarrow>
        Event_wait None (ev, w) = (ev_future ev, w)
        \<and> scheduled w = []
        \<and> Event_wait (Some (Timestamp 0)) (ev, w) \<noteq> Event_wait None (ev, w)
        \<and> scheduled (snd (Event_wait (Some (Timestamp 0)) (ev, w)))
            = [(0, Timestamp 0, WithTimeoutCallback (fst (Event_wait (Some (Timestamp 0)) (ev, w))))]
        \<and> fstate_of (Event_fire 0 (snd (Event_wait (Some (Timestamp 0)) (ev, w)))) (fst (Event_wait (Some (Timestamp 0)) (ev, w)))
            = Failed TimeoutError)
   \<and> (case Queue_step (\<lparr>cls = FifoQueue, maxsize = 1, queue = [], getters = [], putters = [],
          unfinished_tasks = 0, finished = \<lparr>ev_future = 0\<rparr>\<rparr> :: int Queue,
        \<lparr>futures = [\<lparr>fstate = Resolved None, callbacks = []\<rparr>], scheduled = [],
          next_handle = 0\<rparr> :: int option world) (PutNowait 4) of (q, w) \<Rightarrow>
        join None (q, w) = (ev_future (finished q), w)
        \<and> scheduled w = []
        \<and> join (Some (Timestamp 0)) (q, w) \<noteq> join None (q, w)
        \<and> scheduled (snd (join (Some (Timestamp 0)) (q, w)))
            = [(0, Timestamp 0, WithTimeoutCallback (fst (join (Some (Timestamp 0)) (q, w))))]
        \<and> fstate_of (Queue_fire 0 (snd (join (Some (Timestamp 0)) (q, w)))) (fst (join (Some (Timestamp 0)) (q, w)))
            = Failed TimeoutError)"
  by (simp add: queue_eval join_def Event_wait_def with_timeout_def add_timeout_def
        add_done_callback_def Event_fire_def Queue_fire_def pop_timeout_def remove_timeout_def
        with_timeout_callback_def set_exception_def)

subsection \<open>Every state of a queue is well-formed\<close>

lemma waiters_ok_subset:
  "waiters_ok w ev ws \<Longrightarrow> set ws1 \<subseteq> set ws \<Longrightarrow> waiters_ok w ev ws1"
  by (auto simp: waiters_ok_def list_all_iff)

lemma waiters_ok_set_outcome:
  assumes "waiters_ok w ev ws"
  shows "waiters_ok (set_outcome g out w) ev ws"
proof -
  have "waiter_ok (set_outcome g out w) ev x" if "waiter_ok w ev x" for x
    using that set_outcome_callbacks [of g out w x]
    by (auto simp: waiter_ok_def set_outcome_length)
  then show ?thesis using assms by (auto simp: waiters_ok_def list_all_iff set_outcome_length)
qed

lemma waiters_ok_Future:
  assumes "Future w = (f, w1)" and "waiters_ok w ev ws"
  shows "waiters_ok w1 ev ws" and "waiters_ok w1 ev (ws @ [f])" and "waiters_ok w1 f ws"
proof -
  have fu: "futures w1 = futures w @ [\<lparr>fstate = Pending, callbacks = []\<rparr>]"
    and f: "f = length (futures w)"
    using assms(1) by (auto simp: Future_def)
  have ok: "waiter_ok w1 ev x \<and> waiter_ok w1 f x" if "waiter_ok w ev x" for x
    using that by (simp add: waiter_ok_def fu f nth_append)
  have okf: "waiter_ok w1 ev f"
    using assms(2) by (simp add: waiter_ok_def waiters_ok_def fu f)
  show "waiters_ok w1 ev ws" and "waiters_ok w1 ev (ws @ [f])" and "waiters_ok w1 f ws"
    using assms(2) ok okf by (auto simp: waiters_ok_def list_all_iff fu f)
qed

lemma waiters_ok_same_futures:
  "futures w1 = futures w \<Longrightarrow> waiters_ok w ev ws \<Longrightarrow> waiters_ok w1 ev ws"
  by (simp add: waiters_ok_def waiter_ok_def list_all_iff)

lemma waiters_ok_set_timeout:
  assumes "waiters_ok w ev ws" and "fut < length (futures w)"
      and "futures w ! fut = \<lparr>fstate = Pending, callbacks = []\<rparr>"
  shows "waiters_ok (set_timeout fut tmo w) ev ws"
proof (cases "truthy tmo")
  case False
  then show ?thesis using assms(1) by (simp add: set_timeout_falsy)
next
  case True
  then obtain t where t: "tmo = Some t" using truthy_Some by blast
  have e: "futures (set_timeout fut tmo w)
             = (futures w)[fut := \<lparr>fstate = Pending, callbacks = [RemoveTimeout (next_handle w)]\<rparr>]"
    using True assms(2,3)
    by (simp add: t set_timeout_def add_timeout_def add_done_callback_def future_done_def
          fstate_of_def Let_def)
  have "waiter_ok (set_timeout fut tmo w) ev x" if "waiter_ok w ev x" for x
    using that assms(2) by (cases "x = fut") (simp_all add: waiter_ok_def e)
  then show ?thesis using assms(1) by (auto simp: waiters_ok_def list_all_iff e)
qed

lemma waiters_ok_with_timeout:
  assumes "waiters_ok w ev ws"
  shows "waiters_ok (snd (with_timeout t ev w)) ev ws"
proof -
  have evv: "ev < length (futures w)" using assms by (simp add: waiters_ok_def)
  show ?thesis
  proof (cases "future_done w ev")
    case True
    have "waiter_ok (snd (with_timeout t ev w)) ev x" if "waiter_ok w ev x" for x
      using that by (simp add: with_timeout_done [OF True evv] waiter_ok_def nth_append)
    then show ?thesis using assms
      by (auto simp: waiters_ok_def list_all_iff with_timeout_done [OF True evv])
  next
    case False
    have "waiter_ok (snd (with_timeout t ev w)) ev x" if "waiter_ok w ev x" for x
      using that evv
      by (simp add: with_timeout_pending [OF False evv] waiter_ok_def nth_append
            nth_list_update)
    then show ?thesis using assms
      by (auto simp: waiters_ok_def list_all_iff with_timeout_pending [OF False evv])
  qed
qed

lemma waiters_ok_Queue_fire:
  assumes "waiters_ok w ev ws"
  shows "waiters_ok (Queue_fire h w) ev ws"
proof (cases "pop_timeout h w")
  case None
  then show ?thesis using assms by (simp add: Queue_fire_def)
next
  case (Some p)
  obtain cb w1 where p: "p = (cb, w1)" by (cases p)
  have w1: "waiters_ok w1 ev ws"
    by (rule waiters_ok_same_futures [OF pop_timeout_props(1) [OF Some [unfolded p]] assms])
  show ?thesis
    using Some p w1 waiters_ok_set_outcome [OF w1, of _ "Failed TimeoutError"] assms
    by (cases cb)
       (simp_all add: Queue_fire_def Queue_on_timeout_def with_timeout_callback_def
          set_exception_def)
qed

lemma queue_state_ok_put_internal:
  assumes ok: "queue_state_ok (self, w)" and pi: "put_internal item (self, w) = (self1, w1)"
  shows "queue_state_ok (self1, w1)"
proof -
  obtain ev1 where ec: "Event_clear (finished self, w) = (ev1, w1)"
    and s1: "self1 = put_item item (self\<lparr>unfinished_tasks := unfinished_tasks self + 1, finished := ev1\<rparr>)"
    using pi by (auto simp: put_internal_def Let_def split: prod.splits)
  let ?ws = "getters self @ map snd (putters self)"
  have w: "waiters_ok w (ev_future (finished self)) ?ws" and u: "0 \<le> unfinished_tasks self"
    using ok by (simp_all add: queue_state_ok_def)
  have "waiters_ok w1 (ev_future ev1) ?ws"
  proof (cases "future_done w (ev_future (finished self))")
    case False
    then show ?thesis using ec w by (simp add: Event_clear_def)
  next
    case True
    obtain f wa where fu: "Future w = (f, wa)" by (cases "Future w")
    then have "ev1 = (finished self)\<lparr>ev_future := f\<rparr>" "w1 = wa"
      using ec True by (simp_all add: Event_clear_def)
    then show ?thesis using waiters_ok_Future(3) [OF fu w] by simp
  qed
  then show ?thesis using u by (simp add: queue_state_ok_def s1 put_item_fields)
qed

lemma queue_state_ok_update:
  assumes "queue_state_ok (self, w)"
      and "finished self1 = finished self" and "0 \<le> unfinished_tasks self1"
      and "set (getters self1) \<subseteq> set (getters self)"
      and "set (putters self1) \<subseteq> set (putters self)"
  shows "queue_state_ok (self1, w)"
proof -
  have "set (getters self1 @ map snd (putters self1))
          \<subseteq> set (getters self @ map snd (putters self))"
    using assms(4,5) by auto
  then have "waiters_ok w (ev_future (finished self)) (getters self1 @ map snd (putters self1))"
    using assms(1) waiters_ok_subset unfolding queue_state_ok_def fst_conv snd_conv by blast
  then show ?thesis using assms(2,3) by (simp add: queue_state_ok_def)
qed

lemma queue_state_ok_world:
  assumes "queue_state_ok (self, w)"
      and "\<And>ws. waiters_ok w (ev_future (finished self)) ws
                  \<Longrightarrow> waiters_ok w1 (ev_future (finished self)) ws"
  shows "queue_state_ok (self, w1)"
  using assms by (simp add: queue_state_ok_def)

lemma consume_expired_state_ok:
  assumes "queue_state_ok (self, w)"
  shows "queue_state_ok (fst (consume_expired (self, w)), w)"
proof (rule queue_state_ok_update [OF assms])
  show "0 \<le> unfinished_tasks (fst (consume_expired (self, w)))"
    using assms by (simp add: consume_expired_def Let_def queue_state_ok_def)
qed (auto simp: consume_expired_def Let_def dest: set_dropWhileD)


lemma queue_state_ok_set_result:
  "queue_state_ok (self, w) \<Longrightarrow> queue_state_ok (self, set_result g v w)"
  unfolding set_result_def
  by (erule queue_state_ok_world) (rule waiters_ok_set_outcome)

lemma queue_state_ok_get_item:
  assumes "queue_state_ok (self, w)" and "get_item self = Inr (x, self1)"
  shows "queue_state_ok (self1, w)"
  using assms get_item_fields [OF assms(2)] by (simp add: queue_state_ok_def)

lemma put_nowait_state_ok:
  assumes ok: "queue_state_ok qw"
  shows "queue_state_ok (snd (put_nowait item qw))"
proof -
  obtain self0 w where qw: "qw = (self0, w)" by (cases qw)
  define self where "self = fst (consume_expired (self0, w))"
  have ce: "consume_expired (self0, w) = (self, w)"
    by (simp add: self_def consume_expired_def Let_def)
  have oks: "queue_state_ok (self, w)"
    using consume_expired_state_ok [OF ok [unfolded qw]] by (simp add: self_def)
  show ?thesis
  proof (cases "getters self")
    case Nil
    show ?thesis
    proof (cases "full self")
      case True
      then show ?thesis using Nil oks by (simp add: put_nowait_def qw ce)
    next
      case False
      obtain self1 w1 where pi: "put_internal item (self, w) = (self1, w1)"
        by (cases "put_internal item (self, w)")
      show ?thesis
        using Nil False pi queue_state_ok_put_internal [OF oks pi]
        by (simp add: put_nowait_def qw ce)
    qed
  next
    case (Cons getter rest)
    show ?thesis
    proof (cases "empty self")
      case False
      then show ?thesis using Cons oks by (simp add: put_nowait_def qw ce)
    next
      case True
      have ok1: "queue_state_ok (self\<lparr>getters := rest\<rparr>, w)"
        by (rule queue_state_ok_update [OF oks]) (use oks Cons in \<open>auto simp: queue_state_ok_def\<close>)
      obtain self2 w2 where pi: "put_internal item (self\<lparr>getters := rest\<rparr>, w) = (self2, w2)"
        by (cases "put_internal item (self\<lparr>getters := rest\<rparr>, w)")
      have ok2: "queue_state_ok (self2, w2)" by (rule queue_state_ok_put_internal [OF ok1 pi])
      show ?thesis
      proof (cases "get_item self2")
        case (Inl e)
        then show ?thesis using Cons True pi ok2 by (simp add: put_nowait_def qw ce)
      next
        case (Inr p)
        obtain x self3 where p: "p = (x, self3)" by (cases p)
        have "queue_state_ok (self3, set_result getter (Some x) w2)"
          by (rule queue_state_ok_set_result
                [OF queue_state_ok_get_item [OF ok2 Inr [unfolded p]]])
        then show ?thesis using Cons True pi Inr p by (simp add: put_nowait_def qw ce)
      qed
    qed
  qed
qed

lemma get_nowait_state_ok:
  assumes ok: "queue_state_ok qw"
  shows "queue_state_ok (snd (get_nowait qw))"
proof -
  obtain self0 w where qw: "qw = (self0, w)" by (cases qw)
  define self where "self = fst (consume_expired (self0, w))"
  have ce: "consume_expired (self0, w) = (self, w)"
    by (simp add: self_def consume_expired_def Let_def)
  have oks: "queue_state_ok (self, w)"
    using consume_expired_state_ok [OF ok [unfolded qw]] by (simp add: self_def)
  show ?thesis
  proof (cases "putters self")
    case Nil
    show ?thesis
    proof (cases "get_item self")
      case (Inl e)
      then show ?thesis using Nil oks by (simp add: get_nowait_def qw ce)
    next
      case (Inr p)
      obtain x self1 where p: "p = (x, self1)" by (cases p)
      show ?thesis
        using Nil Inr p oks queue_state_ok_get_item [OF oks Inr [unfolded p]]
        by (simp add: get_nowait_def qw ce)
    qed
  next
    case (Cons ip rest)
    obtain item putter where ip: "ip = (item, putter)" by (cases ip)
    show ?thesis
    proof (cases "full self")
      case False
      then show ?thesis using Cons ip oks by (simp add: get_nowait_def qw ce)
    next
      case True
      have ok1: "queue_state_ok (self\<lparr>putters := rest\<rparr>, w)"
        by (rule queue_state_ok_update [OF oks]) (use oks Cons in \<open>auto simp: queue_state_ok_def\<close>)
      obtain self2 w2 where pi: "put_internal item (self\<lparr>putters := rest\<rparr>, w) = (self2, w2)"
        by (cases "put_internal item (self\<lparr>putters := rest\<rparr>, w)")
      have ok2: "queue_state_ok (self2, set_result putter None w2)"
        by (rule queue_state_ok_set_result [OF queue_state_ok_put_internal [OF ok1 pi]])
      show ?thesis
      proof (cases "get_item self2")
        case (Inl e)
        then show ?thesis using Cons ip True pi ok2 by (simp add: get_nowait_def qw ce)
      next
        case (Inr p)
        obtain x self3 where p: "p = (x, self3)" by (cases p)
        show ?thesis
          using Cons ip True pi Inr p queue_state_ok_get_item [OF ok2 Inr [unfolded p]]
          by (simp add: get_nowait_def qw ce)
      qed
    qed
  qed
qed

lemma queue_state_ok_append:
  assumes ok: "queue_state_ok (self, w)"
      and fut: "waiters_ok w (ev_future (finished self)) [fut]"
  shows "queue_state_ok (self\<lparr>getters := getters self @ [fut]\<rparr>, w)"
    and "queue_state_ok (self\<lparr>putters := putters self @ [(item, fut)]\<rparr>, w)"
  using assms by (auto simp: queue_state_ok_def waiters_ok_def)


lemma put_nowait_full_same:
  assumes pn: "put_nowait item (self, w) = (Inl QueueFull, self1, w1)"
  shows "w1 = w \<and> finished self1 = finished self"
proof -
  obtain q where ce: "consume_expired (self, w) = (q, w)"
    by (simp add: consume_expired_def Let_def)
  note qf = consume_expired_fields [OF ce]
  have q: "fst (consume_expired (self, w)) = q" using ce by simp
  show ?thesis
  proof (cases "getters q")
    case Nil
    show ?thesis
      using pn Nil qf by (cases "full q") (auto simp: put_nowait_cases q Let_def split: prod.splits)
  next
    case (Cons getter rest)
    show ?thesis
    proof (cases "empty q")
      case False
      then show ?thesis using pn Cons by (auto simp: put_nowait_cases q Let_def)
    next
      case True
      obtain q2 w2 where pi: "put_internal item (q\<lparr>getters := rest\<rparr>, w) = (q2, w2)"
        by (cases "put_internal item (q\<lparr>getters := rest\<rparr>, w)")
      have "queue q2 \<noteq> []" by (rule put_internal_props(8) [OF pi])
      then obtain x q3 where gi: "get_item q2 = Inr (x, q3)" using get_item_nonempty by blast
      then show ?thesis using pn Cons True pi by (auto simp: put_nowait_cases q Let_def)
    qed
  qed
qed

lemma get_nowait_empty_world:
  assumes gn: "get_nowait (self, w) = (Inl QueueEmpty, self1, w1)"
  shows "w1 = w"
proof -
  obtain q where ce: "consume_expired (self, w) = (q, w)"
    by (simp add: consume_expired_def Let_def)
  note qf = consume_expired_fields [OF ce]
  have q: "fst (consume_expired (self, w)) = q" using ce by simp
  show ?thesis
  proof (cases "putters q")
    case Nil
    show ?thesis
    proof (cases "qsize q \<noteq> 0")
      case False
      then show ?thesis using gn Nil qf by (auto simp: get_nowait_cases q Let_def)
    next
      case True
      then have "queue q \<noteq> []" by (simp add: qsize_def)
      then obtain x q2 where gi: "get_item q = Inr (x, q2)" using get_item_nonempty by blast
      then show ?thesis using gn Nil True by (auto simp: get_nowait_cases q Let_def)
    qed
  next
    case (Cons pr rest)
    obtain item putter where pr: "pr = (item, putter)" by (cases pr)
    show ?thesis
    proof (cases "full q")
      case False
      then show ?thesis using gn Cons pr by (auto simp: get_nowait_cases q Let_def)
    next
      case True
      obtain q2 w2 where pi: "put_internal item (q\<lparr>putters := rest\<rparr>, w) = (q2, w2)"
        by (cases "put_internal item (q\<lparr>putters := rest\<rparr>, w)")
      have "queue q2 \<noteq> []" by (rule put_internal_props(8) [OF pi])
      then obtain x q3 where gi: "get_item q2 = Inr (x, q3)" using get_item_nonempty by blast
      then show ?thesis using gn Cons pr True pi by (auto simp: get_nowait_cases q Let_def)
    qed
  qed
qed

lemma waiters_ok_fresh:
  assumes fu: "Future w = (fut, wa)" and ev: "ev < length (futures w)"
  shows "waiters_ok (set_timeout fut tmo wa) ev [fut]"
proof -
  have fa: "futures wa = futures w @ [\<lparr>fstate = Pending, callbacks = []\<rparr>]"
    and f: "fut = length (futures w)"
    using fu by (auto simp: Future_def)
  show ?thesis
  proof (cases "truthy tmo")
    case False
    then show ?thesis using ev by (simp add: set_timeout_falsy waiters_ok_def waiter_ok_def fa f)
  next
    case True
    then obtain t where t: "tmo = Some t" using truthy_Some by blast
    have e: "futures (set_timeout fut tmo wa)
               = (futures wa)[fut := \<lparr>fstate = Pending, callbacks = [RemoveTimeout (next_handle wa)]\<rparr>]"
      using True
      by (simp add: t set_timeout_def add_timeout_def add_done_callback_def future_done_def
            fstate_of_def Let_def fa f)
    show ?thesis using ev e unfolding f by (simp add: waiters_ok_def waiter_ok_def fa)
  qed
qed

lemma put_state_ok:
  assumes ok: "queue_state_ok qw"
  shows "queue_state_ok (snd (put item tmo qw))"
proof -
  obtain r0 q0 w0 where pn: "put_nowait item qw = (r0, q0, w0)"
    by (cases "put_nowait item qw")
  have ok0: "queue_state_ok (q0, w0)" using put_nowait_state_ok [OF ok, of item] pn by simp
  show ?thesis
  proof (cases "r0 = Inl QueueFull")
    case False
    then have "snd (put item tmo qw) = (q0, w0)"
      using pn by (auto simp: put_def split: sum.splits exn.splits)
    then show ?thesis using ok0 by simp
  next
    case True
    obtain fut wa where fu: "Future w0 = (fut, wa)" by (cases "Future w0")
    have res: "snd (put item tmo qw)
                 = (q0\<lparr>putters := putters q0 @ [(item, fut)]\<rparr>, set_timeout fut tmo wa)"
      using pn True fu by (simp add: put_def Let_def)
    have fa: "futures wa = futures w0 @ [\<lparr>fstate = Pending, callbacks = []\<rparr>]"
      and f: "fut = length (futures w0)"
      using fu by (auto simp: Future_def)
    have ev: "ev_future (finished q0) < length (futures w0)"
      using ok0 by (simp add: queue_state_ok_def waiters_ok_def)
    have oka: "queue_state_ok (q0, wa)"
      by (rule queue_state_ok_world [OF ok0]) (rule waiters_ok_Future(1) [OF fu])
    have okt: "queue_state_ok (q0, set_timeout fut tmo wa)"
      by (rule queue_state_ok_world [OF oka], rule waiters_ok_set_timeout)
         (simp_all add: fa f)
    show ?thesis
      unfolding res
      by (rule queue_state_ok_append(2) [OF okt waiters_ok_fresh [OF fu ev]])
  qed
qed

lemma get_state_ok:
  assumes ok: "queue_state_ok qw"
  shows "queue_state_ok (snd (get tmo qw))"
proof -
  obtain self w where qw: "qw = (self, w)" by (cases qw)
  obtain fut wa where fu: "Future w = (fut, wa)" by (cases "Future w")
  have fa: "futures wa = futures w @ [\<lparr>fstate = Pending, callbacks = []\<rparr>]"
    and f: "fut = length (futures w)"
    using fu by (auto simp: Future_def)
  have oka: "queue_state_ok (self, wa)"
    by (rule queue_state_ok_world [OF ok [unfolded qw]]) (rule waiters_ok_Future(1) [OF fu])
  obtain r0 q0 w0 where gn: "get_nowait (self, wa) = (r0, q0, w0)"
    by (cases "get_nowait (self, wa)")
  have ok0: "queue_state_ok (q0, w0)" using get_nowait_state_ok [OF oka] gn by simp
  have unf: "get tmo qw =
      (case (r0, q0, w0) of
        (Inl QueueEmpty, self, w) \<Rightarrow>
          (let self1 = self\<lparr>getters := getters self @ [fut]\<rparr>;
               w1 = set_timeout fut tmo w
           in (Inr fut, self1, w1))
      | (Inl e, self, w) \<Rightarrow> (Inl e, self, w)
      | (Inr x, self, w) \<Rightarrow> (Inr fut, self, set_result fut (Some x) w))"
    using fu gn by (simp add: get_def qw)
  show ?thesis
  proof (cases r0)
    case (Inr x)
    then show ?thesis using unf queue_state_ok_set_result [OF ok0] by simp
  next
    case (Inl e)
    show ?thesis
    proof (cases "e = QueueEmpty")
      case False
      then have "snd (get tmo qw) = (q0, w0)" using unf Inl by (cases e; simp)
      then show ?thesis using ok0 by simp
    next
      case True
      have w0: "w0 = wa" by (rule get_nowait_empty_world [OF gn [unfolded Inl True]])
      have fin: "finished q0 = finished self"
        by (rule get_nowait_empty_finished [OF gn [unfolded Inl True]])
      have res: "snd (get tmo qw)
                   = (q0\<lparr>getters := getters q0 @ [fut]\<rparr>, set_timeout fut tmo wa)"
        using unf Inl True w0 by (simp add: Let_def)
      have ev: "ev_future (finished q0) < length (futures w)"
        using ok qw fin by (simp add: queue_state_ok_def waiters_ok_def)
      have okt: "queue_state_ok (q0, set_timeout fut tmo wa)"
        by (rule queue_state_ok_world [OF ok0 [unfolded w0]], rule waiters_ok_set_timeout)
           (simp_all add: fa f)
      show ?thesis
        unfolding res
        by (rule queue_state_ok_append(1) [OF okt waiters_ok_fresh [OF fu ev]])
    qed
  qed
qed

lemma task_done_state_ok:
  assumes ok: "queue_state_ok qw"
  shows "queue_state_ok (snd (task_done qw))"
proof -
  obtain self w where qw: "qw = (self, w)" by (cases qw)
  have a: "queue_state_ok (self\<lparr>unfinished_tasks := unfinished_tasks self - 1\<rparr>, w)"
    if "\<not> unfinished_tasks self \<le> 0"
    using ok that by (simp add: qw queue_state_ok_def)
  have b: "queue_state_ok (self\<lparr>unfinished_tasks := unfinished_tasks self - 1\<rparr>,
              set_result (ev_future (finished self)) None w)"
    if "\<not> unfinished_tasks self \<le> 0"
    by (rule queue_state_ok_set_result [OF a [OF that]])
  show ?thesis
    using ok a b
    by (auto simp: task_done_def qw Let_def Event_set_def split: prod.splits if_splits)
qed

lemma join_state_ok:
  assumes ok: "queue_state_ok qw"
  shows "queue_state_ok (fst qw, snd (join tmo qw))"
proof (cases tmo)
  case None
  then show ?thesis using ok by (simp add: join_def Event_wait_def)
next
  case (Some t)
  have "queue_state_ok (fst qw, snd (with_timeout t (ev_future (finished (fst qw))) (snd qw)))"
    by (rule queue_state_ok_world [where w = "snd qw"]) (use ok in \<open>simp_all add: waiters_ok_with_timeout\<close>)
  then show ?thesis by (simp add: Some join_def Event_wait_def)
qed

lemma Queue_step_state_ok:
  assumes "queue_state_ok qw"
  shows "queue_state_ok (Queue_step qw op)"
proof (cases op)
  case (QueueTimeout h)
  have "queue_state_ok (fst qw, Queue_fire h (snd qw))"
    by (rule queue_state_ok_world [where w = "snd qw"]) (use assms in \<open>simp_all add: waiters_ok_Queue_fire\<close>)
  then show ?thesis by (simp add: QueueTimeout)
qed (simp_all add: assms put_state_ok put_nowait_state_ok get_state_ok get_nowait_state_ok
       task_done_state_ok join_state_ok)

lemma Queue_run_state_ok:
  "queue_state_ok qw \<Longrightarrow> queue_state_ok (Queue_run ops qw)"
  unfolding Queue_run_def
  by (induction ops arbitrary: qw) (simp_all add: Queue_step_state_ok)

lemma Queue_init_state_ok:
  assumes "Queue_init c m world0 = Inr qw"
  shows "queue_state_ok (qw :: 'a::linorder Queue \<times> 'a option world)"
  using assms
  by (auto simp: Queue_init_def Event_init_def Event_set_def Future_def world0_def
        queue_state_ok_def waiters_ok_def set_result_def set_outcome_length Let_def
        split: option.splits if_splits prod.splits)

lemma queue_state_ok_valid:
  "queue_state_ok (q, wq) \<Longrightarrow>
     list_all (\<lambda>p. snd p < length (futures wq)) (putters q)
     \<and> list_all (\<lambda>g. g < length (futures wq)) (getters q)"
  by (auto simp: queue_state_ok_def waiters_ok_def waiter_ok_def list_all_iff)

subsection \<open>Counting the items that enter the queue\<close>

lemma get_nowait_counts:
  assumes ok: "list_all (\<lambda>p. waiter_ok w (ev_future (finished self)) (snd p)) (putters self)"
      and gn: "get_nowait (self, w) = (r, self1, w1)"
  shows "dropWhile (\<lambda>p. future_done w (snd p)) (putters self) = (x, putter) # rest
         \<Longrightarrow> full self
         \<Longrightarrow> unfinished_tasks self1 = unfinished_tasks self + 1
             \<and> \<not> Event_is_set (finished self1, w1)
             \<and> fstate_of w1 putter = Resolved None"
    and "dropWhile (\<lambda>p. future_done w (snd p)) (putters self) = [] \<or> \<not> full self
         \<Longrightarrow> unfinished_tasks self1 = unfinished_tasks self
             \<and> finished self1 = finished self \<and> w1 = w"
proof -
  obtain q where ce: "consume_expired (self, w) = (q, w)"
    by (simp add: consume_expired_def Let_def)
  note qf = consume_expired_fields [OF ce]
  have q: "fst (consume_expired (self, w)) = q" using ce by simp
  have fq: "full q = full self" using qf by (simp add: full_def qsize_def)
  show "unfinished_tasks self1 = unfinished_tasks self + 1
             \<and> \<not> Event_is_set (finished self1, w1)
             \<and> fstate_of w1 putter = Resolved None"
    if dw: "dropWhile (\<lambda>p. future_done w (snd p)) (putters self) = (x, putter) # rest"
      and fl: "full self"
  proof -
    have "(x, putter) \<in> set (putters self)"
      using set_dropWhileD [of "(x, putter)" "\<lambda>p. future_done w (snd p)" "putters self"] dw
      by simp
    then have pok: "waiter_ok w (ev_future (finished self)) putter"
      using ok by (auto simp: list_all_iff)
    then have pv: "putter < length (futures w)" and pne: "putter \<noteq> ev_future (finished self)"
      and pcb: "list_all removes_timeout (callbacks (futures w ! putter))"
      by (simp_all add: waiter_ok_def)
    note P = get_nowait_putter [OF dw fl pv gn]
    have pq: "putters q = (x, putter) # rest" using qf dw by simp
    obtain q2 w2 where pi: "put_internal x (q\<lparr>putters := rest\<rparr>, w) = (q2, w2)"
      by (cases "put_internal x (q\<lparr>putters := rest\<rparr>, w)")
    have "queue q2 \<noteq> []" by (rule put_internal_props(8) [OF pi])
    then obtain y q3 where gi: "get_item q2 = Inr (y, q3)" using get_item_nonempty by blast
    have res: "self1 = q3" "w1 = set_result putter None w2"
      using gn pq fq fl pi gi by (auto simp: get_nowait_cases q Let_def)
    have same: "futures w2 ! putter = futures w ! putter"
      by (rule put_internal_props(5) [OF pi pv])
    have pv2: "putter < length (futures w2)" using pv put_internal_props(4) [OF pi] by simp
    let ?ev = "ev_future (finished q2)"
    have evne: "?ev \<noteq> putter"
    proof (cases "?ev < length (futures w)")
      case True
      then have "?ev = ev_future (finished self)"
        using put_internal_props(3) [OF pi] qf by simp
      then show ?thesis using pne by simp
    next
      case False
      then show ?thesis using pv by auto
    qed
    have "fstate_of (set_outcome putter (Resolved None) w2) ?ev = fstate_of w2 ?ev"
      using set_outcome_fstate_of [of putter w2 "Resolved None" ?ev] pv2 pcb same evne
      by simp
    then have "\<not> future_done w1 ?ev"
      using put_internal_props(2) [OF pi] res
      by (simp add: future_done_def set_result_def)
    moreover have "finished q3 = finished q2" using get_item_fields [OF gi] by simp
    ultimately have "\<not> Event_is_set (finished self1, w1)"
      using res by (simp add: Event_is_set_def)
    then show ?thesis using P(3,4) by simp
  qed
  show "unfinished_tasks self1 = unfinished_tasks self
             \<and> finished self1 = finished self \<and> w1 = w"
    if c: "dropWhile (\<lambda>p. future_done w (snd p)) (putters self) = [] \<or> \<not> full self"
  proof (cases "putters q")
    case Nil
    show ?thesis
    proof (cases "get_item q")
      case (Inl e)
      then show ?thesis using gn Nil qf by (auto simp: get_nowait_cases q Let_def split: if_splits)
    next
      case (Inr p)
      obtain y q2 where p: "p = (y, q2)" by (cases p)
      show ?thesis
        using gn Nil qf Inr p get_item_fields [OF Inr [unfolded p]]
        by (auto simp: get_nowait_cases q Let_def split: if_splits)
    qed
  next
    case (Cons pr rest1)
    obtain y p where pr: "pr = (y, p)" by (cases pr)
    have "dropWhile (\<lambda>p. future_done w (snd p)) (putters self) \<noteq> []"
      using Cons qf by simp
    then have "\<not> full q" using c fq by blast
    then show ?thesis using gn Cons pr qf by (auto simp: get_nowait_cases q Let_def)
  qed
qed


lemma get_nowait_admit:
  assumes dw: "dropWhile (\<lambda>p. future_done w (snd p)) (putters self) = (x, putter) # rest"
      and fl: "full self"
      and gn: "get_nowait (self, w) = (r, self1, w1)"
  shows "\<exists>y w2. r = Inr y \<and> w1 = set_result putter None w2
           \<and> length (futures w) \<le> length (futures w2)
           \<and> (\<forall>g<length (futures w). futures w2 ! g = futures w ! g)
           \<and> (ev_future (finished self1) < length (futures w)
                \<longrightarrow> ev_future (finished self1) = ev_future (finished self))"
proof -
  obtain q where ce: "consume_expired (self, w) = (q, w)"
    by (simp add: consume_expired_def Let_def)
  note qf = consume_expired_fields [OF ce]
  have q: "fst (consume_expired (self, w)) = q" using ce by simp
  have fq: "full q" using fl qf by (auto simp: full_def qsize_def split: if_splits)
  have pq: "putters q = (x, putter) # rest" using qf dw by simp
  obtain q2 w2 where pi: "put_internal x (q\<lparr>putters := rest\<rparr>, w) = (q2, w2)"
    by (cases "put_internal x (q\<lparr>putters := rest\<rparr>, w)")
  have "queue q2 \<noteq> []" by (rule put_internal_props(8) [OF pi])
  then obtain y q3 where gi: "get_item q2 = Inr (y, q3)" using get_item_nonempty by blast
  have res: "r = Inr y" "self1 = q3" "w1 = set_result putter None w2"
    using gn pq fq pi gi by (auto simp: get_nowait_cases q Let_def)
  have f3: "finished q3 = finished q2" using get_item_fields [OF gi] by simp
  have a: "length (futures w) \<le> length (futures w2)" by (rule put_internal_props(4) [OF pi])
  have b: "\<forall>g<length (futures w). futures w2 ! g = futures w ! g"
    using put_internal_props(5) [OF pi] by blast
  have c: "ev_future (finished self1) < length (futures w)
             \<longrightarrow> ev_future (finished self1) = ev_future (finished self)"
    using put_internal_props(3) [OF pi] qf res(2) f3 by simp
  show ?thesis using res(1,3) a b c by blast
qed

lemma get_counts:
  assumes ev: "ev_future (finished self) < length (futures w)"
      and ok: "list_all (\<lambda>p. waiter_ok w (ev_future (finished self)) (snd p)) (putters self)"
      and g: "get tmo (self, w) = (r, self1, w1)"
  shows "dropWhile (\<lambda>p. future_done w (snd p)) (putters self) = (x, putter) # rest
         \<Longrightarrow> full self
         \<Longrightarrow> unfinished_tasks self1 = unfinished_tasks self + 1
             \<and> \<not> Event_is_set (finished self1, w1)
             \<and> fstate_of w1 putter = Resolved None"
    and "dropWhile (\<lambda>p. future_done w (snd p)) (putters self) = [] \<or> \<not> full self
         \<Longrightarrow> unfinished_tasks self1 = unfinished_tasks self"
proof -
  obtain fut w0 where fu: "Future w = (fut, w0)" by (cases "Future w")
  have fa: "futures w0 = futures w @ [\<lparr>fstate = Pending, callbacks = []\<rparr>]"
    and f: "fut = length (futures w)"
    using fu by (auto simp: Future_def)
  have ok0: "list_all (\<lambda>p. waiter_ok w0 (ev_future (finished self)) (snd p)) (putters self)"
    using ok by (auto simp: list_all_iff waiter_ok_def fa nth_append)
  have "future_done w0 (snd p) = future_done w (snd p)" if "p \<in> set (putters self)" for p
    using that ok by (auto simp: list_all_iff waiter_ok_def future_done_def fstate_of_def fa nth_append)
  then have dwe: "dropWhile (\<lambda>p. future_done w0 (snd p)) (putters self)
                 = dropWhile (\<lambda>p. future_done w (snd p)) (putters self)"
    by (intro dropWhile_cong) simp_all
  obtain r0 q0 wa where gn: "get_nowait (self, w0) = (r0, q0, wa)"
    by (cases "get_nowait (self, w0)")
  have unf: "get tmo (self, w) =
      (case (r0, q0, wa) of
        (Inl QueueEmpty, self, w) \<Rightarrow>
          (let self1 = self\<lparr>getters := getters self @ [fut]\<rparr>;
               w1 = set_timeout fut tmo w
           in (Inr fut, self1, w1))
      | (Inl e, self, w) \<Rightarrow> (Inl e, self, w)
      | (Inr x, self, w) \<Rightarrow> (Inr fut, self, set_result fut (Some x) w))"
    using fu gn by (simp add: get_def)
  have u1: "unfinished_tasks self1 = unfinished_tasks q0"
    using g unf by (auto simp: Let_def split: sum.splits exn.splits)
  show "unfinished_tasks self1 = unfinished_tasks self"
    if c: "dropWhile (\<lambda>p. future_done w (snd p)) (putters self) = [] \<or> \<not> full self"
    using get_nowait_counts(2) [OF ok0 gn] c u1 by (simp add: dwe)
  show "unfinished_tasks self1 = unfinished_tasks self + 1
             \<and> \<not> Event_is_set (finished self1, w1)
             \<and> fstate_of w1 putter = Resolved None"
    if dw: "dropWhile (\<lambda>p. future_done w (snd p)) (putters self) = (x, putter) # rest"
      and fl: "full self"
  proof -
    have dw0: "dropWhile (\<lambda>p. future_done w0 (snd p)) (putters self) = (x, putter) # rest"
      using dw dwe by simp
    note C = get_nowait_counts(1) [OF ok0 gn dw0 fl]
    obtain y w2 where r0: "r0 = Inr y" and wa: "wa = set_result putter None w2"
      and len: "length (futures w0) \<le> length (futures w2)"
      and same: "\<forall>g<length (futures w0). futures w2 ! g = futures w0 ! g"
      and evs: "ev_future (finished q0) < length (futures w0)
                  \<longrightarrow> ev_future (finished q0) = ev_future (finished self)"
      using get_nowait_admit [OF dw0 fl gn] by blast
    have res: "self1 = q0" "w1 = set_result fut (Some y) wa"
      using g unf r0 by simp_all
    have "(x, putter) \<in> set (putters self)"
      using set_dropWhileD [of "(x, putter)" "\<lambda>p. future_done w (snd p)" "putters self"] dw
      by simp
    then have pv: "putter < length (futures w)"
      using ok by (auto simp: list_all_iff waiter_ok_def)
    have fv: "fut < length (futures wa)"
      using len by (simp add: wa set_result_def set_outcome_length fa f)
    have "futures w2 ! fut = \<lparr>fstate = Pending, callbacks = []\<rparr>"
      using same by (simp add: fa f)
    then have cb: "list_all removes_timeout (callbacks (futures wa ! fut))"
      using set_outcome_callbacks [of putter "Resolved None" w2 fut]
      by (auto simp: wa set_result_def)
    have other: "fstate_of w1 k = fstate_of wa k" if "k \<noteq> fut" for k
      using set_outcome_fstate_of [OF fv cb, of "Resolved (Some y)" k] that
      by (simp add: res set_result_def)
    have evne: "ev_future (finished q0) \<noteq> fut"
    proof (cases "ev_future (finished q0) < length (futures w0)")
      case True
      then show ?thesis using evs ev f by simp
    next
      case False
      then show ?thesis by (simp add: fa f)
    qed
    have "\<not> Event_is_set (finished self1, w1)"
      using C other [OF evne] by (simp add: Event_is_set_def future_done_def res(1))
    moreover have "fstate_of w1 putter = Resolved None"
      using C other [of putter] pv f by simp
    ultimately show ?thesis using C u1 by simp
  qed
qed

lemma queue_state_ok_all:
  "queue_state_ok (q, wq) \<Longrightarrow>
     0 \<le> unfinished_tasks q \<and> ev_future (finished q) < length (futures wq)
     \<and> list_all (waiter_ok wq (ev_future (finished q))) (getters q)
     \<and> list_all (\<lambda>p. waiter_ok wq (ev_future (finished q)) (snd p)) (putters q)"
  by (simp add: queue_state_ok_def waiters_ok_def list_all_iff)

text \<open>
  Claim C5. With the counter not negative, \<^verbatim>\<open>task_done\<close> raises \<^verbatim>\<open>ValueError("task_done()
  called too many times")\<close> exactly when \<^verbatim>\<open>_unfinished_tasks\<close> is 0, and then changes
  nothing. Otherwise it takes one off the counter, which stays at or above 0; when the
  counter reaches 0 the completion event is set, and when it does not the event and the
  store are left as they were. An item enters the queue on three paths, and on each
  \<^verbatim>\<open>__put_internal\<close> adds one to the counter and leaves the completion event clear: a
  \<^verbatim>\<open>put_nowait\<close> that returns; a \<^verbatim>\<open>put\<close> that returns the resolved null future; and a
  \<^verbatim>\<open>put\<close> that had to wait, when a later \<^verbatim>\<open>get_nowait\<close> or \<^verbatim>\<open>get\<close> finds its putter alive
  at the front of \<^verbatim>\<open>_putters\<close> with the queue full, and resolves that putter with \<^verbatim>\<open>None\<close>.
  Nothing else moves the counter up: a \<^verbatim>\<open>put_nowait\<close> that raises, a \<^verbatim>\<open>put\<close> that queues
  its item, and a \<^verbatim>\<open>get_nowait\<close> or \<^verbatim>\<open>get\<close> that admits no putter leave it as it was. The
  conditions assumed of the states hold in every state that calls of \<^verbatim>\<open>put\<close>,
  \<^verbatim>\<open>put_nowait\<close>, \<^verbatim>\<open>get\<close>, \<^verbatim>\<open>get_nowait\<close>, \<^verbatim>\<open>task_done\<close>, \<^verbatim>\<open>join\<close> and the firing of timeouts
  reach from a queue that the constructor has just returned: the counter never goes below
  0. On a queue of \<^verbatim>\<open>maxsize\<close> 1, \<^verbatim>\<open>put(1)\<close> counts 1, \<^verbatim>\<open>put(2)\<close> waits and counts nothing,
  \<^verbatim>\<open>get_nowait\<close> returns 1 and counts the waiting item (2 unfinished), two \<^verbatim>\<open>task_done\<close>
  calls bring the counter to 0 and set the event, and a third raises.
\<close>

theorem task_done_and_put_counting:
  assumes "0 \<le> unfinished_tasks self"
      and "ev_future (finished self) < length (futures w)"
      and "list_all (waiter_ok w (ev_future (finished self))) (getters self)"
  shows
   "(fst (task_done (self, w)) = Inl (ValueError ''task_done() called too many times''))
      = (unfinished_tasks self = 0)
    \<and> (case task_done (self, w) of (r, self1, w1) \<Rightarrow>
         if unfinished_tasks self = 0
         then r = Inl (ValueError ''task_done() called too many times'') \<and> self1 = self \<and> w1 = w
         else r = Inr () \<and> unfinished_tasks self1 = unfinished_tasks self - 1
              \<and> 0 \<le> unfinished_tasks self1
              \<and> (if unfinished_tasks self1 = 0 then Event_is_set (finished self1, w1)
                  else finished self1 = finished self \<and> w1 = w))
    \<and> (case put_nowait item (self, w) of (r, self1, w1) \<Rightarrow>
         if r = Inr ()
         then unfinished_tasks self1 = unfinished_tasks self + 1
              \<and> \<not> Event_is_set (finished self1, w1)
         else unfinished_tasks self1 = unfinished_tasks self)
    \<and> (case put item tmo (self, w) of (r, self1, w1) \<Rightarrow>
         if r = Inr NullFuture
         then unfinished_tasks self1 = unfinished_tasks self + 1
              \<and> \<not> Event_is_set (finished self1, w1)
         else unfinished_tasks self1 = unfinished_tasks self)
    \<and> (Queue_init c m world0 = Inr q0
       \<longrightarrow> (case Queue_run ops q0 of (q, wq) \<Rightarrow>
             0 \<le> unfinished_tasks q
             \<and> ev_future (finished q) < length (futures wq)
             \<and> list_all (waiter_ok wq (ev_future (finished q))) (getters q)
             \<and> list_all (\<lambda>p. waiter_ok wq (ev_future (finished q)) (snd p)) (putters q)))
    \<and> (ev_future (finished self') < length (futures w')
        \<and> list_all (\<lambda>p. waiter_ok w' (ev_future (finished self')) (snd p)) (putters self')
       \<longrightarrow> (case get_nowait (self', w') of (r, self1, w1) \<Rightarrow>
             (case dropWhile (\<lambda>p. future_done w' (snd p)) (putters self') of
                [] \<Rightarrow> unfinished_tasks self1 = unfinished_tasks self'
              | (x, putter) # rest \<Rightarrow>
                  if full self'
                  then unfinished_tasks self1 = unfinished_tasks self' + 1
                       \<and> \<not> Event_is_set (finished self1, w1)
                       \<and> fstate_of w1 putter = Resolved None
                  else unfinished_tasks self1 = unfinished_tasks self'))
           \<and> (case get tmo' (self', w') of (r, self1, w1) \<Rightarrow>
             (case dropWhile (\<lambda>p. future_done w' (snd p)) (putters self') of
                [] \<Rightarrow> unfinished_tasks self1 = unfinished_tasks self'
              | (x, putter) # rest \<Rightarrow>
                  if full self'
                  then unfinished_tasks self1 = unfinished_tasks self' + 1
                       \<and> \<not> Event_is_set (finished self1, w1)
                       \<and> fstate_of w1 putter = Resolved None
                  else unfinished_tasks self1 = unfinished_tasks self')))
    \<and> (case Queue_init FifoQueue (Some 1) world0 of
         Inl e \<Rightarrow> False
       | Inr s0 \<Rightarrow>
           (let (p1, s1) = put (1::int) None s0;
                (p2, s2) = put 2 None s1;
                (g, s3) = get_nowait s2;
                (t1, s4) = task_done s3;
                (t2, s5) = task_done s4;
                (t3, s6) = task_done s5
            in p1 = Inr NullFuture \<and> unfinished_tasks (fst s1) = 1
               \<and> \<not> Event_is_set (finished (fst s1), snd s1)
               \<and> p2 = Inr (FutureRef 2) \<and> unfinished_tasks (fst s2) = 1
               \<and> \<not> future_done (snd s2) 2
               \<and> g = Inr 1 \<and> unfinished_tasks (fst s3) = 2
               \<and> fstate_of (snd s3) 2 = Resolved None
               \<and> \<not> Event_is_set (finished (fst s3), snd s3)
               \<and> t1 = Inr () \<and> unfinished_tasks (fst s4) = 1
               \<and> \<not> Event_is_set (finished (fst s4), snd s4)
               \<and> t2 = Inr () \<and> unfinished_tasks (fst s5) = 0
               \<and> Event_is_set (finished (fst s5), snd s5)
               \<and> t3 = Inl (ValueError ''task_done() called too many times'')
               \<and> s6 = s5))"
proof -
  obtain r self1 w1 where td: "task_done (self, w) = (r, self1, w1)"
    by (cases "task_done (self, w)")
  have a: "(fst (task_done (self, w)) = Inl (ValueError ''task_done() called too many times''))
      = (unfinished_tasks self = 0)"
    using assms(1) by (auto simp: task_done_def Let_def split: prod.splits)
  have b: "if unfinished_tasks self = 0
         then r = Inl (ValueError ''task_done() called too many times'') \<and> self1 = self \<and> w1 = w
         else r = Inr () \<and> unfinished_tasks self1 = unfinished_tasks self - 1
              \<and> 0 \<le> unfinished_tasks self1
              \<and> (if unfinished_tasks self1 = 0 then Event_is_set (finished self1, w1)
                  else finished self1 = finished self \<and> w1 = w)"
  proof (cases "unfinished_tasks self = 0")
    case True
    then show ?thesis using td task_done_zero [of self w] by simp
  next
    case False
    then have pos: "unfinished_tasks self > 0" using assms(1) by simp
    show ?thesis
      using False pos task_done_positive [OF pos assms(2) td] by auto
  qed
  obtain r2 self2 w2 where pn: "put_nowait item (self, w) = (r2, self2, w2)"
    by (cases "put_nowait item (self, w)")
  have c: "if r2 = Inr ()
         then unfinished_tasks self2 = unfinished_tasks self + 1
              \<and> \<not> Event_is_set (finished self2, w2)
         else unfinished_tasks self2 = unfinished_tasks self"
    using put_nowait_counts [OF assms(3) pn] by auto
  obtain r3 self3 w3 where p: "put item tmo (self, w) = (r3, self3, w3)"
    by (cases "put item tmo (self, w)")
  have d: "if r3 = Inr NullFuture
         then unfinished_tasks self3 = unfinished_tasks self + 1
              \<and> \<not> Event_is_set (finished self3, w3)
         else unfinished_tasks self3 = unfinished_tasks self"
    using put_counts [OF assms(3) p] by auto
  have e: "Queue_init c m world0 = Inr q0
       \<longrightarrow> (case Queue_run ops q0 of (q, wq) \<Rightarrow>
             0 \<le> unfinished_tasks q
             \<and> ev_future (finished q) < length (futures wq)
             \<and> list_all (waiter_ok wq (ev_future (finished q))) (getters q)
             \<and> list_all (\<lambda>p. waiter_ok wq (ev_future (finished q)) (snd p)) (putters q))"
  proof -
    have "case Queue_run ops q0 of (q, wq) \<Rightarrow>
             0 \<le> unfinished_tasks q
             \<and> ev_future (finished q) < length (futures wq)
             \<and> list_all (waiter_ok wq (ev_future (finished q))) (getters q)
             \<and> list_all (\<lambda>p. waiter_ok wq (ev_future (finished q)) (snd p)) (putters q)" if "Queue_init c m world0 = Inr q0"
    proof -
      have "queue_state_ok (Queue_run ops q0)"
        using that by (rule Queue_run_state_ok [OF Queue_init_state_ok])
      then show ?thesis
        using queue_state_ok_all [of "fst (Queue_run ops q0)" "snd (Queue_run ops q0)"]
        by (simp add: case_prod_beta)
    qed
    then show ?thesis by blast
  qed
  have f: "ev_future (finished self') < length (futures w')
        \<and> list_all (\<lambda>p. waiter_ok w' (ev_future (finished self')) (snd p)) (putters self')
       \<longrightarrow> (case get_nowait (self', w') of (r, self1, w1) \<Rightarrow>
             (case dropWhile (\<lambda>p. future_done w' (snd p)) (putters self') of
                [] \<Rightarrow> unfinished_tasks self1 = unfinished_tasks self'
              | (x, putter) # rest \<Rightarrow>
                  if full self'
                  then unfinished_tasks self1 = unfinished_tasks self' + 1
                       \<and> \<not> Event_is_set (finished self1, w1)
                       \<and> fstate_of w1 putter = Resolved None
                  else unfinished_tasks self1 = unfinished_tasks self'))
           \<and> (case get tmo' (self', w') of (r, self1, w1) \<Rightarrow>
             (case dropWhile (\<lambda>p. future_done w' (snd p)) (putters self') of
                [] \<Rightarrow> unfinished_tasks self1 = unfinished_tasks self'
              | (x, putter) # rest \<Rightarrow>
                  if full self'
                  then unfinished_tasks self1 = unfinished_tasks self' + 1
                       \<and> \<not> Event_is_set (finished self1, w1)
                       \<and> fstate_of w1 putter = Resolved None
                  else unfinished_tasks self1 = unfinished_tasks self'))"
  proof (intro impI conjI)
    assume h: "ev_future (finished self') < length (futures w')
        \<and> list_all (\<lambda>p. waiter_ok w' (ev_future (finished self')) (snd p)) (putters self')"
    obtain r4 self4 w4 where gn: "get_nowait (self', w') = (r4, self4, w4)"
      by (cases "get_nowait (self', w')")
    show "case get_nowait (self', w') of (r, self1, w1) \<Rightarrow>
             (case dropWhile (\<lambda>p. future_done w' (snd p)) (putters self') of
                [] \<Rightarrow> unfinished_tasks self1 = unfinished_tasks self'
              | (x, putter) # rest \<Rightarrow>
                  if full self'
                  then unfinished_tasks self1 = unfinished_tasks self' + 1
                       \<and> \<not> Event_is_set (finished self1, w1)
                       \<and> fstate_of w1 putter = Resolved None
                  else unfinished_tasks self1 = unfinished_tasks self')"
      using get_nowait_counts [OF h [THEN conjunct2] gn]
      by (auto simp: gn split: list.splits)
    obtain r5 self5 w5 where g: "get tmo' (self', w') = (r5, self5, w5)"
      by (cases "get tmo' (self', w')")
    show "case get tmo' (self', w') of (r, self1, w1) \<Rightarrow>
             (case dropWhile (\<lambda>p. future_done w' (snd p)) (putters self') of
                [] \<Rightarrow> unfinished_tasks self1 = unfinished_tasks self'
              | (x, putter) # rest \<Rightarrow>
                  if full self'
                  then unfinished_tasks self1 = unfinished_tasks self' + 1
                       \<and> \<not> Event_is_set (finished self1, w1)
                       \<and> fstate_of w1 putter = Resolved None
                  else unfinished_tasks self1 = unfinished_tasks self')"
      using get_counts [OF h [THEN conjunct1] h [THEN conjunct2] g]
      by (auto simp: g split: list.splits)
  qed
  have run: "case Queue_init FifoQueue (Some 1) world0 of
         Inl e \<Rightarrow> False
       | Inr s0 \<Rightarrow>
           (let (p1, s1) = put (1::int) None s0;
                (p2, s2) = put 2 None s1;
                (g, s3) = get_nowait s2;
                (t1, s4) = task_done s3;
                (t2, s5) = task_done s4;
                (t3, s6) = task_done s5
            in p1 = Inr NullFuture \<and> unfinished_tasks (fst s1) = 1
               \<and> \<not> Event_is_set (finished (fst s1), snd s1)
               \<and> p2 = Inr (FutureRef 2) \<and> unfinished_tasks (fst s2) = 1
               \<and> \<not> future_done (snd s2) 2
               \<and> g = Inr 1 \<and> unfinished_tasks (fst s3) = 2
               \<and> fstate_of (snd s3) 2 = Resolved None
               \<and> \<not> Event_is_set (finished (fst s3), snd s3)
               \<and> t1 = Inr () \<and> unfinished_tasks (fst s4) = 1
               \<and> \<not> Event_is_set (finished (fst s4), snd s4)
               \<and> t2 = Inr () \<and> unfinished_tasks (fst s5) = 0
               \<and> Event_is_set (finished (fst s5), snd s5)
               \<and> t3 = Inl (ValueError ''task_done() called too many times'')
               \<and> s6 = s5)"
    by (simp add: queue_eval task_done_def Event_is_set_def)
  have abcd: "(fst (task_done (self, w)) = Inl (ValueError ''task_done() called too many times''))
      = (unfinished_tasks self = 0)
    \<and> (case task_done (self, w) of (r, self1, w1) \<Rightarrow>
         if unfinished_tasks self = 0
         then r = Inl (ValueError ''task_done() called too many times'') \<and> self1 = self \<and> w1 = w
         else r = Inr () \<and> unfinished_tasks self1 = unfinished_tasks self - 1
              \<and> 0 \<le> unfinished_tasks self1
              \<and> (if unfinished_tasks self1 = 0 then Event_is_set (finished self1, w1)
                  else finished self1 = finished self \<and> w1 = w))
    \<and> (case put_nowait item (self, w) of (r, self1, w1) \<Rightarrow>
         if r = Inr ()
         then unfinished_tasks self1 = unfinished_tasks self + 1
              \<and> \<not> Event_is_set (finished self1, w1)
         else unfinished_tasks self1 = unfinished_tasks self)
    \<and> (case put item tmo (self, w) of (r, self1, w1) \<Rightarrow>
         if r = Inr NullFuture
         then unfinished_tasks self1 = unfinished_tasks self + 1
              \<and> \<not> Event_is_set (finished self1, w1)
         else unfinished_tasks self1 = unfinished_tasks self)"
    using a b c d by (simp add: td pn p)
  show ?thesis
    by (rule conjI [OF abcd [THEN conjunct1]
          conjI [OF abcd [THEN conjunct2, THEN conjunct1]
          conjI [OF abcd [THEN conjunct2, THEN conjunct2, THEN conjunct1]
          conjI [OF abcd [THEN conjunct2, THEN conjunct2, THEN conjunct2]
          conjI [OF e conjI [OF f run]]]]]])
qed

theorem task_done_and_put_counting_witness:
  "0 \<le> unfinished_tasks
          (\<lparr>cls = FifoQueue, maxsize = 0, queue = [], getters = [2], putters = [],
           unfinished_tasks = 1, finished = \<lparr>ev_future = 0\<rparr>\<rparr> :: int Queue)
   \<and> ev_future (finished
          (\<lparr>cls = FifoQueue, maxsize = 0, queue = [], getters = [2], putters = [],
           unfinished_tasks = 1, finished = \<lparr>ev_future = 0\<rparr>\<rparr> :: int Queue))
       < length (futures
          (\<lparr>futures = [\<lparr>fstate = Pending, callbacks = []\<rparr>,
                      \<lparr>fstate = Resolved None, callbacks = []\<rparr>,
                      \<lparr>fstate = Pending, callbacks = [RemoveTimeout 0]\<rparr>],
           scheduled = [(0, Timedelta 1, QueueOnTimeout 2)], next_handle = 2\<rparr> :: int option world))
   \<and> (case task_done
          ((\<lparr>cls = FifoQueue, maxsize = 0, queue = [], getters = [2], putters = [],
           unfinished_tasks = 1, finished = \<lparr>ev_future = 0\<rparr>\<rparr> :: int Queue),
           (\<lparr>futures = [\<lparr>fstate = Pending, callbacks = []\<rparr>,
                      \<lparr>fstate = Resolved None, callbacks = []\<rparr>,
                      \<lparr>fstate = Pending, callbacks = [RemoveTimeout 0]\<rparr>],
           scheduled = [(0, Timedelta 1, QueueOnTimeout 2)], next_handle = 2\<rparr> :: int option world))
       of (r, self1, w1) \<Rightarrow>
         r = Inr () \<and> unfinished_tasks self1 = 0 \<and> Event_is_set (finished self1, w1))
   \<and> (case put_nowait (5::int)
          ((\<lparr>cls = FifoQueue, maxsize = 0, queue = [], getters = [2], putters = [],
           unfinished_tasks = 1, finished = \<lparr>ev_future = 0\<rparr>\<rparr> :: int Queue),
           (\<lparr>futures = [\<lparr>fstate = Pending, callbacks = []\<rparr>,
                      \<lparr>fstate = Resolved None, callbacks = []\<rparr>,
                      \<lparr>fstate = Pending, callbacks = [RemoveTimeout 0]\<rparr>],
           scheduled = [(0, Timedelta 1, QueueOnTimeout 2)], next_handle = 2\<rparr> :: int option world))
       of (r, self1, w1) \<Rightarrow>
         r = Inr () \<and> unfinished_tasks self1 = 2 \<and> \<not> Event_is_set (finished self1, w1)
         \<and> fstate_of w1 2 = Resolved (Some 5))
   \<and> (case put (5::int) None
          ((\<lparr>cls = FifoQueue, maxsize = 0, queue = [], getters = [2], putters = [],
           unfinished_tasks = 1, finished = \<lparr>ev_future = 0\<rparr>\<rparr> :: int Queue),
           (\<lparr>futures = [\<lparr>fstate = Pending, callbacks = []\<rparr>,
                      \<lparr>fstate = Resolved None, callbacks = []\<rparr>,
                      \<lparr>fstate = Pending, callbacks = [RemoveTimeout 0]\<rparr>],
           scheduled = [(0, Timedelta 1, QueueOnTimeout 2)], next_handle = 2\<rparr> :: int option world))
       of (r, self1, w1) \<Rightarrow>
         r = Inr NullFuture \<and> unfinished_tasks self1 = 2
         \<and> \<not> Event_is_set (finished self1, w1))
   \<and> Queue_init FifoQueue (Some 0) world0
       = Inr (\<lparr>cls = FifoQueue, maxsize = 0, queue = [], getters = [], putters = [],
            unfinished_tasks = 0, finished = \<lparr>ev_future = 0\<rparr>\<rparr> :: int Queue,
           \<lparr>futures = [\<lparr>fstate = Resolved None, callbacks = []\<rparr>],
            scheduled = [], next_handle = 0\<rparr> :: int option world)
   \<and> (case Queue_run [Get (Some (Timedelta 1)), PutNowait 5, TaskDone, TaskDone]
          (\<lparr>cls = FifoQueue, maxsize = 0, queue = [], getters = [], putters = [],
            unfinished_tasks = 0, finished = \<lparr>ev_future = 0\<rparr>\<rparr> :: int Queue,
           \<lparr>futures = [\<lparr>fstate = Resolved None, callbacks = []\<rparr>],
            scheduled = [], next_handle = 0\<rparr> :: int option world)
       of (q, wq) \<Rightarrow>
         0 \<le> unfinished_tasks q
         \<and> ev_future (finished q) < length (futures wq)
         \<and> list_all (waiter_ok wq (ev_future (finished q))) (getters q)
         \<and> list_all (\<lambda>p. waiter_ok wq (ev_future (finished q)) (snd p)) (putters q))
   \<and> (ev_future (finished
          (\<lparr>cls = FifoQueue, maxsize = 1, queue = [3], getters = [], putters = [(7, 2)],
           unfinished_tasks = 1, finished = \<lparr>ev_future = 0\<rparr>\<rparr> :: int Queue))
       < length (futures
          (\<lparr>futures = [\<lparr>fstate = Pending, callbacks = []\<rparr>,
                      \<lparr>fstate = Resolved None, callbacks = []\<rparr>,
                      \<lparr>fstate = Pending, callbacks = [RemoveTimeout 0]\<rparr>],
           scheduled = [(0, Timedelta 1, QueueOnTimeout 2)], next_handle = 2\<rparr> :: int option world))
      \<and> list_all (\<lambda>p. waiter_ok
          (\<lparr>futures = [\<lparr>fstate = Pending, callbacks = []\<rparr>,
                      \<lparr>fstate = Resolved None, callbacks = []\<rparr>,
                      \<lparr>fstate = Pending, callbacks = [RemoveTimeout 0]\<rparr>],
           scheduled = [(0, Timedelta 1, QueueOnTimeout 2)], next_handle = 2\<rparr> :: int option world)
          (ev_future (finished
          (\<lparr>cls = FifoQueue, maxsize = 1, queue = [3], getters = [], putters = [(7, 2)],
           unfinished_tasks = 1, finished = \<lparr>ev_future = 0\<rparr>\<rparr> :: int Queue))) (snd p))
        (putters
          (\<lparr>cls = FifoQueue, maxsize = 1, queue = [3], getters = [], putters = [(7, 2)],
           unfinished_tasks = 1, finished = \<lparr>ev_future = 0\<rparr>\<rparr> :: int Queue)))
   \<and> (case get_nowait
          ((\<lparr>cls = FifoQueue, maxsize = 1, queue = [3], getters = [], putters = [(7, 2)],
           unfinished_tasks = 1, finished = \<lparr>ev_future = 0\<rparr>\<rparr> :: int Queue),
           (\<lparr>futures = [\<lparr>fstate = Pending, callbacks = []\<rparr>,
                      \<lparr>fstate = Resolved None, callbacks = []\<rparr>,
                      \<lparr>fstate = Pending, callbacks = [RemoveTimeout 0]\<rparr>],
           scheduled = [(0, Timedelta 1, QueueOnTimeout 2)], next_handle = 2\<rparr> :: int option world))
       of (r, self1, w1) \<Rightarrow>
         r = Inr 3 \<and> unfinished_tasks self1 = 2 \<and> \<not> Event_is_set (finished self1, w1)
         \<and> fstate_of w1 2 = Resolved None)
   \<and> (case get None
          ((\<lparr>cls = FifoQueue, maxsize = 1, queue = [3], getters = [], putters = [(7, 2)],
           unfinished_tasks = 1, finished = \<lparr>ev_future = 0\<rparr>\<rparr> :: int Queue),
           (\<lparr>futures = [\<lparr>fstate = Pending, callbacks = []\<rparr>,
                      \<lparr>fstate = Resolved None, callbacks = []\<rparr>,
                      \<lparr>fstate = Pending, callbacks = [RemoveTimeout 0]\<rparr>],
           scheduled = [(0, Timedelta 1, QueueOnTimeout 2)], next_handle = 2\<rparr> :: int option world))
       of (r, self1, w1) \<Rightarrow>
         r = Inr 3 \<and> unfinished_tasks self1 = 2 \<and> \<not> Event_is_set (finished self1, w1)
         \<and> fstate_of w1 2 = Resolved None \<and> fstate_of w1 3 = Resolved (Some 3))"
proof -
  let ?q = "(\<lparr>cls = FifoQueue, maxsize = 0, queue = [], getters = [2], putters = [],
           unfinished_tasks = 1, finished = \<lparr>ev_future = 0\<rparr>\<rparr> :: int Queue)"
  let ?w = "(\<lparr>futures = [\<lparr>fstate = Pending, callbacks = []\<rparr>,
                      \<lparr>fstate = Resolved None, callbacks = []\<rparr>,
                      \<lparr>fstate = Pending, callbacks = [RemoveTimeout 0]\<rparr>],
           scheduled = [(0, Timedelta 1, QueueOnTimeout 2)], next_handle = 2\<rparr> :: int option world)"
  let ?q2 = "(\<lparr>cls = FifoQueue, maxsize = 1, queue = [3], getters = [], putters = [(7, 2)],
           unfinished_tasks = 1, finished = \<lparr>ev_future = 0\<rparr>\<rparr> :: int Queue)"
  let ?init = "(\<lparr>cls = FifoQueue, maxsize = 0, queue = [], getters = [], putters = [],
            unfinished_tasks = 0, finished = \<lparr>ev_future = 0\<rparr>\<rparr> :: int Queue,
           \<lparr>futures = [\<lparr>fstate = Resolved None, callbacks = []\<rparr>],
            scheduled = [], next_handle = 0\<rparr> :: int option world)"
  have h1: "0 \<le> unfinished_tasks ?q" by simp
  have h2: "ev_future (finished ?q) < length (futures ?w)" by simp
  have h3: "list_all (waiter_ok ?w (ev_future (finished ?q))) (getters ?q)"
    by (simp add: waiter_ok_def)
  have h6: "Queue_init FifoQueue (Some 0) world0 = Inr ?init"
    by (simp add: Queue_init_def Event_init_def Event_set_def Future_def world0_def
          future_done_def fstate_of_def set_result_def set_outcome_def Let_def)
  have h8: "ev_future (finished ?q2) < length (futures ?w)
      \<and> list_all (\<lambda>p. waiter_ok ?w (ev_future (finished ?q2)) (snd p)) (putters ?q2)"
    by (simp add: waiter_ok_def)
  have pn: "put_nowait 5 (?q, ?w) =
      (Inr (), ?q\<lparr>getters := [], unfinished_tasks := 2\<rparr>,
       ?w\<lparr>futures := [\<lparr>fstate = Pending, callbacks = []\<rparr>,
                       \<lparr>fstate = Resolved None, callbacks = []\<rparr>,
                       \<lparr>fstate = Resolved (Some 5), callbacks = []\<rparr>], scheduled := []\<rparr>)"
    by (simp add: put_nowait_def consume_expired_def future_done_def fstate_of_def empty_def
          put_internal_def Event_clear_def put_item_def get_item_def set_result_def
          set_outcome_def remove_timeout_def Let_def)
  have pu: "put 5 None (?q, ?w) =
      (Inr NullFuture, ?q\<lparr>getters := [], unfinished_tasks := 2\<rparr>,
       ?w\<lparr>futures := [\<lparr>fstate = Pending, callbacks = []\<rparr>,
                       \<lparr>fstate = Resolved None, callbacks = []\<rparr>,
                       \<lparr>fstate = Resolved (Some 5), callbacks = []\<rparr>], scheduled := []\<rparr>)"
    by (simp add: put_def pn)
  have td: "task_done (?q, ?w) =
      (Inr (), ?q\<lparr>unfinished_tasks := 0\<rparr>,
       ?w\<lparr>futures := [\<lparr>fstate = Resolved None, callbacks = []\<rparr>,
                       \<lparr>fstate = Resolved None, callbacks = []\<rparr>,
                       \<lparr>fstate = Pending, callbacks = [RemoveTimeout 0]\<rparr>]\<rparr>)"
    by (simp add: task_done_def Event_set_def future_done_def fstate_of_def set_result_def
          set_outcome_def Let_def)
  have gn: "get_nowait (?q2, ?w) =
      (Inr 3, ?q2\<lparr>queue := [7], putters := [], unfinished_tasks := 2\<rparr>,
       ?w\<lparr>futures := [\<lparr>fstate = Pending, callbacks = []\<rparr>,
                       \<lparr>fstate = Resolved None, callbacks = []\<rparr>,
                       \<lparr>fstate = Resolved None, callbacks = []\<rparr>], scheduled := []\<rparr>)"
    by (simp add: get_nowait_def consume_expired_def future_done_def fstate_of_def full_def
          qsize_def put_internal_def Event_clear_def put_item_def get_item_def set_result_def
          set_outcome_def remove_timeout_def Let_def)
  have g: "get None (?q2, ?w) =
      (Inr 3, ?q2\<lparr>queue := [7], putters := [], unfinished_tasks := 2\<rparr>,
       ?w\<lparr>futures := [\<lparr>fstate = Pending, callbacks = []\<rparr>,
                       \<lparr>fstate = Resolved None, callbacks = []\<rparr>,
                       \<lparr>fstate = Resolved None, callbacks = []\<rparr>,
                       \<lparr>fstate = Resolved (Some 3), callbacks = []\<rparr>], scheduled := []\<rparr>)"
    by (simp add: get_def Future_def get_nowait_def consume_expired_def future_done_def
          fstate_of_def full_def qsize_def put_internal_def Event_clear_def put_item_def
          get_item_def set_result_def set_outcome_def remove_timeout_def Let_def)
  note T = task_done_and_put_counting
    [OF h1 h2 h3, where item = 5 and tmo = None and c = FifoQueue and m = "Some 0"
       and ?q0.0 = ?init
       and ops = "[Get (Some (Timedelta 1)), PutNowait 5, TaskDone, TaskDone]"
       and self' = ?q2 and w' = ?w and tmo' = None]
  have c3: "(case task_done
          (?q,
           ?w)
       of (r, self1, w1) \<Rightarrow>
         r = Inr () \<and> unfinished_tasks self1 = 0 \<and> Event_is_set (finished self1, w1))"
    using T [THEN conjunct2, THEN conjunct1]
    by (simp add: td Event_is_set_def future_done_def fstate_of_def)
  have c4: "(case put_nowait (5::int)
          (?q,
           ?w)
       of (r, self1, w1) \<Rightarrow>
         r = Inr () \<and> unfinished_tasks self1 = 2 \<and> \<not> Event_is_set (finished self1, w1)
         \<and> fstate_of w1 2 = Resolved (Some 5))"
    using T [THEN conjunct2, THEN conjunct2, THEN conjunct1]
    by (simp add: pn Event_is_set_def future_done_def fstate_of_def)
  have c5: "(case put (5::int) None
          (?q,
           ?w)
       of (r, self1, w1) \<Rightarrow>
         r = Inr NullFuture \<and> unfinished_tasks self1 = 2
         \<and> \<not> Event_is_set (finished self1, w1))"
    using T [THEN conjunct2, THEN conjunct2, THEN conjunct2, THEN conjunct1]
    by (simp add: pu Event_is_set_def future_done_def fstate_of_def)
  have c7: "(case Queue_run [Get (Some (Timedelta 1)), PutNowait 5, TaskDone, TaskDone]
          ?init
       of (q, wq) \<Rightarrow>
         0 \<le> unfinished_tasks q
         \<and> ev_future (finished q) < length (futures wq)
         \<and> list_all (waiter_ok wq (ev_future (finished q))) (getters q)
         \<and> list_all (\<lambda>p. waiter_ok wq (ev_future (finished q)) (snd p)) (putters q))"
    using T [THEN conjunct2, THEN conjunct2, THEN conjunct2, THEN conjunct2, THEN conjunct1] h6
    by (rule mp)
  have c910: "(case get_nowait
          (?q2,
           ?w)
       of (r, self1, w1) \<Rightarrow>
         r = Inr 3 \<and> unfinished_tasks self1 = 2 \<and> \<not> Event_is_set (finished self1, w1)
         \<and> fstate_of w1 2 = Resolved None)
   \<and> (case get None
          (?q2,
           ?w)
       of (r, self1, w1) \<Rightarrow>
         r = Inr 3 \<and> unfinished_tasks self1 = 2 \<and> \<not> Event_is_set (finished self1, w1)
         \<and> fstate_of w1 2 = Resolved None \<and> fstate_of w1 3 = Resolved (Some 3))"
    using mp [OF T [THEN conjunct2, THEN conjunct2, THEN conjunct2, THEN conjunct2,
                    THEN conjunct2, THEN conjunct1] h8]
    by (simp add: gn g Event_is_set_def future_done_def fstate_of_def full_def qsize_def)
  show ?thesis
    by (rule conjI [OF h1 conjI [OF h2 conjI [OF c3 conjI [OF c4 conjI [OF c5
          conjI [OF h6 conjI [OF c7 conjI [OF h8 c910]]]]]]]])
qed

text \<open>
  Claim C1. When \<^verbatim>\<open>get_nowait\<close> finds a live putter at the front of \<^verbatim>\<open>_putters\<close> (after
  the expired ones are dropped) and the queue is full, it takes that oldest pair off the
  list, resolves the putter with \<^verbatim>\<open>None\<close>, counts the item, and returns what \<^verbatim>\<open>_get\<close>
  extracts from the storage into which \<^verbatim>\<open>_put\<close> has inserted the putter's item; the
  storage left is the one that extraction leaves. When \<^verbatim>\<open>put_nowait\<close> finds a live
  getter and the storage is empty, the getter is resolved with what \<^verbatim>\<open>_get\<close> extracts
  after \<^verbatim>\<open>_put\<close>, which there is the item put. On a \<^verbatim>\<open>PriorityQueue\<close> of \<^verbatim>\<open>maxsize\<close> 1
  that holds \<^verbatim>\<open>(0, 'a')\<close> with a putter waiting to put \<^verbatim>\<open>(5, 'b')\<close>, \<^verbatim>\<open>get\<close> returns
  \<^verbatim>\<open>(0, 'a')\<close>: another item than the putter's, and a smaller one. In every state reached
  from a queue that the constructor has just returned, the putters and getters are
  futures of the store, as the first two parts assume of the one at the front.
\<close>

theorem rendezvous_requeries_storage:
  "(dropWhile (\<lambda>p. future_done w (snd p)) (putters self) = (item, putter) # rest
      \<and> full self \<and> putter < length (futures w)
    \<longrightarrow> (case get_nowait (self, w) of (r, self1, w1) \<Rightarrow>
           (case get_item (put_item item self) of
              Inl e \<Rightarrow> False
            | Inr (x, qx) \<Rightarrow> r = Inr x \<and> queue self1 = queue qx)
           \<and> putters self1 = rest
           \<and> fstate_of w1 putter = Resolved None
           \<and> unfinished_tasks self1 = unfinished_tasks self + 1))
   \<and> (dropWhile (future_done w') (getters self') = getter # rest'
      \<and> empty self' \<and> getter < length (futures w')
    \<longrightarrow> (case put_nowait item' (self', w') of (r, self1, w1) \<Rightarrow>
           r = Inr ()
           \<and> (case get_item (put_item item' self') of
                Inl e \<Rightarrow> False
              | Inr (x, qx) \<Rightarrow>
                  fstate_of w1 getter = Resolved (Some x) \<and> x = item' \<and> queue self1 = queue qx)
           \<and> getters self1 = rest'))
   \<and> (case Queue_init PriorityQueue (Some 1) world0 of
        Inl e \<Rightarrow> False
      | Inr s0 \<Rightarrow>
          (let (p1, s1) = put (0::int, ''a'') None s0;
               (p2, s2) = put (5, ''b'') None s1;
               (g, s3) = get None s2
           in p1 = Inr NullFuture \<and> p2 = Inr (FutureRef 2)
              \<and> putters (fst s2) = [((5, ''b''), 2)] \<and> \<not> future_done (snd s2) 2
              \<and> map_sum id (fstate_of (snd s3)) g = Inr (Resolved (Some (0, ''a'')))
              \<and> (0::int, ''a'') < (5, ''b'')
              \<and> fstate_of (snd s3) 2 = Resolved None
              \<and> queue (fst s3) = [(5, ''b'')]))
   \<and> (Queue_init c m world0 = Inr q0
      \<longrightarrow> (case Queue_run ops q0 of (q, wq) \<Rightarrow>
            list_all (\<lambda>p. snd p < length (futures wq)) (putters q)
            \<and> list_all (\<lambda>g. g < length (futures wq)) (getters q)))"
proof (intro conjI impI)
  assume a: "dropWhile (\<lambda>p. future_done w (snd p)) (putters self) = (item, putter) # rest
      \<and> full self \<and> putter < length (futures w)"
  obtain r self1 w1 where gn: "get_nowait (self, w) = (r, self1, w1)"
    by (cases "get_nowait (self, w)")
  show "case get_nowait (self, w) of (r, self1, w1) \<Rightarrow>
           (case get_item (put_item item self) of
              Inl e \<Rightarrow> False
            | Inr (x, qx) \<Rightarrow> r = Inr x \<and> queue self1 = queue qx)
           \<and> putters self1 = rest
           \<and> fstate_of w1 putter = Resolved None
           \<and> unfinished_tasks self1 = unfinished_tasks self + 1"
    using get_nowait_putter [OF a [THEN conjunct1] a [THEN conjunct2, THEN conjunct1]
            a [THEN conjunct2, THEN conjunct2] gn]
    by (auto simp: gn)
next
  assume a: "dropWhile (future_done w') (getters self') = getter # rest'
      \<and> empty self' \<and> getter < length (futures w')"
  obtain r self1 w1 where pn: "put_nowait item' (self', w') = (r, self1, w1)"
    by (cases "put_nowait item' (self', w')")
  obtain qa where ga: "get_item (put_item item' self') = Inr (item', qa)" and qa: "queue qa = []"
    using get_put_item_empty [of self' item'] a by (auto simp: empty_def)
  show "case put_nowait item' (self', w') of (r, self1, w1) \<Rightarrow>
           r = Inr ()
           \<and> (case get_item (put_item item' self') of
                Inl e \<Rightarrow> False
              | Inr (x, qx) \<Rightarrow>
                  fstate_of w1 getter = Resolved (Some x) \<and> x = item' \<and> queue self1 = queue qx)
           \<and> getters self1 = rest'"
    using put_nowait_getter [OF a [THEN conjunct1] a [THEN conjunct2, THEN conjunct1]
            a [THEN conjunct2, THEN conjunct2] pn] ga qa
    by (simp add: pn)
next
  show "case Queue_init PriorityQueue (Some 1) world0 of
        Inl e \<Rightarrow> False
      | Inr s0 \<Rightarrow>
          (let (p1, s1) = put (0::int, ''a'') None s0;
               (p2, s2) = put (5, ''b'') None s1;
               (g, s3) = get None s2
           in p1 = Inr NullFuture \<and> p2 = Inr (FutureRef 2)
              \<and> putters (fst s2) = [((5, ''b''), 2)] \<and> \<not> future_done (snd s2) 2
              \<and> map_sum id (fstate_of (snd s3)) g = Inr (Resolved (Some (0, ''a'')))
              \<and> (0::int, ''a'') < (5, ''b'')
              \<and> fstate_of (snd s3) 2 = Resolved None
              \<and> queue (fst s3) = [(5, ''b'')])"
    by (simp add: queue_eval)
next
  assume "Queue_init c m world0 = Inr q0"
  then have "queue_state_ok (Queue_run ops q0)"
    by (rule Queue_run_state_ok [OF Queue_init_state_ok])
  then show "case Queue_run ops q0 of (q, wq) \<Rightarrow>
            list_all (\<lambda>p. snd p < length (futures wq)) (putters q)
            \<and> list_all (\<lambda>g. g < length (futures wq)) (getters q)"
    using queue_state_ok_valid [of "fst (Queue_run ops q0)" "snd (Queue_run ops q0)"]
    by (simp add: case_prod_beta)
qed


theorem rendezvous_requeries_storage_witness:
  "(dropWhile (\<lambda>p. future_done (\<lparr>futures = [\<lparr>fstate = Pending, callbacks = []\<rparr>,
                     \<lparr>fstate = Resolved None, callbacks = []\<rparr>,
                     \<lparr>fstate = Pending, callbacks = []\<rparr>],
          scheduled = [], next_handle = 0\<rparr> :: (int \<times> string) option world) (snd p)) (putters (\<lparr>cls = PriorityQueue, maxsize = 1, queue = [(0, ''a'')], getters = [],
          putters = [((5, ''b''), 2)], unfinished_tasks = 1,
          finished = \<lparr>ev_future = 0\<rparr>\<rparr> :: (int \<times> string) Queue)) = ((5, ''b''), 2) # []
      \<and> full (\<lparr>cls = PriorityQueue, maxsize = 1, queue = [(0, ''a'')], getters = [],
          putters = [((5, ''b''), 2)], unfinished_tasks = 1,
          finished = \<lparr>ev_future = 0\<rparr>\<rparr> :: (int \<times> string) Queue) \<and> 2 < length (futures (\<lparr>futures = [\<lparr>fstate = Pending, callbacks = []\<rparr>,
                     \<lparr>fstate = Resolved None, callbacks = []\<rparr>,
                     \<lparr>fstate = Pending, callbacks = []\<rparr>],
          scheduled = [], next_handle = 0\<rparr> :: (int \<times> string) option world)))
   \<and> (case get_nowait ((\<lparr>cls = PriorityQueue, maxsize = 1, queue = [(0, ''a'')], getters = [],
          putters = [((5, ''b''), 2)], unfinished_tasks = 1,
          finished = \<lparr>ev_future = 0\<rparr>\<rparr> :: (int \<times> string) Queue), (\<lparr>futures = [\<lparr>fstate = Pending, callbacks = []\<rparr>,
                     \<lparr>fstate = Resolved None, callbacks = []\<rparr>,
                     \<lparr>fstate = Pending, callbacks = []\<rparr>],
          scheduled = [], next_handle = 0\<rparr> :: (int \<times> string) option world)) of (r, self1, w1) \<Rightarrow>
           (case get_item (put_item (5, ''b'') (\<lparr>cls = PriorityQueue, maxsize = 1, queue = [(0, ''a'')], getters = [],
          putters = [((5, ''b''), 2)], unfinished_tasks = 1,
          finished = \<lparr>ev_future = 0\<rparr>\<rparr> :: (int \<times> string) Queue)) of
              Inl e \<Rightarrow> False
            | Inr (x, qx) \<Rightarrow> r = Inr x \<and> queue self1 = queue qx)
           \<and> putters self1 = []
           \<and> fstate_of w1 2 = Resolved None
           \<and> unfinished_tasks self1 = unfinished_tasks (\<lparr>cls = PriorityQueue, maxsize = 1, queue = [(0, ''a'')], getters = [],
          putters = [((5, ''b''), 2)], unfinished_tasks = 1,
          finished = \<lparr>ev_future = 0\<rparr>\<rparr> :: (int \<times> string) Queue) + 1)
   \<and> (dropWhile (future_done (\<lparr>futures = [\<lparr>fstate = Resolved None, callbacks = []\<rparr>,
                     \<lparr>fstate = Resolved None, callbacks = []\<rparr>,
                     \<lparr>fstate = Pending, callbacks = []\<rparr>],
          scheduled = [], next_handle = 0\<rparr> :: int option world)) (getters (\<lparr>cls = LifoQueue, maxsize = 0, queue = [], getters = [2],
          putters = [], unfinished_tasks = 0,
          finished = \<lparr>ev_future = 0\<rparr>\<rparr> :: int Queue)) = 2 # []
      \<and> empty (\<lparr>cls = LifoQueue, maxsize = 0, queue = [], getters = [2],
          putters = [], unfinished_tasks = 0,
          finished = \<lparr>ev_future = 0\<rparr>\<rparr> :: int Queue) \<and> 2 < length (futures (\<lparr>futures = [\<lparr>fstate = Resolved None, callbacks = []\<rparr>,
                     \<lparr>fstate = Resolved None, callbacks = []\<rparr>,
                     \<lparr>fstate = Pending, callbacks = []\<rparr>],
          scheduled = [], next_handle = 0\<rparr> :: int option world)))
   \<and> (case put_nowait 7 ((\<lparr>cls = LifoQueue, maxsize = 0, queue = [], getters = [2],
          putters = [], unfinished_tasks = 0,
          finished = \<lparr>ev_future = 0\<rparr>\<rparr> :: int Queue), (\<lparr>futures = [\<lparr>fstate = Resolved None, callbacks = []\<rparr>,
                     \<lparr>fstate = Resolved None, callbacks = []\<rparr>,
                     \<lparr>fstate = Pending, callbacks = []\<rparr>],
          scheduled = [], next_handle = 0\<rparr> :: int option world)) of (r, self1, w1) \<Rightarrow>
           r = Inr ()
           \<and> (case get_item (put_item 7 (\<lparr>cls = LifoQueue, maxsize = 0, queue = [], getters = [2],
          putters = [], unfinished_tasks = 0,
          finished = \<lparr>ev_future = 0\<rparr>\<rparr> :: int Queue)) of
                Inl e \<Rightarrow> False
              | Inr (x, qx) \<Rightarrow>
                  fstate_of w1 2 = Resolved (Some x) \<and> x = 7 \<and> queue self1 = queue qx)
           \<and> getters self1 = [])
   \<and> Queue_init PriorityQueue (Some 1) world0
       = Inr (\<lparr>cls = PriorityQueue, maxsize = 1, queue = [], getters = [], putters = [],
            unfinished_tasks = 0, finished = \<lparr>ev_future = 0\<rparr>\<rparr> :: (int \<times> string) Queue,
           \<lparr>futures = [\<lparr>fstate = Resolved None, callbacks = []\<rparr>],
            scheduled = [], next_handle = 0\<rparr> :: (int \<times> string) option world)
   \<and> (case Queue_run [Put (0, ''a'') None, Put (5, ''b'') None, Get None]
          (\<lparr>cls = PriorityQueue, maxsize = 1, queue = [], getters = [], putters = [],
            unfinished_tasks = 0, finished = \<lparr>ev_future = 0\<rparr>\<rparr> :: (int \<times> string) Queue,
           \<lparr>futures = [\<lparr>fstate = Resolved None, callbacks = []\<rparr>],
            scheduled = [], next_handle = 0\<rparr> :: (int \<times> string) option world)
       of (q, wq) \<Rightarrow>
            list_all (\<lambda>p. snd p < length (futures wq)) (putters q)
            \<and> list_all (\<lambda>g. g < length (futures wq)) (getters q))"
  (is "?A1 \<and> ?C1 \<and> ?A2 \<and> ?C2 \<and> ?A3 \<and> ?C3")
proof -
  have a1: ?A1 by (simp add: future_done_def fstate_of_def full_def qsize_def)
  have a2: ?A2 by (simp add: future_done_def fstate_of_def empty_def)
  note T = rendezvous_requeries_storage
    [of "(\<lparr>futures = [\<lparr>fstate = Pending, callbacks = []\<rparr>,
                     \<lparr>fstate = Resolved None, callbacks = []\<rparr>,
                     \<lparr>fstate = Pending, callbacks = []\<rparr>],
          scheduled = [], next_handle = 0\<rparr> :: (int \<times> string) option world)" "(\<lparr>cls = PriorityQueue, maxsize = 1, queue = [(0, ''a'')], getters = [],
          putters = [((5, ''b''), 2)], unfinished_tasks = 1,
          finished = \<lparr>ev_future = 0\<rparr>\<rparr> :: (int \<times> string) Queue)" "(5, ''b'')" 2 "[]" "(\<lparr>futures = [\<lparr>fstate = Resolved None, callbacks = []\<rparr>,
                     \<lparr>fstate = Resolved None, callbacks = []\<rparr>,
                     \<lparr>fstate = Pending, callbacks = []\<rparr>],
          scheduled = [], next_handle = 0\<rparr> :: int option world)" "(\<lparr>cls = LifoQueue, maxsize = 0, queue = [], getters = [2],
          putters = [], unfinished_tasks = 0,
          finished = \<lparr>ev_future = 0\<rparr>\<rparr> :: int Queue)" 2 "[]" 7,
     where c = PriorityQueue and m = "Some 1"
       and ?q0.0 = "(\<lparr>cls = PriorityQueue, maxsize = 1, queue = [], getters = [], putters = [],
            unfinished_tasks = 0, finished = \<lparr>ev_future = 0\<rparr>\<rparr> :: (int \<times> string) Queue,
           \<lparr>futures = [\<lparr>fstate = Resolved None, callbacks = []\<rparr>],
            scheduled = [], next_handle = 0\<rparr> :: (int \<times> string) option world)"
       and ops = "[Put (0, ''a'') None, Put (5, ''b'') None, Get None]"]
  have a3: ?A3
    by (simp add: Queue_init_def Event_init_def Event_set_def Future_def world0_def
          future_done_def fstate_of_def set_result_def set_outcome_def Let_def)
  have c1: ?C1 using T [THEN conjunct1] a1 by (rule mp)
  have c2: ?C2 using T [THEN conjunct2, THEN conjunct1] a2 by (rule mp)
  have c3: ?C3 using T [THEN conjunct2, THEN conjunct2, THEN conjunct2] a3 by (rule mp)
  show ?thesis
    by (rule conjI [OF a1 conjI [OF c1 conjI [OF a2 conjI [OF c2 conjI [OF a3 c3]]]]])
qed

end
